(* ===== verification/QV_Prelude.thy ===== *)
theory QV_Prelude
  imports Main "HOL-Library.Word" "HOL-Library.AList" "HOL-Library.Multiset"
begin

text \<open>
  The shared vocabulary of the development: machine integers and floats as words, the
  little-endian byte codecs of the standard library, the comparison of \<open>f32\<close> values, Rust's
  stable \<open>sort_by\<close>, and lemmas about lists and association lists used by several components.

  A fallible Rust operation returns \<open>'e + 'a\<close> (\<open>Inl\<close> is \<open>Err\<close>); an operation that may
  panic returns an \<open>option\<close> whose \<open>None\<close> is the panic.  A \<open>HashMap\<close> that the code
  iterates is an association list with distinct keys (its order stands for the unspecified
  iteration order); one that is only looked up is a map.
\<close>

named_theorems codec "length and round trip facts of the byte codecs"
named_theorems io_ok "behaviour of the I/O primitives when no fault is scripted"

section \<open>Machine types\<close>

type_synonym u8 = "8 word"
type_synonym u16 = "16 word"
type_synonym u32 = "32 word"
type_synonym u64 = "64 word"
type_synonym byte = "8 word"
type_synonym bytes = "byte list"

text \<open>An \<open>f32\<close> is its IEEE 754 bit pattern (\<open>f32::to_bits\<close>).\<close>

type_synonym f32 = "32 word"
type_synonym vec = "f32 list"

section \<open>Little-endian byte codecs\<close>

fun le_bytes :: "nat \<Rightarrow> nat \<Rightarrow> bytes" where
  "le_bytes 0 x = []"
| "le_bytes (Suc n) x = of_nat (x mod 256) # le_bytes n (x div 256)"

fun le_value :: "bytes \<Rightarrow> nat" where
  "le_value [] = 0"
| "le_value (b # bs) = unat b + 256 * le_value bs"

definition u32_to_le :: "u32 \<Rightarrow> bytes" where
  "u32_to_le w = le_bytes 4 (unat w)"

definition u32_from_le :: "bytes \<Rightarrow> u32" where
  "u32_from_le bs = of_nat (le_value bs)"

definition u64_to_le :: "u64 \<Rightarrow> bytes" where
  "u64_to_le w = le_bytes 8 (unat w)"

definition u64_from_le :: "bytes \<Rightarrow> u64" where
  "u64_from_le bs = of_nat (le_value bs)"

lemma length_le_bytes [simp, codec]: "length (le_bytes n x) = n"
  by (induction n arbitrary: x) auto

lemma le_value_le_bytes: "le_value (le_bytes n x) = x mod 256 ^ n"
proof (induction n arbitrary: x)
  case 0
  then show ?case by simp
next
  case (Suc n)
  have "unat (of_nat (x mod 256) :: byte) = x mod 256"
    by (simp add: unat_of_nat)
  then show ?case
    by (simp add: Suc.IH mod_mult2_eq)
qed

lemma le_value_bound: "le_value bs < 256 ^ length bs"
proof (induction bs)
  case Nil
  then show ?case by simp
next
  case (Cons b bs)
  have "unat b < 256" using unsigned_less [of b, where 'a = nat] by simp
  with Cons.IH show ?case by simp
qed

lemma le_bytes_le_value: "n = length bs \<Longrightarrow> le_bytes n (le_value bs) = bs"
proof (induction bs arbitrary: n)
  case Nil
  then show ?case by simp
next
  case (Cons b bs)
  have b: "unat b < 256" using unsigned_less [of b, where 'a = nat] by simp
  then show ?case using Cons by simp
qed

lemma length_u32_to_le [simp, codec]: "length (u32_to_le w) = 4"
  by (simp add: u32_to_le_def)

lemma length_u64_to_le [simp, codec]: "length (u64_to_le w) = 8"
  by (simp add: u64_to_le_def)

lemma to_le_neq_Nil [simp]: "u32_to_le w \<noteq> []" "u64_to_le v \<noteq> []"
  by (simp_all flip: length_0_conv)

lemma u32_from_to_le [simp, codec]: "u32_from_le (u32_to_le w) = w"
  using unsigned_less [of w, where 'a = nat]
  by (simp add: u32_from_le_def u32_to_le_def le_value_le_bytes)

lemma u64_from_to_le [simp, codec]: "u64_from_le (u64_to_le w) = w"
  using unsigned_less [of w, where 'a = nat]
  by (simp add: u64_from_le_def u64_to_le_def le_value_le_bytes)

lemma u32_to_from_le [codec]: "length bs = 4 \<Longrightarrow> u32_to_le (u32_from_le bs) = bs"
  using le_value_bound [of bs]
  by (simp add: u32_from_le_def u32_to_le_def le_bytes_le_value unat_of_nat)

lemma u64_to_from_le [codec]: "length bs = 8 \<Longrightarrow> u64_to_le (u64_from_le bs) = bs"
  using le_value_bound [of bs]
  by (simp add: u64_from_le_def u64_to_le_def le_bytes_le_value unat_of_nat)

section \<open>Comparing f32 values\<close>

text \<open>
  For values that are not NaN the IEEE order is the order of the signed magnitude; both zeros
  have magnitude 0 and compare equal.  A comparison with a NaN is false, and
  \<open>partial_cmp\<close> is \<open>None\<close> there.
\<close>

definition f32_is_nan :: "f32 \<Rightarrow> bool" where
  "f32_is_nan x \<longleftrightarrow> uint x mod 2 ^ 31 > 0x7F800000"

definition f32_key :: "f32 \<Rightarrow> int" where
  "f32_key x = (if uint x < 2 ^ 31 then uint x else - (uint x mod 2 ^ 31))"

definition f32_lt :: "f32 \<Rightarrow> f32 \<Rightarrow> bool" where
  "f32_lt a b \<longleftrightarrow> \<not> f32_is_nan a \<and> \<not> f32_is_nan b \<and> f32_key a < f32_key b"

text \<open>\<open>a.partial_cmp(&b).unwrap_or(Equal) != Greater\<close>.\<close>

definition f32_cmp_le :: "f32 \<Rightarrow> f32 \<Rightarrow> bool" where
  "f32_cmp_le a b \<longleftrightarrow> f32_is_nan a \<or> f32_is_nan b \<or> f32_key a \<le> f32_key b"

text \<open>\<open>a.partial_cmp(&b).unwrap_or(Equal) == Equal\<close>.\<close>

definition f32_cmp_eq :: "f32 \<Rightarrow> f32 \<Rightarrow> bool" where
  "f32_cmp_eq a b \<longleftrightarrow> f32_cmp_le a b \<and> f32_cmp_le b a"

definition f32_infinity :: f32 where
  "f32_infinity = 0x7F800000"

lemma f32_key_bounds: "- (2 ^ 31) \<le> f32_key x" "f32_key x < 2 ^ 31"
proof -
  have "0 \<le> uint x mod 2 ^ 31" "uint x mod 2 ^ 31 < 2 ^ 31" "0 \<le> uint x" by simp_all
  then have "- (2 ^ 31) \<le> f32_key x \<and> f32_key x < 2 ^ 31"
    unfolding f32_key_def by (intro conjI; split if_split; linarith)
  then show "- (2 ^ 31) \<le> f32_key x" "f32_key x < 2 ^ 31" by blast+
qed

lemma f32_cmp_le_lt: "\<not> f32_is_nan a \<Longrightarrow> \<not> f32_is_nan b \<Longrightarrow> f32_cmp_le a b \<longleftrightarrow> \<not> f32_lt b a"
  by (auto simp: f32_cmp_le_def f32_lt_def)

section \<open>Stable sorting (slice::sort\_by)\<close>

text \<open>
  \<open>sort_by le\<close> is the stable sort of a list for a comparator given as
  \<open>cmp(a, b) != Greater\<close>.  Where the comparator is a total preorder, this is the unique stable
  order, which is what the library computes.
\<close>

fun insort_by :: "('a \<Rightarrow> 'a \<Rightarrow> bool) \<Rightarrow> 'a \<Rightarrow> 'a list \<Rightarrow> 'a list" where
  "insort_by le x [] = [x]"
| "insort_by le x (y # ys) = (if le x y then x # y # ys else y # insort_by le x ys)"

definition sort_by :: "('a \<Rightarrow> 'a \<Rightarrow> bool) \<Rightarrow> 'a list \<Rightarrow> 'a list" where
  "sort_by le xs = foldr (insort_by le) xs []"

lemma mset_insort_by: "mset (insort_by le x xs) = add_mset x (mset xs)"
  by (induction xs) auto

lemma mset_sort_by [simp]: "mset (sort_by le xs) = mset xs"
  by (induction xs) (auto simp: sort_by_def mset_insort_by)

lemma set_sort_by [simp]: "set (sort_by le xs) = set xs"
  by (metis mset_sort_by set_mset_mset)

lemma length_sort_by [simp]: "length (sort_by le xs) = length xs"
  by (metis mset_sort_by size_mset)

lemma distinct_map_sort_by: "distinct (map f (sort_by le xs)) \<longleftrightarrow> distinct (map f xs)"
  by (metis mset_map mset_sort_by mset_eq_imp_distinct_iff)

definition total_preorder_on :: "'a set \<Rightarrow> ('a \<Rightarrow> 'a \<Rightarrow> bool) \<Rightarrow> bool" where
  "total_preorder_on A le \<longleftrightarrow>
     (\<forall>x\<in>A. \<forall>y\<in>A. le x y \<or> le y x) \<and>
     (\<forall>x\<in>A. \<forall>y\<in>A. \<forall>z\<in>A. le x y \<longrightarrow> le y z \<longrightarrow> le x z)"

lemma sorted_insort_by:
  assumes "total_preorder_on A le" "insert x (set xs) \<subseteq> A" "sorted_wrt le xs"
  shows "sorted_wrt le (insort_by le x xs)"
  using assms(2,3)
proof (induction xs)
  case Nil
  then show ?case by simp
next
  case (Cons y ys)
  have trans: "le a c" if "a \<in> A" "b \<in> A" "c \<in> A" "le a b" "le b c" for a b c
    using that assms(1) unfolding total_preorder_on_def by blast
  have total: "le y x" if "\<not> le x y"
    using that Cons.prems(1) assms(1) unfolding total_preorder_on_def by auto
  have set: "set (insort_by le x ys) = insert x (set ys)"
    by (metis mset_insort_by set_mset_add_mset_insert set_mset_mset)
  show ?case
  proof (cases "le x y")
    case True
    then have "le x z" if "z \<in> set ys" for z
      using trans [of x y z] that Cons.prems by auto
    with True Cons.prems show ?thesis by simp
  next
    case False
    with Cons set total show ?thesis by simp
  qed
qed

lemma sorted_sort_by:
  assumes "total_preorder_on (set xs) le"
  shows "sorted_wrt le (sort_by le xs)"
proof -
  have "sorted_wrt le (foldr (insort_by le) ys [])" if "set ys \<subseteq> set xs" for ys
    using that
  proof (induction ys)
    case Nil
    then show ?case by simp
  next
    case (Cons y ys)
    have "set (foldr (insort_by le) ys []) = set ys"
      using set_sort_by [of le ys] by (simp add: sort_by_def)
    with Cons show ?case
      by (auto intro: sorted_insort_by [OF assms])
  qed
  then show ?thesis by (simp add: sort_by_def)
qed

lemma sorted_wrt_take: "sorted_wrt P xs \<Longrightarrow> sorted_wrt P (take n xs)"
  by (metis append_take_drop_id sorted_wrt_append)

section \<open>Association lists\<close>

lemma map_of_eq_alookup: "distinct (map fst xs) \<Longrightarrow> (k, v) \<in> set xs \<longleftrightarrow> map_of xs k = Some v"
  by (rule map_of_eq_Some_iff [symmetric])

lemma distinct_AList_update: "distinct (map fst xs) \<Longrightarrow> distinct (map fst (AList.update k v xs))"
  by (rule distinct_update)

end
