(* ===== verification/Float32.thy ===== *)
theory Float32
  imports QV_Prelude
begin

text \<open>
  Single-precision arithmetic of the language, on the bit patterns that \<open>QV_Prelude\<close> compares.
  Every finite value is a multiple of \<open>2 ^ -149\<close>, so that an operation is computed exactly on
  integers and rounded once, to nearest with ties to even.  The payload of a NaN result is not
  specified by the language; the model has one quiet NaN.
\<close>

section \<open>Values\<close>

definition f32_sign :: "f32 \<Rightarrow> bool" where
  "f32_sign x \<longleftrightarrow> uint x \<ge> 2 ^ 31"

definition f32_bits :: "f32 \<Rightarrow> int" where
  "f32_bits x = uint x mod 2 ^ 31"

definition f32_make :: "bool \<Rightarrow> int \<Rightarrow> f32" where
  "f32_make s k = word_of_int (if s then 2 ^ 31 + k else k)"

definition f32_nan :: f32 where
  "f32_nan = 0x7FC00000"

text \<open>The magnitude with the bits \<open>k\<close> (exponent and fraction), in units of \<open>2 ^ -149\<close>.\<close>

definition mag_value :: "int \<Rightarrow> int" where
  "mag_value k = (if k < 2 ^ 23 then k else (k mod 2 ^ 23 + 2 ^ 23) * 2 ^ nat (k div 2 ^ 23 - 1))"

definition inf_bits :: int where
  "inf_bits = 0x7F800000"

definition f32_finite :: "f32 \<Rightarrow> bool" where
  "f32_finite x \<longleftrightarrow> f32_bits x < inf_bits"

definition f32_is_inf :: "f32 \<Rightarrow> bool" where
  "f32_is_inf x \<longleftrightarrow> f32_bits x = inf_bits"

definition f32_mag :: "f32 \<Rightarrow> int" where
  "f32_mag x = mag_value (f32_bits x)"

definition f32_val :: "f32 \<Rightarrow> int" where
  "f32_val x = (if f32_sign x then - f32_mag x else f32_mag x)"

section \<open>Rounding\<close>

function bit_length :: "int \<Rightarrow> nat" where
  "bit_length n = (if n \<le> 0 then 0 else Suc (bit_length (n div 2)))"
  by pat_completeness auto
termination
  by (relation "measure nat") auto

declare bit_length.simps [simp del]

text \<open>The number of binary digits below the 24 that are kept.\<close>

definition excess :: "int \<Rightarrow> nat" where
  "excess n = bit_length n - 24"

text \<open>A quotient \<open>t\<close> with remainder \<open>r\<close> of a division by \<open>d\<close>, rounded to nearest even.\<close>

definition round_half_even :: "int \<Rightarrow> int \<Rightarrow> int \<Rightarrow> int" where
  "round_half_even t r d = (if 2 * r > d \<or> 2 * r = d \<and> odd t then t + 1 else t)"

text \<open>The bits of the magnitude nearest to \<open>p / q\<close>, infinity on overflow.\<close>

definition round_ratio :: "int \<Rightarrow> int \<Rightarrow> int" where
  "round_ratio p q =
     (let s = excess (p div q); d = q * 2 ^ s in
      min (int s * 2 ^ 23 + round_half_even (p div d) (p mod d) d) inf_bits)"

section \<open>Operations\<close>

definition f32_neg :: "f32 \<Rightarrow> f32" where
  "f32_neg x = f32_make (\<not> f32_sign x) (f32_bits x)"

definition f32_add :: "f32 \<Rightarrow> f32 \<Rightarrow> f32" where
  "f32_add a b =
     (if f32_is_nan a \<or> f32_is_nan b then f32_nan
      else if f32_is_inf a then (if f32_is_inf b \<and> f32_sign a \<noteq> f32_sign b then f32_nan else a)
      else if f32_is_inf b then b
      else let v = f32_val a + f32_val b in
        if v = 0 then f32_make (f32_sign a \<and> f32_sign b) 0
        else f32_make (v < 0) (round_ratio \<bar>v\<bar> 1))"

definition f32_sub :: "f32 \<Rightarrow> f32 \<Rightarrow> f32" where
  "f32_sub a b = f32_add a (f32_neg b)"

definition f32_mul :: "f32 \<Rightarrow> f32 \<Rightarrow> f32" where
  "f32_mul a b =
     (let s = (f32_sign a \<noteq> f32_sign b) in
      if f32_is_nan a \<or> f32_is_nan b then f32_nan
      else if f32_is_inf a \<or> f32_is_inf b then (if f32_mag a = 0 \<or> f32_mag b = 0 then f32_nan else f32_make s inf_bits)
      else f32_make s (round_ratio (f32_mag a * f32_mag b) (2 ^ 149)))"

definition f32_div :: "f32 \<Rightarrow> f32 \<Rightarrow> f32" where
  "f32_div a b =
     (let s = (f32_sign a \<noteq> f32_sign b) in
      if f32_is_nan a \<or> f32_is_nan b \<or> f32_is_inf a \<and> f32_is_inf b \<or> f32_mag a = 0 \<and> f32_mag b = 0 then f32_nan
      else if f32_is_inf a \<or> f32_mag b = 0 then f32_make s inf_bits
      else if f32_is_inf b then f32_make s 0
      else f32_make s (round_ratio (f32_mag a * 2 ^ 149) (f32_mag b)))"

text \<open>The root of \<open>m\<close> units is the root of \<open>m * 2 ^ 149\<close>, in units.  What is cut off is compared with
  a half by squaring.\<close>

function isqrt :: "int \<Rightarrow> int" where
  "isqrt n = (if n \<le> 0 then 0 else let r = 2 * isqrt (n div 4) in if (r + 1) * (r + 1) \<le> n then r + 1 else r)"
  by pat_completeness auto
termination
  by (relation "measure nat") auto

declare isqrt.simps [simp del]

definition round_sqrt :: "int \<Rightarrow> int" where
  "round_sqrt n =
     (let s = excess (isqrt n); t = isqrt n div 2 ^ s; h = ((2 * t + 1) * 2 ^ s) * ((2 * t + 1) * 2 ^ s) in
      int s * 2 ^ 23 + (if 4 * n > h \<or> 4 * n = h \<and> odd t then t + 1 else t))"

definition f32_sqrt :: "f32 \<Rightarrow> f32" where
  "f32_sqrt x =
     (if f32_is_nan x then f32_nan
      else if f32_mag x = 0 then x
      else if f32_sign x then f32_nan
      else if f32_is_inf x then x
      else f32_make False (round_sqrt (f32_mag x * 2 ^ 149)))"

definition f32_clamp :: "f32 \<Rightarrow> f32 \<Rightarrow> f32 \<Rightarrow> f32" where
  "f32_clamp lo hi x = (if f32_lt x lo then lo else if f32_lt hi x then hi else x)"

section \<open>Laws\<close>

lemma f32_bits_bounds: "0 \<le> f32_bits x" "f32_bits x < 2 ^ 31"
  by (simp_all add: f32_bits_def)

lemma mod_above: "(m :: int) \<le> t \<Longrightarrow> t < 2 * m \<Longrightarrow> t mod m = t - m"
  by (metis diff_ge_0_iff_ge diff_less_eq minus_mod_self2 mod_pos_pos_trivial mult_2)

lemma f32_uint: "uint x = (if f32_sign x then 2 ^ 31 + f32_bits x else f32_bits x)"
proof (cases "f32_sign x")
  case True
  have "uint x < 2 * 2 ^ 31" using unsigned_less [of x, where 'a = int] by simp
  then have "uint x mod 2 ^ 31 = uint x - 2 ^ 31" using True unfolding f32_sign_def by (intro mod_above)
  then show ?thesis using True by (simp add: f32_bits_def)
next
  case False
  then show ?thesis by (simp add: f32_bits_def f32_sign_def)
qed

lemma f32_make_uint: "0 \<le> k \<Longrightarrow> k < 2 ^ 31 \<Longrightarrow> uint (f32_make s k) = (if s then 2 ^ 31 + k else k)"
  by (simp add: f32_make_def uint_word_of_int)

lemma f32_make_parts [simp]:
  assumes "0 \<le> k" "k < 2 ^ 31"
  shows "f32_sign (f32_make s k) = s" "f32_bits (f32_make s k) = k"
  using assms f32_make_uint [OF assms, of s] by (simp_all add: f32_sign_def f32_bits_def)

lemma f32_make_self: "f32_make (f32_sign x) (f32_bits x) = x"
  unfolding f32_make_def by (subst f32_uint [symmetric]) (rule word_of_int_uint)

lemma f32_eqI:
  assumes "f32_sign x = f32_sign y" "f32_bits x = f32_bits y"
  shows "x = y"
proof -
  have "f32_make (f32_sign x) (f32_bits x) = f32_make (f32_sign y) (f32_bits y)" by (simp only: assms)
  then show ?thesis by (simp only: f32_make_self)
qed

lemma f32_nan_bits: "f32_is_nan x \<longleftrightarrow> inf_bits < f32_bits x"
  by (simp add: f32_is_nan_def f32_bits_def inf_bits_def)

lemma f32_key_bits: "f32_key x = (if f32_sign x then - f32_bits x else f32_bits x)"
  by (auto simp: f32_key_def f32_sign_def f32_bits_def)

lemma f32_finite_iff: "f32_finite x \<longleftrightarrow> \<not> f32_is_nan x \<and> \<not> f32_is_inf x"
  by (auto simp: f32_finite_def f32_nan_bits f32_is_inf_def)

lemma f32_nan_is_nan [simp]: "f32_is_nan f32_nan"
  by (simp add: f32_nan_def f32_is_nan_def)

lemma f32_neg_parts [simp]: "f32_sign (f32_neg x) \<longleftrightarrow> \<not> f32_sign x" "f32_bits (f32_neg x) = f32_bits x"
  using f32_bits_bounds [of x] by (simp_all add: f32_neg_def)

lemma f32_neg_kind [simp]:
  "f32_is_nan (f32_neg x) = f32_is_nan x" "f32_is_inf (f32_neg x) = f32_is_inf x" "f32_finite (f32_neg x) = f32_finite x"
  "f32_mag (f32_neg x) = f32_mag x" "f32_val (f32_neg x) = - f32_val x"
  by (simp_all add: f32_nan_bits f32_is_inf_def f32_finite_def f32_mag_def f32_val_def)

subsection \<open>Magnitudes\<close>

lemma mag_value_split:
  assumes "2 ^ 23 \<le> t" "t < 2 ^ 24"
  shows "mag_value (int s * 2 ^ 23 + t) = t * 2 ^ s"
proof -
  have "t mod 2 ^ 23 = t - 2 ^ 23" using assms by (intro mod_above) simp_all
  then have "(int s * 2 ^ 23 + t) mod 2 ^ 23 = t - 2 ^ 23" by simp
  moreover have "(int s * 2 ^ 23 + t) div 2 ^ 23 = int s + 1"
  proof (rule int_div_pos_eq)
    show "int s * 2 ^ 23 + t = 2 ^ 23 * (int s + 1) + (t - 2 ^ 23)" by simp
  qed (use assms in simp_all)
  ultimately have d: "(int s * 2 ^ 23 + t) mod 2 ^ 23 = t - 2 ^ 23" "(int s * 2 ^ 23 + t) div 2 ^ 23 = int s + 1" .
  have "\<not> int s * 2 ^ 23 + t < 2 ^ 23" using assms by simp
  then show ?thesis by (simp only: mag_value_def d if_False) simp
qed

lemma mag_bits_cases:
  assumes "0 \<le> k"
  obtains "k < 2 ^ 24" "mag_value k = k"
    | s t where "0 < s" "2 ^ 23 \<le> t" "t < 2 ^ 24" "k = int s * 2 ^ 23 + t" "mag_value k = t * 2 ^ s"
proof (cases "k < 2 ^ 24")
  case True
  have "mag_value k = k"
  proof (cases "k < 2 ^ 23")
    case False
    then show ?thesis using mag_value_split [of k 0] True by simp
  qed (simp add: mag_value_def)
  with True that(1) show ?thesis by blast
next
  case False
  let ?s = "nat (k div 2 ^ 23 - 1)" and ?t = "k mod 2 ^ 23 + 2 ^ 23"
  have q: "2 \<le> k div 2 ^ 23" using False by (simp add: pos_imp_zdiv_pos_iff zdiv_mono1 [of "2 ^ 24" k "2 ^ 23"])
  have k: "k = int ?s * 2 ^ 23 + ?t" using q div_mult_mod_eq [of k "2 ^ 23"] by (simp add: algebra_simps)
  have t: "2 ^ 23 \<le> ?t" "?t < 2 ^ 24" by simp_all
  show ?thesis by (rule that(2) [of ?s ?t]) (use q t k mag_value_split [OF t, of ?s] in simp_all)
qed

subsection \<open>Rounding\<close>

lemma bit_length_bounds: "0 < n \<Longrightarrow> 2 ^ (bit_length n - 1) \<le> n \<and> n < 2 ^ bit_length n \<and> 0 < bit_length n"
proof (induction n rule: bit_length.induct)
  case (1 n)
  show ?case
  proof (cases "n div 2 \<le> 0")
    case True
    then have "n = 1" using 1(2) by linarith
    then show ?thesis by (simp add: bit_length.simps)
  next
    case False
    then have "2 ^ (bit_length (n div 2) - 1) \<le> n div 2 \<and> n div 2 < 2 ^ bit_length (n div 2) \<and> 0 < bit_length (n div 2)"
      using 1(1,2) by linarith
    moreover have "bit_length n = Suc (bit_length (n div 2))" using 1(2) by (simp add: bit_length.simps [of n])
    ultimately show ?thesis by (cases "bit_length (n div 2)") auto
  qed
qed

lemma bit_length_0: "bit_length 0 = 0"
  by (subst bit_length.simps) simp

lemma excess_bounds:
  assumes "0 \<le> n"
  shows "n < 2 ^ (excess n + 24)" "0 < excess n \<Longrightarrow> 2 ^ (excess n + 23) \<le> n"
proof -
  show "n < 2 ^ (excess n + 24)"
  proof (cases "n = 0")
    case False
    then have "n < 2 ^ bit_length n" using bit_length_bounds [of n] assms by simp
    also have "(2 :: int) ^ bit_length n \<le> 2 ^ (excess n + 24)" by (rule power_increasing) (simp_all add: excess_def)
    finally show ?thesis .
  qed simp
  assume "0 < excess n"
  moreover from this have "n \<noteq> 0" by (auto simp: excess_def bit_length_0)
  ultimately have "excess n + 23 = bit_length n - 1" "0 < n" using assms by (auto simp: excess_def)
  then show "2 ^ (excess n + 23) \<le> n" using bit_length_bounds [of n] by simp
qed

lemma excess_unique:
  assumes "0 \<le> n" "n < 2 ^ (s + 24)" "0 < s \<Longrightarrow> 2 ^ (s + 23) \<le> n"
  shows "excess n = s"
proof (rule ccontr)
  assume "excess n \<noteq> s"
  then consider "excess n < s" | "s < excess n" by linarith
  then show False
  proof cases
    case 1
    have "n < 2 ^ (excess n + 24)" by (rule excess_bounds [OF assms(1)])
    also have "\<dots> \<le> 2 ^ (s + 23)" by (rule power_increasing) (use 1 in simp_all)
    finally show False using assms(3) 1 by simp
  next
    case 2
    have "(2 :: int) ^ (s + 24) \<le> 2 ^ (excess n + 23)" by (rule power_increasing) (use 2 in simp_all)
    also have "\<dots> \<le> n" by (rule excess_bounds(2) [OF assms(1)]) (use 2 in simp)
    finally show False using assms(2) by simp
  qed
qed

lemma excess_mono: "0 \<le> m \<Longrightarrow> m \<le> n \<Longrightarrow> excess m \<le> excess n"
proof (rule ccontr)
  assume a: "0 \<le> m" "m \<le> n" "\<not> excess m \<le> excess n"
  have "n < 2 ^ (excess n + 24)" using excess_bounds(1) a by simp
  also have "(2 :: int) ^ (excess n + 24) \<le> 2 ^ (excess m + 23)" by (rule power_increasing) (use a in simp_all)
  also have "\<dots> \<le> m" by (rule excess_bounds(2)) (use a in simp_all)
  finally show False using a by simp
qed

lemma div_below: "(a :: int) < c * d \<Longrightarrow> 0 < d \<Longrightarrow> a div d < c"
  by (smt (verit) minus_mod_eq_div_mult pos_mod_sign mult_less_cancel_right)

text \<open>The quotient kept has 24 digits, fewer only without an excess.\<close>

lemma kept_digits:
  assumes "0 \<le> p" "0 < q" "s = excess (p div q)"
  shows "p div (q * 2 ^ s) < 2 ^ 24" "0 < s \<Longrightarrow> 2 ^ 23 \<le> p div (q * 2 ^ s)" "0 \<le> p div (q * 2 ^ s)"
proof -
  have e: "p div (q * 2 ^ s) = (p div q) div 2 ^ s" using assms(2) by (simp add: zdiv_zmult2_eq)
  have n: "0 \<le> p div q" using assms(1,2) by (simp add: pos_imp_zdiv_nonneg_iff)
  have "p div q < 2 ^ 24 * 2 ^ s" using excess_bounds(1) [OF n] assms(3) by (simp add: power_add mult.commute)
  then show "p div (q * 2 ^ s) < 2 ^ 24" unfolding e by (rule div_below) simp
  show "2 ^ 23 \<le> p div (q * 2 ^ s)" if "0 < s"
  proof -
    have "2 ^ 23 * 2 ^ s \<le> p div q" using excess_bounds(2) [OF n] assms(3) that by (simp add: power_add mult.commute)
    then have "2 ^ 23 * 2 ^ s div 2 ^ s \<le> p div q div 2 ^ s" by (rule zdiv_mono1) simp
    then show ?thesis unfolding e by simp
  qed
  show "0 \<le> p div (q * 2 ^ s)" using n e by (simp add: pos_imp_zdiv_nonneg_iff)
qed

lemma round_half_even_range: "t \<le> round_half_even t r d" "round_half_even t r d \<le> t + 1"
  by (simp_all add: round_half_even_def)

lemma round_half_even_mono:
  assumes "0 < d" "0 \<le> p" "p \<le> p'"
  shows "round_half_even (p div d) (p mod d) d \<le> round_half_even (p' div d) (p' mod d) d"
proof (cases "p div d = p' div d")
  case True
  then have "p mod d \<le> p' mod d" using assms(3) by (simp add: minus_mult_div_eq_mod [symmetric])
  then show ?thesis using True by (auto simp: round_half_even_def)
next
  case False
  then have "p div d + 1 \<le> p' div d" using zdiv_mono1 [OF assms(3,1)] by simp
  then show ?thesis using round_half_even_range(2) [of "p div d" "p mod d" d] round_half_even_range(1) [of "p' div d" "p' mod d" d] by linarith
qed

lemma round_ratio_bounds:
  assumes "0 \<le> p" "0 < q"
  shows "0 \<le> round_ratio p q" "round_ratio p q \<le> inf_bits"
  using kept_digits(3) [OF assms refl] round_half_even_range(1)
  by (auto simp: round_ratio_def Let_def inf_bits_def intro!: add_nonneg_nonneg intro: order_trans)

text \<open>Rounding leaves representable values alone and is monotone.\<close>

lemma round_ratio_exact:
  assumes "0 \<le> k" "k < inf_bits" "0 < q"
  shows "round_ratio (mag_value k * q) q = k"
  using assms(1)
proof (cases rule: mag_bits_cases)
  case 1
  have "excess k = 0" by (rule excess_unique) (use 1 assms(1) in simp_all)
  then show ?thesis using 1 assms by (simp add: round_ratio_def round_half_even_def)
next
  case (2 s t)
  have "0 \<le> t * 2 ^ s" using 2(2) by simp
  moreover have "t * 2 ^ s < 2 ^ (s + 24)" using 2(3) by (simp add: power_add mult.commute)
  moreover have "2 ^ (s + 23) \<le> t * 2 ^ s" using 2(2) by (simp add: power_add mult.commute)
  ultimately have e: "excess (t * 2 ^ s) = s" by (rule excess_unique)
  have "t * 2 ^ s * q div (q * 2 ^ s) = t" "t * 2 ^ s * q mod (q * 2 ^ s) = 0" using assms(3) by (simp_all add: mult.assoc mult.commute [of "2 ^ s"])
  then show ?thesis using 2 e assms by (simp add: round_ratio_def round_half_even_def)
qed

lemma round_ratio_mono:
  assumes "0 \<le> p" "p \<le> p'" "0 < q"
  shows "round_ratio p q \<le> round_ratio p' q"
proof -
  let ?s = "excess (p div q)" and ?s' = "excess (p' div q)"
  have n: "0 \<le> p div q" using assms by (simp add: pos_imp_zdiv_nonneg_iff)
  have le: "?s \<le> ?s'" by (rule excess_mono [OF n zdiv_mono1]) (use assms in simp_all)
  have p': "0 \<le> p'" using assms by simp
  show ?thesis
  proof (cases "?s = ?s'")
    case True
    have "0 < q * 2 ^ ?s" using assms(3) by simp
    from round_half_even_mono [OF this assms(1,2)] True show ?thesis by (simp add: round_ratio_def Let_def)
  next
    case False
    then have s: "int ?s + 1 \<le> int ?s'" "0 < ?s'" using le by simp_all
    have "round_half_even (p div (q * 2 ^ ?s)) (p mod (q * 2 ^ ?s)) (q * 2 ^ ?s) \<le> 2 ^ 24"
      using kept_digits(1) [OF assms(1,3) refl] round_half_even_range(2) [of "p div (q * 2 ^ ?s)"] by (smt (verit))
    moreover have "2 ^ 23 \<le> round_half_even (p' div (q * 2 ^ ?s')) (p' mod (q * 2 ^ ?s')) (q * 2 ^ ?s')"
      using kept_digits(2) [OF p' assms(3) refl s(2)] round_half_even_range(1) by (rule order_trans)
    ultimately show ?thesis using s(1) by (simp add: round_ratio_def Let_def)
  qed
qed

lemma mag_value_mono:
  assumes "0 \<le> j" "j \<le> k"
  shows "mag_value j \<le> mag_value k"
proof -
  have "0 \<le> k" using assms by simp
  then show ?thesis
  proof (cases rule: mag_bits_cases)
    case 1
    note k = this
    show ?thesis using assms(1) by (cases rule: mag_bits_cases) (use k assms(2) in simp_all)
  next
    case (2 s' t')
    note k = this
    show ?thesis using assms(1)
    proof (cases rule: mag_bits_cases)
      case 1
      have "2 ^ 23 * 2 ^ 1 \<le> t' * 2 ^ s'" by (rule mult_mono) (use k power_increasing [of 1 s' "2 :: int"] in simp_all)
      then show ?thesis using 1 k by simp
    next
      case (2 s t)
      show ?thesis
      proof (cases "s = s'")
        case True
        then show ?thesis using 2 k assms(2) by simp
      next
        case False
        have "s < s'"
        proof (rule ccontr)
          assume "\<not> s < s'"
          then have "(int s' + 1) * 2 ^ 23 \<le> int s * 2 ^ 23" using False by simp
          then show False using 2 k assms(2) by simp
        qed
        have "t * 2 ^ s \<le> 2 ^ 23 * 2 ^ Suc s" using 2(3) by simp
        also have "\<dots> \<le> t' * 2 ^ s'" by (rule mult_mono) (use k \<open>s < s'\<close> power_increasing [of "Suc s" s' "2 :: int"] in simp_all)
        finally show ?thesis using 2 k by simp
      qed
    qed
  qed
qed

lemma mag_value_nonneg: "0 \<le> k \<Longrightarrow> 0 \<le> mag_value k"
  using mag_value_mono [of 0 k] by (simp add: mag_value_def)

lemma f32_mag_nonneg: "0 \<le> f32_mag x"
  by (simp add: f32_mag_def mag_value_nonneg f32_bits_bounds)

lemma f32_mag_inf: "f32_is_inf x \<Longrightarrow> f32_mag x \<noteq> 0"
  by (simp add: f32_is_inf_def f32_mag_def inf_bits_def mag_value_def)

text \<open>The result of a rounding is a magnitude below NaN.\<close>

lemma make_round:
  assumes "0 \<le> p" "0 < q"
  shows "\<not> f32_is_nan (f32_make s (round_ratio p q))" "f32_sign (f32_make s (round_ratio p q)) = s"
    "f32_bits (f32_make s (round_ratio p q)) = round_ratio p q"
proof -
  note b = round_ratio_bounds [OF assms]
  then have "round_ratio p q < 2 ^ 31" by (simp add: inf_bits_def)
  with b f32_make_parts [of "round_ratio p q" s] show "f32_sign (f32_make s (round_ratio p q)) = s"
    "f32_bits (f32_make s (round_ratio p q)) = round_ratio p q" "\<not> f32_is_nan (f32_make s (round_ratio p q))"
    by (simp_all add: f32_nan_bits)
qed

lemma make_zero [simp]: "f32_sign (f32_make s 0) = s" "f32_bits (f32_make s 0) = 0" "\<not> f32_is_nan (f32_make s 0)" "\<not> f32_is_inf (f32_make s 0)"
  by (simp_all add: f32_nan_bits f32_is_inf_def inf_bits_def)

lemma make_inf [simp]: "f32_sign (f32_make s inf_bits) = s" "f32_bits (f32_make s inf_bits) = inf_bits" "\<not> f32_is_nan (f32_make s inf_bits)"
  by (simp_all add: f32_nan_bits inf_bits_def)

subsection \<open>Sums and products without a NaN\<close>

lemma f32_add_nonneg:
  assumes "\<not> f32_is_nan a" "\<not> f32_is_nan b" "\<not> f32_sign a" "\<not> f32_sign b"
  shows "\<not> f32_is_nan (f32_add a b)" "\<not> f32_sign (f32_add a b)"
  using assms make_round [of "f32_mag a + f32_mag b" 1] f32_mag_nonneg [of a] f32_mag_nonneg [of b]
  by (auto simp: f32_add_def f32_val_def Let_def)

lemma f32_sub_finite: "f32_finite a \<Longrightarrow> f32_finite b \<Longrightarrow> \<not> f32_is_nan (f32_sub a b)"
  using make_round(1) [of "\<bar>f32_val a + f32_val (f32_neg b)\<bar>" 1]
  by (auto simp: f32_finite_iff f32_sub_def f32_add_def Let_def)

lemma f32_sub_swap_bits: "f32_bits (f32_sub a b) = f32_bits (f32_sub b a)"
proof (cases "f32_finite a \<and> f32_finite b")
  case True
  then have f: "\<not> f32_is_nan a" "\<not> f32_is_nan b" "\<not> f32_is_inf a" "\<not> f32_is_inf b" by (simp_all add: f32_finite_iff)
  have "\<bar>f32_val a - f32_val b\<bar> = \<bar>f32_val b - f32_val a\<bar>" by simp
  then show ?thesis using f make_round(3) [of "\<bar>f32_val a - f32_val b\<bar>" 1] by (simp add: f32_sub_def f32_add_def Let_def)
next
  case False
  then show ?thesis by (auto simp: f32_finite_iff f32_sub_def f32_add_def f32_is_inf_def f32_nan_bits)
qed

lemma f32_sub_self: "f32_finite x \<Longrightarrow> f32_sub x x = f32_make False 0"
  by (simp add: f32_finite_iff f32_sub_def f32_add_def Let_def)

lemma f32_square_cong: "f32_bits d = f32_bits e \<Longrightarrow> f32_mul d d = f32_mul e e"
  by (simp add: f32_mul_def f32_nan_bits f32_is_inf_def f32_mag_def Let_def)

lemma f32_square_nonneg:
  assumes "\<not> f32_is_nan d"
  shows "\<not> f32_is_nan (f32_mul d d)" "\<not> f32_sign (f32_mul d d)"
  using assms make_round [of "f32_mag d * f32_mag d" "2 ^ 149" False] f32_mag_inf [of d]
  by (simp_all add: f32_mul_def)

subsection \<open>Exact results\<close>

text \<open>A float that holds the integer \<open>n\<close>.\<close>

definition f32_holds :: "f32 \<Rightarrow> int \<Rightarrow> bool" where
  "f32_holds x n \<longleftrightarrow> f32_finite x \<and> f32_val x = n * 2 ^ 149"

lemma integer_bits:
  assumes "0 \<le> c" "c \<le> 2 ^ 24"
  shows "\<exists>k. 0 \<le> k \<and> k < inf_bits \<and> mag_value k = c * 2 ^ 149"
proof (cases "c = 0")
  case True
  then show ?thesis by (intro exI [of _ 0]) (simp add: mag_value_def inf_bits_def)
next
  case False
  let ?n = "c * 2 ^ 149" and ?s = "excess (c * 2 ^ 149)"
  have n: "0 \<le> ?n" "(1 :: int) * 2 ^ 149 \<le> ?n" using assms False by (simp_all only: mult_right_mono mult_nonneg_nonneg zero_le_power zero_le_numeral)
  have s: "0 < ?s"
  proof (rule ccontr)
    assume "\<not> 0 < ?s"
    then show False using excess_bounds(1) [OF n(1)] n(2) by simp
  qed
  have low: "2 ^ (?s + 23) \<le> ?n" by (rule excess_bounds(2) [OF n(1) s])
  also have "?n \<le> 2 ^ 173" using assms by simp
  finally have "?s + 23 \<le> 173" by (rule power_le_imp_le_exp [rotated]) simp
  then consider "?s \<le> 149" | "?s = 150" by linarith
  then have "2 ^ ?s dvd ?n"
  proof cases
    case 1
    then show ?thesis by (intro dvd_mult le_imp_power_dvd)
  next
    case 2
    then have "2 ^ 24 \<le> c" using low by simp
    then have "?n = 2 ^ 150 * 2 ^ 23" using assms(2) by simp
    then show ?thesis unfolding 2 by (rule dvdI)
  qed
  then have t: "?n div 2 ^ ?s * 2 ^ ?s = ?n" by simp
  have d: "?n div 2 ^ ?s < 2 ^ 24" "2 ^ 23 \<le> ?n div 2 ^ ?s" using kept_digits(1,2) [OF n(1), of 1 ?s] s by simp_all
  have "mag_value (int ?s * 2 ^ 23 + ?n div 2 ^ ?s) = ?n" using mag_value_split [OF d(2,1), of ?s] t by simp
  moreover have "int ?s * 2 ^ 23 \<le> 150 * 2 ^ 23" using \<open>?s + 23 \<le> 173\<close> by (intro mult_right_mono) simp_all
  then have "int ?s * 2 ^ 23 + ?n div 2 ^ ?s < inf_bits" using d(1) by (simp add: inf_bits_def)
  moreover have "0 \<le> int ?s * 2 ^ 23 + ?n div 2 ^ ?s" using d(2) by (simp add: add_nonneg_nonneg)
  ultimately show ?thesis by blast
qed

lemma make_round_integer:
  assumes "0 \<le> c" "c \<le> 2 ^ 24" "0 < q" "p = c * 2 ^ 149 * q"
  shows "f32_finite (f32_make s (round_ratio p q))" "f32_mag (f32_make s (round_ratio p q)) = c * 2 ^ 149"
proof -
  obtain k where k: "0 \<le> k" "k < inf_bits" "mag_value k = c * 2 ^ 149" using integer_bits [OF assms(1,2)] by blast
  then have "round_ratio p q = k" using round_ratio_exact [OF k(1,2) assms(3)] assms(4) by simp
  moreover have "k < 2 ^ 31" using k(2) by (simp add: inf_bits_def)
  ultimately show "f32_finite (f32_make s (round_ratio p q))" "f32_mag (f32_make s (round_ratio p q)) = c * 2 ^ 149"
    using k by (simp_all add: f32_finite_def f32_mag_def)
qed

lemma f32_holds_add:
  assumes "f32_holds a m" "f32_holds b n" "\<bar>m + n\<bar> \<le> 2 ^ 24"
  shows "f32_holds (f32_add a b) (m + n)"
proof -
  have f: "\<not> f32_is_nan a" "\<not> f32_is_nan b" "\<not> f32_is_inf a" "\<not> f32_is_inf b" "f32_val a + f32_val b = (m + n) * 2 ^ 149"
    using assms(1,2) by (simp_all add: f32_holds_def f32_finite_iff algebra_simps)
  show ?thesis
  proof (cases "m + n = 0")
    case True
    then show ?thesis using f by (simp add: f32_add_def f32_holds_def f32_finite_iff f32_val_def f32_mag_def mag_value_def)
  next
    case False
    let ?x = "f32_make (m + n < 0) (round_ratio (\<bar>m + n\<bar> * 2 ^ 149) 1)"
    have v: "\<bar>(m + n) * 2 ^ 149\<bar> = \<bar>m + n\<bar> * 2 ^ 149" "(m + n) * 2 ^ 149 < 0 \<longleftrightarrow> m + n < 0"
      by (simp_all only: abs_mult mult_less_0_iff) simp_all
    then have x: "f32_add a b = ?x" using f False by (simp add: f32_add_def Let_def)
    have "f32_finite (f32_add a b)" "f32_mag (f32_add a b) = \<bar>m + n\<bar> * 2 ^ 149" "f32_sign (f32_add a b) = (m + n < 0)"
      unfolding x using make_round_integer [of "\<bar>m + n\<bar>" 1] assms(3) make_round(2) [of "\<bar>m + n\<bar> * 2 ^ 149" 1] by simp_all
    then show ?thesis by (cases "m + n < 0") (simp_all add: f32_holds_def f32_val_def)
  qed
qed

lemma f32_holds_sub:
  assumes "f32_holds a m" "f32_holds b n" "\<bar>m - n\<bar> \<le> 2 ^ 24"
  shows "f32_holds (f32_sub a b) (m - n)"
  using f32_holds_add [of a m "f32_neg b" "- n"] assms by (simp add: f32_sub_def f32_holds_def)

lemma f32_holds_square:
  assumes "f32_holds a m" "m * m \<le> 2 ^ 24"
  shows "f32_holds (f32_mul a a) (m * m)"
proof -
  have f: "\<not> f32_is_nan a" "\<not> f32_is_inf a" using assms(1) by (simp_all add: f32_holds_def f32_finite_iff)
  have "f32_mag a = \<bar>f32_val a\<bar>" using f32_mag_nonneg [of a] by (simp add: f32_val_def)
  then have "f32_mag a * f32_mag a = m * m * 2 ^ 149 * 2 ^ 149" using assms(1) by (simp add: f32_holds_def abs_mult_self)
  from make_round_integer [OF _ assms(2) _ this, of False] make_round(2) [of "f32_mag a * f32_mag a" "2 ^ 149" False] f show ?thesis
    by (simp add: f32_mul_def f32_holds_def f32_val_def)
qed

end
