(* ===== verification/Framing.thy ===== *)
theory Framing
  imports QV_Prelude
begin

text \<open>
  The record framing shared by the shard log (\<open>wal.rs\<close>) and the hint log (\<open>hints.rs\<close>): a
  little-endian length, a checksum of the body, the body.  The two readers run the same scan,
  which stops at the first frame that is incomplete, fails its checksum or does not decode.

  \<open>frame_codec\<close> is the contract a body codec gives the scan; the lemmas proved in it say
  exactly which records a scan returns and where it stops.  The checksum function is a
  parameter throughout.
\<close>

section \<open>Slices, frames and the scan\<close>

definition bslice :: "'a list \<Rightarrow> nat \<Rightarrow> nat \<Rightarrow> 'a list" where
  "bslice xs p n = take n (drop p xs)"

definition frame :: "(bytes \<Rightarrow> u32) \<Rightarrow> bytes \<Rightarrow> bytes" where
  "frame crc body = u32_to_le (of_nat (4 + length body)) @ u32_to_le (crc body) @ body"

function scan_frames ::
  "(bytes \<Rightarrow> u32) \<Rightarrow> (bytes \<Rightarrow> 'r option) \<Rightarrow> bytes \<Rightarrow> nat \<Rightarrow> 'r list \<Rightarrow> nat \<Rightarrow> 'r list \<times> nat" where
  "scan_frames crc dec bs pos records good_end =
     (if pos + 4 \<le> length bs then
        let frame_len = unat (u32_from_le (bslice bs pos 4));
            frame_start = pos + 4;
            frame_end = frame_start + frame_len
        in if frame_len < 4 \<or> frame_end > length bs then (records, good_end)
           else
             let stored_crc = u32_from_le (bslice bs frame_start 4);
                 body = bslice bs (frame_start + 4) (frame_end - (frame_start + 4))
             in if crc body \<noteq> stored_crc then (records, good_end)
                else (case dec body of
                        Some r \<Rightarrow> scan_frames crc dec bs frame_end (records @ [r]) frame_end
                      | None \<Rightarrow> (records, good_end))
      else (records, good_end))"
  by pat_completeness auto
termination
  by (relation "measure (\<lambda>(crc, dec, bs, pos, records, good_end). length bs - pos)") auto

declare scan_frames.simps [simp del]

lemma length_frame [simp]: "length (frame crc body) = 8 + length body"
  by (simp add: frame_def)

lemma length_bslice: "p + n \<le> length xs \<Longrightarrow> length (bslice xs p n) = n"
  by (simp add: bslice_def)

lemma bslice_append_drop: "bslice xs p n @ drop (p + n) xs = drop p xs"
  by (simp add: bslice_def add.commute flip: drop_drop)

lemma unat_of_nat_u32: "n < 2 ^ 32 \<Longrightarrow> unat (of_nat n :: u32) = n"
  by (simp add: unat_of_nat)

lemma frame_parts:
  assumes "4 + length body < 2 ^ 32"
  shows "unat (u32_from_le (bslice (pre @ frame crc body @ rest) (length pre) 4)) = 4 + length body"
    and "u32_from_le (bslice (pre @ frame crc body @ rest) (length pre + 4) 4) = crc body"
    and "bslice (pre @ frame crc body @ rest) (length pre + 8) (length body) = body"
  using unat_of_nat_u32 [OF assms] by (simp_all add: bslice_def frame_def)

lemma frame_inject_length:
  assumes "frame crc b @ xs = frame crc b' @ ys" "4 + length b < 2 ^ 32" "4 + length b' < 2 ^ 32"
  shows "length b = length b'"
  using frame_parts(1) [of b "[]" crc xs] frame_parts(1) [of b' "[]" crc ys] assms by simp

section \<open>Logs of framed records\<close>

text \<open>A record whose frame the length field can describe.\<close>

definition fits :: "('r \<Rightarrow> bytes) \<Rightarrow> ('r \<Rightarrow> bool) \<Rightarrow> 'r \<Rightarrow> bool" where
  "fits enc ok r \<longleftrightarrow> ok r \<and> 4 + length (enc r) < 2 ^ 32"

definition log_of :: "(bytes \<Rightarrow> u32) \<Rightarrow> ('r \<Rightarrow> bytes) \<Rightarrow> 'r list \<Rightarrow> bytes" where
  "log_of crc enc rs = concat (map (\<lambda>r. frame crc (enc r)) rs)"

text \<open>No complete record stands at the front of these bytes.\<close>

definition no_frame ::
  "(bytes \<Rightarrow> u32) \<Rightarrow> ('r \<Rightarrow> bytes) \<Rightarrow> ('r \<Rightarrow> bool) \<Rightarrow> bytes \<Rightarrow> bool" where
  "no_frame crc enc ok bs \<longleftrightarrow> (\<forall>r rest. fits enc ok r \<longrightarrow> bs \<noteq> frame crc (enc r) @ rest)"

text \<open>The records that lie completely within the first \<open>k\<close> bytes of a log.\<close>

fun kept :: "('r \<Rightarrow> bytes) \<Rightarrow> nat \<Rightarrow> 'r list \<Rightarrow> 'r list" where
  "kept enc k [] = []"
| "kept enc k (r # rs) =
     (if 8 + length (enc r) \<le> k then r # kept enc (k - (8 + length (enc r))) rs else [])"

lemma log_of_simps [simp]:
  "log_of crc enc [] = []" "log_of crc enc (r # rs) = frame crc (enc r) @ log_of crc enc rs"
  "log_of crc enc (rs @ rs') = log_of crc enc rs @ log_of crc enc rs'"
  by (simp_all add: log_of_def)

lemma kept_prefix: "\<exists>rest. rs = kept enc k rs @ rest"
  by (induction rs arbitrary: k) auto

lemma kept_all: "length (log_of crc enc rs) \<le> k \<Longrightarrow> kept enc k rs = rs"
  by (induction rs arbitrary: k) auto

lemma kept_append:
  "length (log_of crc enc rs) \<le> k \<Longrightarrow>
   kept enc k (rs @ rs') = rs @ kept enc (k - length (log_of crc enc rs)) rs'"
  by (induction rs arbitrary: k) (auto simp: diff_diff_add)

lemma length_kept: "length (log_of crc enc (kept enc k rs)) \<le> k"
proof (induction rs arbitrary: k)
  case (Cons r rs)
  from Cons.IH [of "k - (8 + length (enc r))"] show ?case by auto
qed simp

lemma list_all_kept: "list_all P rs \<Longrightarrow> list_all P (kept enc k rs)"
  using kept_prefix [of rs enc k] by (metis list_all_append)

section \<open>The contract of a body codec\<close>

locale frame_codec =
  fixes crc :: "bytes \<Rightarrow> u32"
    and enc :: "'r \<Rightarrow> bytes"
    and dec :: "bytes \<Rightarrow> 'r option"
    and ok :: "'r \<Rightarrow> bool"
  assumes dec_iff: "dec b = Some r \<longleftrightarrow> ok r \<and> b = enc r"
begin

lemma scan_step:
  assumes "fits enc ok r"
  shows "scan_frames crc dec (pre @ frame crc (enc r) @ rest) (length pre) acc ge =
    scan_frames crc dec (pre @ frame crc (enc r) @ rest) (length (pre @ frame crc (enc r)))
      (acc @ [r]) (length (pre @ frame crc (enc r)))"
proof -
  have "dec (enc r) = Some r" using assms by (simp add: dec_iff fits_def)
  moreover have len: "4 + length (enc r) < 2 ^ 32" using assms by (simp add: fits_def)
  ultimately show ?thesis
    using frame_parts [OF len, of pre crc rest]
    by (subst scan_frames.simps) (simp add: Let_def add.assoc del: append_assoc)
qed

lemma scan_stop:
  assumes "no_frame crc enc ok (drop pos bs)"
  shows "scan_frames crc dec bs pos acc ge = (acc, ge)"
proof (rule ccontr)
  assume neq: "scan_frames crc dec bs pos acc ge \<noteq> (acc, ge)"
  define n where "n = unat (u32_from_le (bslice bs pos 4))"
  define body where "body = bslice bs (pos + 8) (n - 4)"
  have c: "pos + 4 \<le> length bs" "4 \<le> n" "pos + 4 + n \<le> length bs"
      "u32_from_le (bslice bs (pos + 4) 4) = crc body" and "\<exists>r. dec body = Some r"
    using neq unfolding n_def body_def
    by (subst (asm) scan_frames.simps,
        force simp: Let_def not_le numeral_eq_Suc split: if_splits option.splits)+
  then obtain r where r: "ok r" "body = enc r" by (auto simp: dec_iff)
  have lb: "length body = n - 4" using c by (simp add: body_def bslice_def)
  have "of_nat (4 + length body) = u32_from_le (bslice bs pos 4)"
    using c lb by (simp add: n_def)
  then have l: "u32_to_le (of_nat (4 + length body)) = bslice bs pos 4"
    using c by (simp add: u32_to_from_le bslice_def)
  have "u32_to_le (crc body) = bslice bs (pos + 4) 4"
    using c by (simp flip: c(4) add: u32_to_from_le bslice_def)
  then have "frame crc body = bslice bs pos 4 @ bslice bs (pos + 4) 4 @ bslice bs (pos + 8) (n - 4)"
    using l by (simp add: frame_def flip: body_def)
  then have "drop pos bs = frame crc (enc r) @ drop (pos + 4 + n) bs"
    using r(2) c(2) bslice_append_drop [of bs pos 4] bslice_append_drop [of bs "pos + 4" 4]
      bslice_append_drop [of bs "pos + 8" "n - 4"]
    by (simp add: add.commute [of 4] add.assoc)
  moreover have "fits enc ok r"
    using r lb c(2) unsigned_less [of "u32_from_le (bslice bs pos 4)", where 'a = nat]
    by (simp add: fits_def n_def)
  ultimately show False using assms by (auto simp: no_frame_def)
qed


lemma scan_log_gen:
  assumes "list_all (fits enc ok) rs" "no_frame crc enc ok torn"
  shows "scan_frames crc dec (pre @ log_of crc enc rs @ torn) (length pre) acc (length pre) =
    (acc @ rs, length (pre @ log_of crc enc rs))"
  using assms(1)
proof (induction rs arbitrary: pre acc)
  case Nil
  then show ?case using assms(2) by (simp add: scan_stop)
next
  case (Cons r rs)
  have "scan_frames crc dec (pre @ log_of crc enc (r # rs) @ torn) (length pre) acc (length pre) =
    scan_frames crc dec ((pre @ frame crc (enc r)) @ log_of crc enc rs @ torn) (length (pre @ frame crc (enc r)))
      (acc @ [r]) (length (pre @ frame crc (enc r)))"
    using Cons.prems scan_step [of r pre "log_of crc enc rs @ torn" acc "length pre"] by simp
  also have "\<dots> = ((acc @ [r]) @ rs, length ((pre @ frame crc (enc r)) @ log_of crc enc rs))"
    using Cons.prems by (intro Cons.IH) simp
  finally show ?case by simp
qed

lemma scan_log:
  "list_all (fits enc ok) rs \<Longrightarrow> no_frame crc enc ok torn \<Longrightarrow>
   scan_frames crc dec (log_of crc enc rs @ torn) 0 [] 0 = (rs, length (log_of crc enc rs))"
  using scan_log_gen [of rs torn "[]" "[]"] by simp

lemma no_frame_Nil [simp]: "no_frame crc enc ok []"
  by (metis append_is_Nil_conv length_frame length_0_conv no_frame_def add_is_0 zero_neq_numeral)

lemma no_frame_torn:
  assumes "fits enc ok r" "k < length (frame crc (enc r))"
  shows "no_frame crc enc ok (take k (frame crc (enc r)))"
  unfolding no_frame_def
proof (intro allI impI notI)
  fix r' rest
  assume r': "fits enc ok r'" and eq: "take k (frame crc (enc r)) = frame crc (enc r') @ rest"
  have "frame crc (enc r) @ [] = frame crc (enc r') @ (rest @ drop k (frame crc (enc r)))"
    using eq by (metis append.assoc append.right_neutral append_take_drop_id)
  from frame_inject_length [OF this] have "length (enc r) = length (enc r')"
    using assms(1) r' by (simp add: fits_def)
  then have "length (frame crc (enc r)) \<le> length (take k (frame crc (enc r)))"
    unfolding eq by simp
  with assms(2) show False by simp
qed

lemma no_frame_bad_crc:
  assumes "4 + length b < 2 ^ 32" "c \<noteq> crc b"
  shows "no_frame crc enc ok (u32_to_le (of_nat (4 + length b)) @ u32_to_le c @ b @ rest)"
  unfolding no_frame_def
proof (intro allI impI notI)
  fix r rest'
  let ?x = "u32_to_le (of_nat (4 + length b)) @ u32_to_le c @ b @ rest"
  assume r: "fits enc ok r" and eq: "?x = frame crc (enc r) @ rest'"
  have l: "4 + length (enc r) < 2 ^ 32" using r by (simp add: fits_def)
  have "take 4 ?x = u32_to_le (of_nat (4 + length (enc r)))" unfolding eq by (simp add: frame_def)
  then have "u32_to_le (of_nat (4 + length b)) = u32_to_le (of_nat (4 + length (enc r)))" by simp
  then have "(of_nat (4 + length b) :: u32) = of_nat (4 + length (enc r))"
    by (metis u32_from_to_le)
  then have len: "length b = length (enc r)"
    using unat_of_nat_u32 [OF assms(1)] unat_of_nat_u32 [OF l] by simp
  then show False using eq assms(2) by (auto simp: frame_def) (metis u32_from_to_le)
qed

text \<open>A torn frame whose declared end lies beyond the bytes that follow it.\<close>

lemma no_frame_long:
  assumes "fits enc ok r" "4 \<le> k" "k + length rest < length (frame crc (enc r))"
  shows "no_frame crc enc ok (take k (frame crc (enc r)) @ rest)"
  unfolding no_frame_def
proof (intro allI impI notI)
  fix r' rest'
  assume r': "fits enc ok r'" and eq: "take k (frame crc (enc r)) @ rest = frame crc (enc r') @ rest'"
  let ?n = "\<lambda>r. of_nat (4 + length (enc r)) :: u32"
  have "take 4 (take k (frame crc (enc r)) @ rest) = u32_to_le (?n r)"
    using assms(2) by (simp add: frame_def min_def)
  moreover have "take 4 (frame crc (enc r') @ rest') = u32_to_le (?n r')"
    by (simp add: frame_def)
  ultimately have "u32_to_le (?n r) = u32_to_le (?n r')" using eq by metis
  then have "?n r = ?n r'" by (metis u32_from_to_le)
  then have "unat (?n r) = unat (?n r')" by simp
  then have "length (enc r) = length (enc r')"
    using assms(1) r' unat_of_nat_u32 unfolding fits_def by (metis add_left_cancel)
  moreover have "length (frame crc (enc r')) \<le> length (take k (frame crc (enc r)) @ rest)"
    unfolding eq by simp
  ultimately show False using assms(3) by simp
qed

text \<open>Every byte string is a run of complete records followed by bytes where no record stands.\<close>

lemma log_decomposition: "\<exists>rs torn. bs = log_of crc enc rs @ torn \<and> list_all (fits enc ok) rs \<and> no_frame crc enc ok torn"
proof (induction bs rule: length_induct)
  case (1 bs)
  show ?case
  proof (cases "no_frame crc enc ok bs")
    case True
    then show ?thesis by (intro exI [of _ "[]"] exI [of _ bs]) simp
  next
    case False
    then obtain r rest where r: "fits enc ok r" and bs: "bs = frame crc (enc r) @ rest"
      by (auto simp: no_frame_def)
    then have "length rest < length bs" by simp
    with 1 obtain rs torn where "rest = log_of crc enc rs @ torn" "list_all (fits enc ok) rs" "no_frame crc enc ok torn" by blast
    then show ?thesis using r bs by (intro exI [of _ "r # rs"] exI [of _ torn]) simp
  qed
qed

text \<open>What a scan returns, for any bytes at all.\<close>

lemma scan_sound:
  assumes "scan_frames crc dec bs 0 [] 0 = (rs, n)"
  shows "list_all (fits enc ok) rs \<and> n = length (log_of crc enc rs) \<and> bs = log_of crc enc rs @ drop n bs \<and> no_frame crc enc ok (drop n bs)"
proof -
  obtain rs' torn where d: "bs = log_of crc enc rs' @ torn" "list_all (fits enc ok) rs'" "no_frame crc enc ok torn"
    using log_decomposition by blast
  then have "rs = rs'" "n = length (log_of crc enc rs')" using scan_log [of rs' torn] assms by auto
  with d show ?thesis by simp
qed

lemma take_log:
  "list_all (fits enc ok) rs \<Longrightarrow> \<exists>torn. take k (log_of crc enc rs) = log_of crc enc (kept enc k rs) @ torn \<and> no_frame crc enc ok torn"
proof (induction rs arbitrary: k)
  case Nil
  then show ?case by simp
next
  case (Cons r rs)
  then show ?case using no_frame_torn [of r k] by auto
qed

lemma scan_crashed:
  assumes "list_all (fits enc ok) rs"
  shows "scan_frames crc dec (take k (log_of crc enc rs)) 0 [] 0 = (kept enc k rs, length (log_of crc enc (kept enc k rs)))"
  using take_log [OF assms, of k] scan_log [OF list_all_kept [OF assms, of enc k]] by auto

end

end
