(* ===== verification/Vector_Index.thy ===== *)
theory Vector_Index
  imports Framing
begin

text \<open>
  The index layer of \<open>qv-hnsw/src/index.rs\<close>: the \<open>VectorIndex\<close> trait as a locale and the exact
  brute-force index, the reference the graph index is measured against.  The distance
  kernel \<open>Metric::distance\<close> is an argument: every result holds for any function of the
  metric and two vectors.

  An operation that indexes or slices a vector returns an \<open>option\<close>; \<open>None\<close> is the panic of
  an access out of range.
\<close>

section \<open>Metrics, errors, checked access\<close>

datatype metric = L2 | Cosine

datatype index_error = DimMismatch nat nat

type_synonym kernel = "metric \<Rightarrow> vec \<Rightarrow> vec \<Rightarrow> f32"

definition vget :: "'a list \<Rightarrow> nat \<Rightarrow> 'a option" where
  "vget xs i = (if i < length xs then Some (xs ! i) else None)"

definition vset :: "'a list \<Rightarrow> nat \<Rightarrow> 'a \<Rightarrow> 'a list option" where
  "vset xs i x = (if i < length xs then Some (xs[i := x]) else None)"

definition vslice :: "'a list \<Rightarrow> nat \<Rightarrow> nat \<Rightarrow> 'a list option" where
  "vslice xs p n = (if p + n \<le> length xs then Some (bslice xs p n) else None)"

text \<open>\<open>xs[p..p + n].copy_from_slice(ys)\<close> with \<open>n\<close> the length of the target range.\<close>

definition copy_from_slice :: "'a list \<Rightarrow> nat \<Rightarrow> nat \<Rightarrow> 'a list \<Rightarrow> 'a list option" where
  "copy_from_slice xs p n ys =
     (if p + n \<le> length xs \<and> length ys = n then Some (take p xs @ ys @ drop (p + n) xs) else None)"

text \<open>The comparator of scored results: score first, ties by id.\<close>

definition score_le :: "u64 \<times> f32 \<Rightarrow> u64 \<times> f32 \<Rightarrow> bool" where
  "score_le a b \<longleftrightarrow> (if f32_cmp_eq (snd a) (snd b) then fst a \<le> fst b else f32_cmp_le (snd a) (snd b))"

text \<open>A result list for a query against the points \<open>m\<close>: at most \<open>k\<close> distinct live ids, each with
  its true distance, nearest first unless the distance to one of the stored vectors \<open>S\<close> is NaN.\<close>

definition hits_ok ::
  "(vec \<Rightarrow> vec \<Rightarrow> f32) \<Rightarrow> (u64 \<rightharpoonup> vec) \<Rightarrow> vec set \<Rightarrow> vec \<Rightarrow> nat \<Rightarrow> (u64 \<times> f32) list \<Rightarrow> bool" where
  "hits_ok d m S q k hits \<longleftrightarrow>
     length hits \<le> k \<and> distinct (map fst hits) \<and>
     (\<forall>(i, s) \<in> set hits. \<exists>v. m i = Some v \<and> s = d q v) \<and>
     ((\<forall>v \<in> S. \<not> f32_is_nan (d q v)) \<longrightarrow> sorted_wrt (\<lambda>a b. f32_cmp_le (snd a) (snd b)) hits)"

section \<open>The trait\<close>

text \<open>
  \<open>inv\<close> is the representation invariant, \<open>points\<close> the abstract contents, \<open>slots\<close> the number of
  internal slots in use (an index may refuse to grow past \<open>2 ^ 32\<close>), \<open>stored\<close> the vectors it
  holds, live or not.
\<close>

locale vector_index =
  fixes inv :: "'i \<Rightarrow> bool"
    and points :: "'i \<Rightarrow> u64 \<rightharpoonup> vec"
    and dim :: "'i \<Rightarrow> nat"
    and len :: "'i \<Rightarrow> nat"
    and slots :: "'i \<Rightarrow> nat"
    and insert :: "u64 \<Rightarrow> vec \<Rightarrow> 'i \<Rightarrow> ((index_error + unit) \<times> 'i) option"
    and delete :: "u64 \<Rightarrow> 'i \<Rightarrow> (bool \<times> 'i) option"
    and get_vector :: "'i \<Rightarrow> u64 \<Rightarrow> vec option option"
    and search :: "'i \<Rightarrow> vec \<Rightarrow> nat \<Rightarrow> nat \<Rightarrow> (index_error + (u64 \<times> f32) list) option"
    and d :: "'i \<Rightarrow> vec \<Rightarrow> vec \<Rightarrow> f32"
    and stored :: "'i \<Rightarrow> vec set"
  assumes insert_mismatch:
      "inv x \<Longrightarrow> length v \<noteq> dim x \<Longrightarrow> insert i v x = Some (Inl (DimMismatch (dim x) (length v)), x)"
    and insert_ok:
      "inv x \<Longrightarrow> length v = dim x \<Longrightarrow> slots x < 2 ^ 32 \<Longrightarrow>
       \<exists>x'. insert i v x = Some (Inr (), x') \<and> inv x' \<and> points x' = (points x)(i \<mapsto> v) \<and>
         dim x' = dim x \<and> slots x' \<le> slots x + 1"
    and delete_ok:
      "inv x \<Longrightarrow>
       \<exists>x'. delete i x = Some (points x i \<noteq> None, x') \<and> inv x' \<and> points x' = (points x)(i := None) \<and>
         dim x' = dim x \<and> slots x' = slots x"
    and get_vector_ok: "inv x \<Longrightarrow> get_vector x i = Some (points x i)"
    and len_ok: "inv x \<Longrightarrow> len x = card (dom (points x))"
    and search_mismatch:
      "inv x \<Longrightarrow> length q \<noteq> dim x \<Longrightarrow> search x q k ef = Some (Inl (DimMismatch (dim x) (length q)))"
    and search_ok:
      "inv x \<Longrightarrow> length q = dim x \<Longrightarrow>
       \<exists>hits. search x q k ef = Some (Inr hits) \<and> hits_ok (d x) (points x) (stored x) q k hits"
begin

text \<open>What clients use: reading back, deleting, and the size, whatever the implementation.\<close>

lemma get_after_insert:
  assumes "inv x" "length v = dim x" "slots x < 2 ^ 32"
  shows "\<exists>x'. insert i v x = Some (Inr (), x') \<and> get_vector x' j = Some (if j = i then Some v else points x j)"
  using insert_ok [OF assms, of i] get_vector_ok by fastforce

lemma len_after_insert:
  assumes "inv x" "length v = dim x" "slots x < 2 ^ 32" "finite (dom (points x))"
  shows "\<exists>x'. insert i v x = Some (Inr (), x') \<and> len x' = (if points x i = None then len x + 1 else len x)"
proof -
  from insert_ok [OF assms(1-3), of i] obtain x' where
    x': "insert i v x = Some (Inr (), x')" "inv x'" "points x' = (points x)(i \<mapsto> v)" by blast
  have "dom (points x') = Set.insert i (dom (points x))" using x'(3) by auto
  then have "card (dom (points x')) = (if points x i = None then card (dom (points x)) + 1 else card (dom (points x)))"
    using assms(4) by (auto simp: card_insert_if domIff)
  with x' len_ok [OF assms(1)] len_ok [OF x'(2)] show ?thesis by auto
qed

lemma deleted_not_found:
  assumes "inv x" "delete i x = Some (b, x')" "length q = dim x" "search x' q k ef = Some (Inr hits)"
  shows "i \<notin> fst ` set hits"
proof -
  from delete_ok [OF assms(1), of i] assms(2) have x': "inv x'" "points x' = (points x)(i := None)" "dim x' = dim x"
    by auto
  from search_ok [OF x'(1), of q k ef] assms(3,4) x'(3) have "hits_ok (d x') (points x') (stored x') q k hits" by auto
  then show ?thesis using x'(2) by (fastforce simp: hits_ok_def)
qed

end

section \<open>The brute-force index\<close>

record brute =
  b_dim :: nat
  b_metric :: metric
  b_ids :: "u64 option list"
  b_vectors :: vec
  b_id_to_slot :: "u64 \<rightharpoonup> nat"
  b_free_slots :: "nat list"
  b_live :: nat

definition brute_new :: "nat \<Rightarrow> metric \<Rightarrow> brute option" where
  "brute_new dim m = (if dim > 0 then
     Some \<lparr>b_dim = dim, b_metric = m, b_ids = [], b_vectors = [], b_id_to_slot = Map.empty,
           b_free_slots = [], b_live = 0\<rparr> else None)"

definition brute_row :: "brute \<Rightarrow> nat \<Rightarrow> vec option" where
  "brute_row b slot = vslice (b_vectors b) (slot * b_dim b) (b_dim b)"

definition brute_insert :: "u64 \<Rightarrow> vec \<Rightarrow> brute \<Rightarrow> ((index_error + unit) \<times> brute) option" where
  "brute_insert i v b =
     (if length v \<noteq> b_dim b then Some (Inl (DimMismatch (b_dim b) (length v)), b)
      else case b_id_to_slot b i of
        Some slot \<Rightarrow>
          (case copy_from_slice (b_vectors b) (slot * b_dim b) (b_dim b) v of
             None \<Rightarrow> None
           | Some vs \<Rightarrow> Some (Inr (), b\<lparr>b_vectors := vs\<rparr>))
      | None \<Rightarrow>
          let placed =
            (if b_free_slots b \<noteq> [] then
               let s = last (b_free_slots b) in
               (case vset (b_ids b) s (Some i) of None \<Rightarrow> None | Some ids \<Rightarrow>
                case copy_from_slice (b_vectors b) (s * b_dim b) (b_dim b) v of None \<Rightarrow> None | Some vs \<Rightarrow>
                Some (s, b\<lparr>b_free_slots := butlast (b_free_slots b), b_ids := ids, b_vectors := vs\<rparr>))
             else
               Some (length (b_ids b), b\<lparr>b_ids := b_ids b @ [Some i], b_vectors := b_vectors b @ v\<rparr>))
          in case placed of None \<Rightarrow> None | Some (slot, b) \<Rightarrow>
             Some (Inr (), b\<lparr>b_id_to_slot := (b_id_to_slot b)(i \<mapsto> slot), b_live := b_live b + 1\<rparr>))"

text \<open>\<open>live -= 1\<close> underflows to a panic when \<open>live\<close> is 0.\<close>

definition brute_delete :: "u64 \<Rightarrow> brute \<Rightarrow> (bool \<times> brute) option" where
  "brute_delete i b =
     (case b_id_to_slot b i of
        Some slot \<Rightarrow>
          (case vset (b_ids b) slot None of None \<Rightarrow> None | Some ids \<Rightarrow>
           if b_live b = 0 then None else
           Some (True, b\<lparr>b_id_to_slot := (b_id_to_slot b)(i := None), b_ids := ids,
              b_free_slots := b_free_slots b @ [slot], b_live := b_live b - 1\<rparr>))
      | None \<Rightarrow> Some (False, b))"

definition brute_get_vector :: "brute \<Rightarrow> u64 \<Rightarrow> vec option option" where
  "brute_get_vector b i =
     (case b_id_to_slot b i of
        None \<Rightarrow> Some None
      | Some slot \<Rightarrow> map_option Some (brute_row b slot))"

text \<open>The scoring loop over \<open>ids.iter().enumerate()\<close>, from slot \<open>s\<close> on.\<close>

fun brute_score :: "kernel \<Rightarrow> brute \<Rightarrow> vec \<Rightarrow> nat \<Rightarrow> u64 option list \<Rightarrow> (u64 \<times> f32) list option" where
  "brute_score K b q s [] = Some []"
| "brute_score K b q s (None # ids) = brute_score K b q (s + 1) ids"
| "brute_score K b q s (Some i # ids) =
     (case brute_row b s of None \<Rightarrow> None | Some row \<Rightarrow>
      case brute_score K b q (s + 1) ids of None \<Rightarrow> None | Some rest \<Rightarrow>
      Some ((i, K (b_metric b) q row) # rest))"

definition brute_search ::
  "kernel \<Rightarrow> brute \<Rightarrow> vec \<Rightarrow> nat \<Rightarrow> nat \<Rightarrow> (index_error + (u64 \<times> f32) list) option" where
  "brute_search K b q k ef =
     (if length q \<noteq> b_dim b then Some (Inl (DimMismatch (b_dim b) (length q)))
      else if k = 0 \<or> b_live b = 0 then Some (Inr [])
      else map_option (\<lambda>scored. Inr (take k (sort_by score_le scored))) (brute_score K b q 0 (b_ids b)))"

section \<open>Its invariant and abstraction\<close>

definition brute_inv :: "brute \<Rightarrow> bool" where
  "brute_inv b \<longleftrightarrow>
     b_dim b > 0 \<and> length (b_vectors b) = length (b_ids b) * b_dim b \<and>
     (\<forall>i s. b_id_to_slot b i = Some s \<longleftrightarrow> s < length (b_ids b) \<and> b_ids b ! s = Some i) \<and>
     set (b_free_slots b) = {s. s < length (b_ids b) \<and> b_ids b ! s = None} \<and> distinct (b_free_slots b) \<and>
     b_live b = card (dom (b_id_to_slot b))"

definition brute_points :: "brute \<Rightarrow> u64 \<rightharpoonup> vec" where
  "brute_points b i = (case b_id_to_slot b i of None \<Rightarrow> None | Some s \<Rightarrow> brute_row b s)"

lemma bslice_splice_same:
  "p + n \<le> length xs \<Longrightarrow> length ys = n \<Longrightarrow> bslice (take p xs @ ys @ drop (p + n) xs) p n = ys"
  by (simp add: bslice_def)

lemma bslice_splice_other:
  assumes "p + n \<le> length xs" "length ys = n" "q + m \<le> p \<or> p + n \<le> q"
  shows "bslice (take p xs @ ys @ drop (p + n) xs) q m = bslice xs q m"
proof -
  from assms(3) consider "q + m \<le> p" | "p + n \<le> q" by blast
  then show ?thesis
  proof cases
    case 1
    then have "min p q = q" "min m (p - q) = m" by simp_all
    with 1 show ?thesis using assms by (simp add: bslice_def drop_take min.absorb1)
  next
    case 2
    then have "drop q (take p xs @ ys @ drop (p + n) xs) = drop q xs"
      using assms by simp
    then show ?thesis by (simp add: bslice_def)
  qed
qed

lemma block_disjoint: "t \<noteq> s \<Longrightarrow> t * d + d \<le> s * d \<or> s * d + d \<le> t * (d::nat)"
proof -
  assume "t \<noteq> s"
  then consider "Suc t \<le> s" | "Suc s \<le> t" by linarith
  then show ?thesis
  proof cases
    case 1
    then have "Suc t * d \<le> s * d" by (rule mult_le_mono1)
    then show ?thesis by simp
  next
    case 2
    then have "Suc s * d \<le> t * d" by (rule mult_le_mono1)
    then show ?thesis by simp
  qed
qed

lemma block_in: "s < n \<Longrightarrow> s * d + d \<le> n * (d::nat)"
  using mult_le_mono1 [of "Suc s" n d] by simp

lemma brute_row_ok: "brute_inv b \<Longrightarrow> s < length (b_ids b) \<Longrightarrow>
    brute_row b s = Some (bslice (b_vectors b) (s * b_dim b) (b_dim b))"
  using block_in [of s "length (b_ids b)" "b_dim b"]
  by (simp add: brute_row_def vslice_def brute_inv_def)

lemma brute_slot: "brute_inv b \<Longrightarrow> b_id_to_slot b i = Some s \<longleftrightarrow> s < length (b_ids b) \<and> b_ids b ! s = Some i"
  by (simp add: brute_inv_def)

lemma dom_brute_points: "brute_inv b \<Longrightarrow> dom (brute_points b) = dom (b_id_to_slot b)"
  by (auto simp: brute_points_def brute_row_ok brute_slot split: option.splits)

text \<open>Overwriting the row of a slot in use.\<close>

lemma brute_overwrite:
  assumes "brute_inv b" "s < length (b_ids b)" "length v = b_dim b"
  shows "\<exists>vs. copy_from_slice (b_vectors b) (s * b_dim b) (b_dim b) v = Some vs \<and>
    length vs = length (b_vectors b) \<and>
    (\<forall>t < length (b_ids b). bslice vs (t * b_dim b) (b_dim b) =
       (if t = s then v else bslice (b_vectors b) (t * b_dim b) (b_dim b)))"
proof -
  let ?d = "b_dim b" and ?xs = "b_vectors b"
  have in_: "s * ?d + ?d \<le> length ?xs"
    using block_in [OF assms(2)] assms(1) by (simp add: brute_inv_def)
  let ?vs = "take (s * ?d) ?xs @ v @ drop (s * ?d + ?d) ?xs"
  have "bslice ?vs (t * ?d) ?d = (if t = s then v else bslice ?xs (t * ?d) ?d)" for t
    using bslice_splice_same [OF in_ assms(3)] bslice_splice_other [OF in_ assms(3)] block_disjoint [of t s ?d]
    by auto
  moreover have "copy_from_slice ?xs (s * ?d) ?d v = Some ?vs"
    using in_ assms(3) by (simp add: copy_from_slice_def)
  moreover have "length ?vs = length ?xs" using in_ assms(3) by simp
  ultimately show ?thesis by blast
qed

lemma brute_insert_mismatch:
  "length v \<noteq> b_dim b \<Longrightarrow> brute_insert i v b = Some (Inl (DimMismatch (b_dim b) (length v)), b)"
  by (simp add: brute_insert_def)

lemma brute_insert_replace:
  assumes "brute_inv b" "length v = b_dim b" "b_id_to_slot b i = Some s"
  shows "\<exists>b'. brute_insert i v b = Some (Inr (), b') \<and> brute_inv b' \<and>
    brute_points b' = (brute_points b)(i \<mapsto> v) \<and> b_dim b' = b_dim b \<and> length (b_ids b') = length (b_ids b) \<and> b_metric b' = b_metric b"
proof -
  have s: "s < length (b_ids b)" "b_ids b ! s = Some i" using assms(1,3) by (simp_all add: brute_slot)
  from brute_overwrite [OF assms(1) s(1) assms(2)] obtain vs where
    vs: "copy_from_slice (b_vectors b) (s * b_dim b) (b_dim b) v = Some vs" "length vs = length (b_vectors b)"
    "\<And>t. t < length (b_ids b) \<Longrightarrow> bslice vs (t * b_dim b) (b_dim b) =
       (if t = s then v else bslice (b_vectors b) (t * b_dim b) (b_dim b))" by blast
  let ?b' = "b\<lparr>b_vectors := vs\<rparr>"
  have inv: "brute_inv ?b'" using assms(1) vs(2) by (simp add: brute_inv_def)
  have row: "brute_row ?b' t = (if t = s then Some v else brute_row b t)" if "t < length (b_ids b)" for t
    using brute_row_ok [OF inv] brute_row_ok [OF assms(1)] vs(3) that by simp
  have inj: "t = s \<longleftrightarrow> j = i" if "b_id_to_slot b j = Some t" for j t
    using that s assms(3) brute_slot [OF assms(1)] by (metis option.inject)
  have "brute_points ?b' j = ((brute_points b)(i \<mapsto> v)) j" for j
  proof (cases "b_id_to_slot b j")
    case None
    then show ?thesis using assms(3) by (auto simp: brute_points_def)
  next
    case (Some t)
    then have "t < length (b_ids b)" using brute_slot [OF assms(1)] by blast
    with Some show ?thesis using row [of t] inj [OF Some] by (simp add: brute_points_def)
  qed
  then have "brute_points ?b' = (brute_points b)(i \<mapsto> v)" by blast
  with vs(1) inv assms show ?thesis by (simp add: brute_insert_def)
qed

text \<open>A fresh id takes slot \<open>s\<close>: the last free one or a new one at the end.\<close>

lemma brute_place:
  assumes inv: "brute_inv b" and i: "b_id_to_slot b i = None"
    and ids: "length ids' \<ge> length (b_ids b)" "s < length ids'"
      "\<And>t. t < length ids' \<Longrightarrow> ids' ! t = (if t = s then Some i else b_ids b ! t)"
      "\<And>t. t < length ids' \<Longrightarrow> t \<noteq> s \<Longrightarrow> t < length (b_ids b)"
      "s < length (b_ids b) \<Longrightarrow> b_ids b ! s = None"
    and vs: "length vs = length ids' * b_dim b"
      "\<And>t. t < length ids' \<Longrightarrow> bslice vs (t * b_dim b) (b_dim b) =
         (if t = s then v else bslice (b_vectors b) (t * b_dim b) (b_dim b))"
    and fr: "set fr = {t. t < length ids' \<and> ids' ! t = None}" "distinct fr"
    and b': "b' = b\<lparr>b_ids := ids', b_vectors := vs, b_free_slots := fr,
               b_id_to_slot := (b_id_to_slot b)(i \<mapsto> s), b_live := b_live b + 1\<rparr>"
  shows "brute_inv b' \<and> brute_points b' = (brute_points b)(i \<mapsto> v)"
proof -
  note slot = brute_slot [OF inv]
  have not_i: "b_ids b ! t \<noteq> Some i" if "t < length (b_ids b)" for t
    using i slot that by (metis option.distinct(1))
  have maps: "b_id_to_slot b' j = Some t \<longleftrightarrow> t < length ids' \<and> ids' ! t = Some j" for j t
  proof (cases "t = s")
    case True
    then show ?thesis using ids slot not_i b' by (cases "j = i") force+
  next
    case False
    then show ?thesis using ids(1,3,4) slot [of j t] not_i [of t] b' by (cases "j = i") auto
  qed
  have "b_live b' = card (dom (b_id_to_slot b'))"
    using inv i b' by (simp add: brute_inv_def card_insert_if domIff)
  with maps have inv': "brute_inv b'"
    using inv vs(1) fr b' by (simp add: brute_inv_def)
  have row: "brute_row b' t = (if t = s then Some v else brute_row b t)" if "t < length ids'" for t
    using brute_row_ok [OF inv'] brute_row_ok [OF inv] vs(2) that ids(4) b' by auto
  have "brute_points b' j = ((brute_points b)(i \<mapsto> v)) j" for j
  proof (cases "j = i")
    case True
    then show ?thesis using row ids(2) b' by (simp add: brute_points_def)
  next
    case False
    have "t < length ids' \<and> t \<noteq> s" if "b_id_to_slot b j = Some t" for t
      using that slot ids(1,5) by force
    with False row b' show ?thesis by (auto simp: brute_points_def split: option.splits)
  qed
  with inv' show ?thesis by blast
qed

lemma brute_insert_fresh:
  assumes "brute_inv b" "length v = b_dim b" "b_id_to_slot b i = None"
  shows "\<exists>b'. brute_insert i v b = Some (Inr (), b') \<and> brute_inv b' \<and>
    brute_points b' = (brute_points b)(i \<mapsto> v) \<and> b_dim b' = b_dim b \<and> b_metric b' = b_metric b \<and>
    length (b_ids b') \<le> length (b_ids b) + 1"
proof (cases "b_free_slots b = []")
  case True
  let ?b' = "b\<lparr>b_ids := b_ids b @ [Some i], b_vectors := b_vectors b @ v, b_free_slots := [],
      b_id_to_slot := (b_id_to_slot b)(i \<mapsto> length (b_ids b)), b_live := b_live b + 1\<rparr>"
  have lv: "length (b_vectors b) = length (b_ids b) * b_dim b" using assms(1) by (simp add: brute_inv_def)
  have sl: "bslice (b_vectors b @ v) (t * b_dim b) (b_dim b) =
      (if t = length (b_ids b) then v else bslice (b_vectors b) (t * b_dim b) (b_dim b))"
    if "t < length (b_ids b @ [Some i])" for t
    using that lv assms(2) block_in [of t "length (b_ids b)" "b_dim b"] by (auto simp: bslice_def)
  have none: "b_ids b ! t \<noteq> None" if "t < length (b_ids b)" for t
    using that True assms(1) by (auto simp: brute_inv_def)
  have "brute_inv ?b' \<and> brute_points ?b' = (brute_points b)(i \<mapsto> v)"
    by (rule brute_place [OF assms(1,3) _ _ _ _ _ _ sl])
      (use none lv assms(2) in \<open>auto simp: nth_append less_Suc_eq\<close>)
  moreover have "brute_insert i v b = Some (Inr (), ?b')"
    using True assms(2,3) by (simp add: brute_insert_def)
  ultimately show ?thesis by simp
next
  case False
  let ?s = "last (b_free_slots b)"
  have fr: "set (b_free_slots b) = {t. t < length (b_ids b) \<and> b_ids b ! t = None}" "distinct (b_free_slots b)"
    using assms(1) by (simp_all add: brute_inv_def)
  have s: "?s < length (b_ids b)" "b_ids b ! ?s = None" using fr(1) last_in_set [OF False] by auto
  have "b_free_slots b = butlast (b_free_slots b) @ [?s]" using False by simp
  with fr have fr': "set (butlast (b_free_slots b)) = {t. t < length (b_ids b) \<and> b_ids b ! t = None} - {?s}"
      "distinct (butlast (b_free_slots b))"
    by (metis Diff_insert_absorb distinct_append not_distinct_conv_prefix rotate1.simps(2) set_rotate1 list.simps(15) append_butlast_last_id,
        metis distinct_butlast)
  from brute_overwrite [OF assms(1) s(1) assms(2)] obtain vs where
    vs: "copy_from_slice (b_vectors b) (?s * b_dim b) (b_dim b) v = Some vs" "length vs = length (b_vectors b)"
    "\<And>t. t < length (b_ids b) \<Longrightarrow> bslice vs (t * b_dim b) (b_dim b) =
       (if t = ?s then v else bslice (b_vectors b) (t * b_dim b) (b_dim b))" by blast
  let ?b' = "b\<lparr>b_ids := (b_ids b)[?s := Some i], b_vectors := vs, b_free_slots := butlast (b_free_slots b),
      b_id_to_slot := (b_id_to_slot b)(i \<mapsto> ?s), b_live := b_live b + 1\<rparr>"
  have "length (b_vectors b) = length (b_ids b) * b_dim b" using assms(1) by (simp add: brute_inv_def)
  then have "brute_inv ?b' \<and> brute_points ?b' = (brute_points b)(i \<mapsto> v)"
    by (intro brute_place [OF assms(1,3), where s = ?s]) (use s fr' vs in \<open>auto simp: nth_list_update\<close>)
  moreover have "brute_insert i v b = Some (Inr (), ?b')"
    using False assms(2,3) vs(1) s by (simp add: brute_insert_def vset_def Let_def)
  ultimately show ?thesis by simp
qed

lemma brute_insert_ok:
  assumes "brute_inv b" "length v = b_dim b"
  shows "\<exists>b'. brute_insert i v b = Some (Inr (), b') \<and> brute_inv b' \<and>
    brute_points b' = (brute_points b)(i \<mapsto> v) \<and> b_dim b' = b_dim b \<and> b_metric b' = b_metric b \<and>
    length (b_ids b') \<le> length (b_ids b) + 1"
proof (cases "b_id_to_slot b i")
  case None
  then show ?thesis using brute_insert_fresh [OF assms] by blast
next
  case (Some s)
  then show ?thesis using brute_insert_replace [OF assms Some] by force
qed

lemma brute_delete_ok:
  assumes "brute_inv b"
  shows "\<exists>b'. brute_delete i b = Some (brute_points b i \<noteq> None, b') \<and> brute_inv b' \<and>
    brute_points b' = (brute_points b)(i := None) \<and> b_dim b' = b_dim b \<and> b_metric b' = b_metric b \<and>
    length (b_ids b') = length (b_ids b)"
proof (cases "b_id_to_slot b i")
  case None
  then have "brute_points b i = None" by (simp add: brute_points_def)
  then have "(brute_points b)(i := None) = brute_points b" by auto
  with None assms \<open>brute_points b i = None\<close> show ?thesis by (simp add: brute_delete_def)
next
  case (Some s)
  note slot = brute_slot [OF assms]
  have s: "s < length (b_ids b)" "b_ids b ! s = Some i" using slot Some by blast+
  let ?b' = "b\<lparr>b_id_to_slot := (b_id_to_slot b)(i := None), b_ids := (b_ids b)[s := None],
      b_free_slots := b_free_slots b @ [s], b_live := b_live b - 1\<rparr>"
  have i: "i \<in> dom (b_id_to_slot b)" using Some by blast
  have c: "b_live b = card (dom (b_id_to_slot b))" using assms by (simp add: brute_inv_def)
  then have live: "b_live b \<noteq> 0" using i by (auto simp: card_eq_0_iff)
  have fr: "set (b_free_slots b) = {t. t < length (b_ids b) \<and> b_ids b ! t = None}" "distinct (b_free_slots b)"
    "b_dim b > 0" "length (b_vectors b) = length (b_ids b) * b_dim b"
    using assms by (simp_all add: brute_inv_def)
  have maps: "b_id_to_slot ?b' j = Some t \<longleftrightarrow> t < length (b_ids ?b') \<and> b_ids ?b' ! t = Some j" for j t
    using slot [of j t] s by (cases "j = i"; cases "t = s") (use slot Some in \<open>force+\<close>)
  have "dom (b_id_to_slot ?b') = dom (b_id_to_slot b) - {i}" by auto
  then have "b_live ?b' = card (dom (b_id_to_slot ?b'))" using c i by simp
  moreover have "set (b_free_slots ?b') = {t. t < length (b_ids ?b') \<and> b_ids ?b' ! t = None}"
    using fr(1) s by (auto simp: nth_list_update)
  moreover have "distinct (b_free_slots ?b')" using fr(1,2) s by auto
  ultimately have inv: "brute_inv ?b'" using maps fr(3,4) by (simp add: brute_inv_def)
  have "brute_points ?b' = (brute_points b)(i := None)"
    by (auto simp: brute_points_def brute_row_def fun_eq_iff split: option.splits)
  moreover have "brute_points b i \<noteq> None" using Some s brute_row_ok [OF assms] by (simp add: brute_points_def)
  ultimately show ?thesis using Some s live inv by (simp add: brute_delete_def vset_def)
qed

text \<open>The scored list before sorting.\<close>

definition live_ids :: "u64 option list \<Rightarrow> u64 list" where
  "live_ids ids = map the (filter (\<lambda>x. x \<noteq> None) ids)"

definition scored :: "kernel \<Rightarrow> brute \<Rightarrow> vec \<Rightarrow> u64 option list \<Rightarrow> (u64 \<times> f32) list" where
  "scored K b q ids = map (\<lambda>i. (i, K (b_metric b) q (the (brute_points b i)))) (live_ids ids)"

lemma brute_score_ok:
  assumes "brute_inv b" "ids = drop s (b_ids b)"
  shows "brute_score K b q s ids = Some (scored K b q ids)"
  using assms(2)
proof (induction ids arbitrary: s)
  case Nil
  then show ?case by (simp add: scored_def live_ids_def)
next
  case (Cons x ids)
  then have s: "s < length (b_ids b)" and x: "x = b_ids b ! s" and r: "ids = drop (s + 1) (b_ids b)"
    by (metis length_drop list.discI not_less drop_all, metis Cons_nth_drop_Suc drop_all leI list.inject list.discI,
        metis Cons_nth_drop_Suc Suc_eq_plus1 drop_all leI list.inject list.discI)
  show ?case
  proof (cases x)
    case None
    then show ?thesis using Cons.IH [OF r] by (simp add: scored_def live_ids_def)
  next
    case (Some i)
    then have "b_id_to_slot b i = Some s" using brute_slot [OF assms(1)] s x by metis
    then have "brute_row b s = Some (the (brute_points b i))"
      using brute_row_ok [OF assms(1) s] by (simp add: brute_points_def)
    with Some show ?thesis using Cons.IH [OF r] by (simp add: scored_def live_ids_def)
  qed
qed

lemma distinct_live_ids:
  "(\<And>s t i. s < length ids \<Longrightarrow> t < length ids \<Longrightarrow> ids ! s = Some i \<Longrightarrow> ids ! t = Some i \<Longrightarrow> s = t) \<Longrightarrow>
   distinct (live_ids ids)"
proof (induction ids)
  case Nil
  then show ?case by (simp add: live_ids_def)
next
  case (Cons x ids)
  have "distinct (live_ids ids)"
    by (rule Cons.IH) (use Cons.prems [of "Suc _" "Suc _"] in force)
  moreover have "i \<notin> set (live_ids ids)" if "x = Some i" for i
  proof
    assume "i \<in> set (live_ids ids)"
    then obtain t where "t < length ids" "ids ! t = Some i"
      by (auto simp: live_ids_def in_set_conv_nth)
    then show False using Cons.prems [of 0 "Suc t" i] that by simp
  qed
  ultimately show ?case by (cases x) (auto simp: live_ids_def)
qed

lemma live_ids_brute:
  assumes "brute_inv b"
  shows "distinct (live_ids (b_ids b))" "set (live_ids (b_ids b)) = dom (brute_points b)"
proof -
  show "distinct (live_ids (b_ids b))"
    by (rule distinct_live_ids) (metis brute_slot [OF assms] option.inject)
  have "i \<in> set (live_ids (b_ids b)) \<longleftrightarrow> (\<exists>s. b_id_to_slot b i = Some s)" for i
    using brute_slot [OF assms] by (auto simp: live_ids_def in_set_conv_nth image_iff)
  then show "set (live_ids (b_ids b)) = dom (brute_points b)"
    using dom_brute_points [OF assms] by auto
qed

text \<open>Without NaN scores the comparator is a linear preorder.\<close>

lemma score_le_total:
  assumes "\<forall>(i, s) \<in> A. \<not> f32_is_nan s"
  shows "total_preorder_on A score_le"
proof -
  have le: "score_le a b \<longleftrightarrow> f32_key (snd a) < f32_key (snd b) \<or> f32_key (snd a) = f32_key (snd b) \<and> fst a \<le> fst b"
    if "a \<in> A" "b \<in> A" for a b
    using that assms by (auto simp: score_le_def f32_cmp_eq_def f32_cmp_le_def)
  show ?thesis unfolding total_preorder_on_def by (auto simp: le)
qed

lemma score_le_cmp: "score_le a b \<Longrightarrow> f32_cmp_le (snd a) (snd b)"
  by (auto simp: score_le_def f32_cmp_eq_def split: if_splits)

lemma brute_search_hits:
  assumes "brute_inv b" "length q = b_dim b"
  shows "brute_search K b q k ef = Some (Inr (take k (sort_by score_le (scored K b q (b_ids b)))))"
proof (cases "b_live b = 0")
  case True
  then have "dom (brute_points b) = {}" using assms(1) dom_brute_points [OF assms(1)] by (simp add: brute_inv_def)
  then have "scored K b q (b_ids b) = []" using live_ids_brute(2) [OF assms(1)] by (simp add: scored_def)
  then show ?thesis using assms(2) True by (simp add: brute_search_def sort_by_def)
next
  case False
  then show ?thesis using assms brute_score_ok [OF assms(1), of "b_ids b" 0 K q]
    by (simp add: brute_search_def)
qed

lemma set_scored:
  "brute_inv b \<Longrightarrow> (i, s) \<in> set (scored K b q (b_ids b)) \<longleftrightarrow> (\<exists>v. brute_points b i = Some v \<and> s = K (b_metric b) q v)"
  using live_ids_brute(2) [of b] by (auto simp: scored_def image_iff dom_def)

lemma fst_scored: "map fst (scored K b q ids) = live_ids ids"
  by (simp add: scored_def comp_def)

lemma sorted_scored:
  assumes "brute_inv b" "\<forall>v \<in> ran (brute_points b). \<not> f32_is_nan (K (b_metric b) q v)"
  shows "sorted_wrt score_le (sort_by score_le (scored K b q (b_ids b)))"
proof (rule sorted_sort_by, rule score_le_total)
  show "\<forall>(i, s) \<in> set (scored K b q (b_ids b)). \<not> f32_is_nan s"
    using bspec [OF assms(2)] ranI [of "brute_points b"] by (auto simp: set_scored [OF assms(1)])
qed

lemma brute_hits_ok:
  assumes "brute_inv b"
  shows "hits_ok (K (b_metric b)) (brute_points b) (ran (brute_points b)) q k (take k (sort_by score_le (scored K b q (b_ids b))))"
proof -
  let ?s = "sort_by score_le (scored K b q (b_ids b))"
  have "distinct (map fst ?s)"
    unfolding distinct_map_sort_by fst_scored by (rule live_ids_brute [OF assms])
  then have "distinct (map fst (take k ?s))" by (metis distinct_take take_map)
  moreover have "\<exists>v. brute_points b i = Some v \<and> s = K (b_metric b) q v" if "(i, s) \<in> set (take k ?s)" for i s
    using in_set_takeD [OF that] set_scored [OF assms] by simp
  moreover have "sorted_wrt (\<lambda>a b. f32_cmp_le (snd a) (snd b)) (take k ?s)"
    if "\<forall>v \<in> ran (brute_points b). \<not> f32_is_nan (K (b_metric b) q v)"
    using sorted_wrt_take [OF sorted_scored [where K = K and q = q, OF assms that]]
    by (rule sorted_wrt_mono_rel [rotated]) (rule score_le_cmp)
  ultimately show ?thesis by (auto simp: hits_ok_def)
qed

interpretation brute_index: vector_index brute_inv brute_points b_dim b_live "\<lambda>b. length (b_ids b)"
  brute_insert brute_delete brute_get_vector "brute_search K" "\<lambda>b. K (b_metric b)"
  "\<lambda>b. ran (brute_points b)" for K
proof unfold_locales
  fix x :: brute and v q :: vec and i :: u64 and k ef :: nat
  assume inv: "brute_inv x"
  show "brute_get_vector x i = Some (brute_points x i)"
  proof (cases "b_id_to_slot x i")
    case (Some s)
    then have "s < length (b_ids x)" using brute_slot [OF inv] by blast
    with Some show ?thesis using brute_row_ok [OF inv] by (simp add: brute_get_vector_def brute_points_def)
  qed (simp add: brute_get_vector_def brute_points_def)
  show "b_live x = card (dom (brute_points x))"
    using inv dom_brute_points [OF inv] by (simp add: brute_inv_def)
  show "\<exists>x'. brute_delete i x = Some (brute_points x i \<noteq> None, x') \<and> brute_inv x' \<and>
      brute_points x' = (brute_points x)(i := None) \<and> b_dim x' = b_dim x \<and> length (b_ids x') = length (b_ids x)"
    using brute_delete_ok [OF inv, of i] by blast
  show "brute_insert i v x = Some (Inl (DimMismatch (b_dim x) (length v)), x)" if "length v \<noteq> b_dim x"
    using that by (rule brute_insert_mismatch)
  show "\<exists>x'. brute_insert i v x = Some (Inr (), x') \<and> brute_inv x' \<and>
      brute_points x' = (brute_points x)(i \<mapsto> v) \<and> b_dim x' = b_dim x \<and> length (b_ids x') \<le> length (b_ids x) + 1"
    if "length v = b_dim x" using brute_insert_ok [OF inv that, of i] by blast
  show "brute_search K x q k ef = Some (Inl (DimMismatch (b_dim x) (length q)))" if "length q \<noteq> b_dim x"
    using that by (simp add: brute_search_def)
  show "\<exists>hits. brute_search K x q k ef = Some (Inr hits) \<and> hits_ok (K (b_metric x)) (brute_points x) (ran (brute_points x)) q k hits"
    if "length q = b_dim x" using brute_search_hits [OF inv that] brute_hits_ok [OF inv] by blast
qed

section \<open>Properties\<close>

text \<open>The brute-force index is exact: for a query of the right dimension it returns
  \<open>min k n\<close> of the \<open>n\<close> live points with their distances, and (when no distance is NaN) every
  returned point is at least as near as every point left out, ties going to the smaller id.\<close>

theorem brute_search_exact:
  assumes "brute_inv b" "length q = b_dim b"
    and "\<forall>v \<in> ran (brute_points b). \<not> f32_is_nan (K (b_metric b) q v)"
  shows "\<exists>hits. brute_search K b q k ef = Some (Inr hits) \<and>
    length hits = min k (card (dom (brute_points b))) \<and>
    hits_ok (K (b_metric b)) (brute_points b) (ran (brute_points b)) q k hits \<and>
    (\<forall>h \<in> set hits. \<forall>j v. brute_points b j = Some v \<longrightarrow> j \<notin> fst ` set hits \<longrightarrow>
       score_le h (j, K (b_metric b) q v))"
proof -
  let ?s = "sort_by score_le (scored K b q (b_ids b))" and ?d = "K (b_metric b) q"
  have "length (live_ids (b_ids b)) = card (dom (brute_points b))"
    using live_ids_brute [OF assms(1)] distinct_card by metis
  then have l: "length (take k ?s) = min k (card (dom (brute_points b)))" by (simp add: scored_def)
  have "score_le h (j, ?d v)"
    if h: "h \<in> set (take k ?s)" and j: "brute_points b j = Some v" "j \<notin> fst ` set (take k ?s)" for h j v
  proof -
    have "(j, ?d v) \<in> set ?s" using j(1) set_scored [OF assms(1)] by auto
    then have "(j, ?d v) \<in> set (take k ?s) \<union> set (drop k ?s)" by (metis append_take_drop_id set_append)
    with j(2) have "(j, ?d v) \<in> set (drop k ?s)" by force
    moreover have "sorted_wrt score_le (take k ?s @ drop k ?s)"
      using sorted_scored [where K = K and q = q, OF assms(1,3)] by simp
    ultimately show ?thesis using h unfolding sorted_wrt_append by blast
  qed
  with l brute_search_hits [OF assms(1,2)] brute_hits_ok [OF assms(1)] show ?thesis by blast
qed

theorem brute_search_exact_witness:
  "\<exists>hits. brute_search (\<lambda>_ q v. hd v) \<lparr>b_dim = 1, b_metric = L2, b_ids = [Some 5, None, Some 9],
      b_vectors = [4, 1, 2], b_id_to_slot = [5 \<mapsto> 0, 9 \<mapsto> 2], b_free_slots = [1], b_live = 2\<rparr> [3] 1 0 = Some (Inr hits) \<and>
    length hits = 1"
proof -
  let ?b = "\<lparr>b_dim = 1, b_metric = L2, b_ids = [Some 5, None, Some 9],
      b_vectors = [4, 1, 2], b_id_to_slot = [5 \<mapsto> 0, 9 \<mapsto> 2], b_free_slots = [1], b_live = 2\<rparr>"
  have inv: "brute_inv ?b"
    by (auto simp: brute_inv_def less_Suc_eq nth_Cons' split: if_splits)
  have pts: "brute_points ?b = [5 \<mapsto> [4], 9 \<mapsto> [2]]"
    by (auto simp: brute_points_def brute_row_def vslice_def bslice_def fun_eq_iff)
  have q: "length [3] = b_dim ?b" by simp
  have nan: "\<forall>v \<in> ran (brute_points ?b). \<not> f32_is_nan ((\<lambda>_ q v. hd v) (b_metric ?b) [3] v)"
    unfolding pts by (auto simp: f32_is_nan_def ran_def split: if_splits)
  have "card (dom (brute_points ?b)) = 2" unfolding pts by simp
  with brute_search_exact [where K = "\<lambda>_ q v. hd v" and k = 1 and ef = 0, OF inv q nan] show ?thesis
    by auto
qed

end
