(* ===== verification/Binary_Heap.thy ===== *)
theory Binary_Heap
  imports QV_Prelude
begin

text \<open>
  \<open>std::collections::BinaryHeap\<close>, which the graph search uses for its candidates and results: a
  vector with the maximum at the front, \<open>push\<close> by \<open>sift_up\<close>, \<open>pop\<close> by moving the last element
  to the front, sinking it to the bottom along the larger children and sifting it up again.
  \<open>le a b\<close> is \<open>a <= b\<close> in the element's \<open>Ord\<close>.  Iteration order is the order of the vector.
\<close>

definition swap_at :: "'a list \<Rightarrow> nat \<Rightarrow> nat \<Rightarrow> 'a list" where
  "swap_at xs i j = xs[i := xs ! j, j := xs ! i]"

function sift_up :: "('a \<Rightarrow> 'a \<Rightarrow> bool) \<Rightarrow> 'a list \<Rightarrow> nat \<Rightarrow> 'a list" where
  "sift_up le xs pos =
     (if pos = 0 then xs
      else let parent = (pos - 1) div 2 in
           if le (xs ! pos) (xs ! parent) then xs
           else sift_up le (swap_at xs pos parent) parent)"
  by pat_completeness auto
termination
  by (relation "measure (\<lambda>(le, xs, pos). pos)") auto

function sink :: "('a \<Rightarrow> 'a \<Rightarrow> bool) \<Rightarrow> 'a list \<Rightarrow> nat \<Rightarrow> 'a list \<times> nat" where
  "sink le xs pos =
     (let child = 2 * pos + 1 in
      if child + 2 \<le> length xs then
        let c = (if le (xs ! child) (xs ! (child + 1)) then child + 1 else child)
        in sink le (swap_at xs pos c) c
      else if child + 1 = length xs then (swap_at xs pos child, child)
      else (xs, pos))"
  by pat_completeness auto
termination
  by (relation "measure (\<lambda>(le, xs, pos). length xs - pos)") (auto simp: swap_at_def)

declare sift_up.simps [simp del] sink.simps [simp del]

definition heap_push :: "('a \<Rightarrow> 'a \<Rightarrow> bool) \<Rightarrow> 'a \<Rightarrow> 'a list \<Rightarrow> 'a list" where
  "heap_push le x xs = sift_up le (xs @ [x]) (length xs)"

definition heap_pop :: "('a \<Rightarrow> 'a \<Rightarrow> bool) \<Rightarrow> 'a list \<Rightarrow> ('a \<times> 'a list) option" where
  "heap_pop le xs =
     (if xs = [] then None
      else let item = last xs; data = butlast xs in
           if data = [] then Some (item, [])
           else let (d, pos) = sink le (data[0 := item]) 0 in Some (hd data, sift_up le d pos))"

definition heap_peek :: "'a list \<Rightarrow> 'a option" where
  "heap_peek xs = (case xs of [] \<Rightarrow> None | x # _ \<Rightarrow> Some x)"

section \<open>Contents\<close>

lemma length_swap_at [simp]: "length (swap_at xs i j) = length xs"
  by (simp add: swap_at_def)

lemma mset_swap_at: "i < length xs \<Longrightarrow> j < length xs \<Longrightarrow> mset (swap_at xs i j) = mset xs"
  by (simp add: swap_at_def mset_swap)

lemma mset_sift_up: "pos < length xs \<Longrightarrow> mset (sift_up le xs pos) = mset xs"
proof (induction le xs pos rule: sift_up.induct)
  case (1 le xs pos)
  then show ?case
    by (subst sift_up.simps) (auto simp: Let_def mset_swap_at)
qed

lemma sink_facts:
  "pos < length xs \<Longrightarrow> mset (fst (sink le xs pos)) = mset xs \<and> snd (sink le xs pos) < length xs"
proof (induction le xs pos rule: sink.induct)
  case (1 le xs pos)
  let ?c = "if le (xs ! (2 * pos + 1)) (xs ! (2 * pos + 1 + 1)) then 2 * pos + 1 + 1 else 2 * pos + 1"
  show ?case
  proof (cases "2 * pos + 1 + 2 \<le> length xs")
    case True
    then have "mset (fst (sink le (swap_at xs pos ?c) ?c)) = mset (swap_at xs pos ?c) \<and>
        snd (sink le (swap_at xs pos ?c) ?c) < length (swap_at xs pos ?c)"
      by (intro 1(1)) auto
    moreover have "sink le xs pos = sink le (swap_at xs pos ?c) ?c"
      using True by (subst sink.simps) (simp add: Let_def)
    ultimately show ?thesis using True 1(2) by (simp add: mset_swap_at)
  next
    case False
    then show ?thesis using 1(2) by (subst (1 2) sink.simps) (auto simp: Let_def mset_swap_at)
  qed
qed

lemma mset_heap_push [simp]: "mset (heap_push le x xs) = add_mset x (mset xs)"
  by (simp add: heap_push_def mset_sift_up)

lemma set_heap_push [simp]: "set (heap_push le x xs) = insert x (set xs)"
  by (metis mset_heap_push set_mset_add_mset_insert set_mset_mset)

lemma length_heap_push [simp]: "length (heap_push le x xs) = Suc (length xs)"
  by (metis mset_heap_push size_add_mset size_mset)

lemma heap_pop_None [simp]: "heap_pop le xs = None \<longleftrightarrow> xs = []"
  by (auto simp: heap_pop_def Let_def split: prod.splits)

lemma mset_heap_pop:
  assumes "heap_pop le xs = Some (x, ys)"
  shows "mset xs = add_mset x (mset ys) \<and> length xs = Suc (length ys)"
proof (cases "butlast xs")
  case Nil
  with assms show ?thesis
    by (cases xs rule: rev_cases) (auto simp: heap_pop_def)
next
  case (Cons y zs)
  then have xs: "xs \<noteq> []" by auto
  obtain d pos where d: "sink le (last xs # zs) 0 = (d, pos)" by fastforce
  have "x = y" "ys = sift_up le d pos"
    using assms xs Cons d by (auto simp: heap_pop_def)
  moreover have m: "mset d = mset (last xs # zs)" and p: "pos < length (last xs # zs)"
    using sink_facts [of 0 "last xs # zs" le] d by simp_all
  moreover have "pos < length d" using p mset_eq_length [OF m] by simp
  ultimately have "mset ys = mset (last xs # zs)" by (simp add: mset_sift_up)
  moreover have "mset xs = mset (butlast xs @ [last xs])" using xs by simp
  ultimately have "mset xs = add_mset x (mset ys)" using Cons \<open>x = y\<close> by simp
  then show ?thesis by (metis size_add_mset size_mset)
qed

lemma heap_pop_set:
  "heap_pop le xs = Some (x, ys) \<Longrightarrow> set xs = insert x (set ys)"
  by (metis mset_heap_pop set_mset_add_mset_insert set_mset_mset)

lemma distinct_map_mset: "distinct (map f xs) \<Longrightarrow> mset xs = mset ys \<Longrightarrow> distinct (map f ys)"
  by (metis mset_map mset_eq_imp_distinct_iff)

lemma distinct_heap_push:
  "distinct (map f (heap_push le x xs)) \<longleftrightarrow> f x \<notin> f ` set xs \<and> distinct (map f xs)"
proof -
  have "mset (map f (heap_push le x xs)) = mset (map f (x # xs))" by simp
  then have "distinct (map f (heap_push le x xs)) = distinct (map f (x # xs))"
    by (rule mset_eq_imp_distinct_iff)
  then show ?thesis by simp
qed

lemma distinct_heap_pop:
  assumes "heap_pop le xs = Some (x, ys)" "distinct (map f xs)"
  shows "distinct (map f ys) \<and> f x \<notin> f ` set ys"
proof -
  have "mset (map f xs) = mset (map f (x # ys))" using mset_heap_pop [OF assms(1)] by simp
  then have "distinct (map f (x # ys))" using assms(2) mset_eq_imp_distinct_iff by blast
  then show ?thesis by simp
qed

end
