(* ===== verification/Hnsw.thy ===== *)
theory Hnsw
  imports Vector_Index Binary_Heap
begin

text \<open>
  The graph index of \<open>qv-hnsw/src/hnsw.rs\<close>: the level generator, greedy descent, the beam
  search of one layer over two binary heaps, the neighbour selection heuristic, insertion with
  pruning, tombstone deletion and query.

  Two things are arguments: the distance kernel \<open>K\<close> (see \<open>Vector_Index\<close>) and \<open>lv\<close>, which maps
  \<open>M\<close> and a random number \<open>u\<close> in units of \<open>2 ^ -53\<close> to \<open>floor(-ln(u / 2 ^ 53) / ln M)\<close>, computed by the code in \<open>f64\<close> with the
  platform's \<open>ln\<close>.  \<open>None\<close> is a panic: an index out of range.
\<close>

unbundle bit_operations_syntax

section \<open>Parameters, level generator, nodes\<close>

record hnsw_params =
  pm :: nat
  pm0 :: nat
  ef_construction :: nat

definition default_params :: hnsw_params where
  "default_params = \<lparr>pm = 16, pm0 = 32, ef_construction = 200\<rparr>"

text \<open>\<open>SplitMix64::next_u64\<close>: the next state and the output.\<close>

definition next_u64 :: "u64 \<Rightarrow> u64 \<times> u64" where
  "next_u64 st =
     (let st = st + 0x9E3779B97F4A7C15;
          z = st;
          z = (z XOR drop_bit 30 z) * 0xBF58476D1CE4E5B9;
          z = (z XOR drop_bit 27 z) * 0x94D049BB133111EB
      in (z XOR drop_bit 31 z, st))"

text \<open>\<open>SplitMix64::next_unit\<close>: a number in \<open>(0, 1]\<close>, in units of \<open>2 ^ -53\<close>.  It has at most 53 binary
  digits at every step of its computation in \<open>f64\<close>, so that each is exact; and its logarithm is finite.\<close>

definition next_unit :: "u64 \<Rightarrow> int \<times> u64" where
  "next_unit st = (let (z, st) = next_u64 st in (2 ^ 53 - uint (drop_bit 11 z), st))"

lemma next_unit_range: "0 < fst (next_unit st) \<and> fst (next_unit st) \<le> 2 ^ 53"
proof -
  obtain z st' where z: "next_u64 st = (z, st')" by fastforce
  have "uint (drop_bit 11 z) = uint z div 2 ^ 11" by (simp add: drop_bit_eq_div uint_div)
  also have "\<dots> < 2 ^ 53" using uint_lt2p [of z] by simp
  finally show ?thesis using z by (simp add: next_unit_def)
qed

record hnode =
  node_id :: u64
  node_vector :: vec
  node_neighbors :: "u32 list list"

record hnsw =
  h_dim :: nat
  h_metric :: metric
  h_params :: hnsw_params
  h_nodes :: "hnode list"
  h_id_to_node :: "u64 \<rightharpoonup> u32"
  h_deleted :: "bool list"
  h_live :: nat
  h_entry_point :: "u32 option"
  h_rng :: u64

definition hnsw_with_params :: "nat \<Rightarrow> metric \<Rightarrow> hnsw_params \<Rightarrow> u64 \<Rightarrow> hnsw option" where
  "hnsw_with_params dim m ps seed =
     (if dim > 0 \<and> pm ps \<ge> 2 \<and> pm0 ps \<ge> pm ps \<and> ef_construction ps \<ge> 1 then
        Some \<lparr>h_dim = dim, h_metric = m, h_params = ps, h_nodes = [], h_id_to_node = Map.empty,
              h_deleted = [], h_live = 0, h_entry_point = None, h_rng = seed\<rparr>
      else None)"

definition hnsw_new :: "nat \<Rightarrow> metric \<Rightarrow> hnsw option" where
  "hnsw_new dim m = hnsw_with_params dim m default_params 0x5EED1234ABCD0001"

definition m_max :: "hnsw \<Rightarrow> nat \<Rightarrow> nat" where
  "m_max h layer = (if layer = 0 then pm0 (h_params h) else pm (h_params h))"

type_synonym level_fn = "nat \<Rightarrow> int \<Rightarrow> nat"

definition random_level :: "level_fn \<Rightarrow> hnsw \<Rightarrow> nat \<times> hnsw" where
  "random_level lv h =
     (let (u, st) = next_unit (h_rng h) in (lv (pm (h_params h)) u, h\<lparr>h_rng := st\<rparr>))"

definition dist :: "kernel \<Rightarrow> hnsw \<Rightarrow> u32 \<Rightarrow> vec \<Rightarrow> f32 option" where
  "dist K h a q = (case vget (h_nodes h) (unat a) of
     None \<Rightarrow> None | Some nd \<Rightarrow> Some (K (h_metric h) (node_vector nd) q))"

section \<open>Candidates\<close>

type_synonym cand = "f32 \<times> u32"

text \<open>\<open>a <= b\<close> for \<open>MinCandidate\<close> (reversed) and \<open>MaxCandidate\<close>.\<close>

definition min_le :: "cand \<Rightarrow> cand \<Rightarrow> bool" where
  "min_le a b \<longleftrightarrow> (if f32_cmp_eq (fst b) (fst a) then snd b \<le> snd a else f32_cmp_le (fst b) (fst a))"

definition max_le :: "cand \<Rightarrow> cand \<Rightarrow> bool" where
  "max_le a b \<longleftrightarrow> (if f32_cmp_eq (fst a) (fst b) then snd a \<le> snd b else f32_cmp_le (fst a) (fst b))"

section \<open>Greedy descent\<close>

fun greedy_nbrs :: "kernel \<Rightarrow> hnsw \<Rightarrow> vec \<Rightarrow> u32 list \<Rightarrow> u32 \<times> f32 \<times> bool \<Rightarrow> (u32 \<times> f32 \<times> bool) option" where
  "greedy_nbrs K h q [] st = Some st"
| "greedy_nbrs K h q (nbr # nbrs) (cur, cd, improved) =
     (case dist K h nbr q of None \<Rightarrow> None
      | Some d \<Rightarrow> if f32_lt d cd then greedy_nbrs K h q nbrs (nbr, d, True)
                  else greedy_nbrs K h q nbrs (cur, cd, improved))"

text \<open>One round of the loop: scan the neighbours of \<open>cur\<close> at the layer.\<close>

definition greedy_round :: "kernel \<Rightarrow> hnsw \<Rightarrow> vec \<Rightarrow> nat \<Rightarrow> u32 \<Rightarrow> f32 \<Rightarrow> (u32 \<times> f32 \<times> bool) option" where
  "greedy_round K h q layer cur cd =
     (case vget (h_nodes h) (unat cur) of None \<Rightarrow> None
      | Some nd \<Rightarrow> if layer < length (node_neighbors nd)
                   then greedy_nbrs K h q (node_neighbors nd ! layer) (cur, cd, False)
                   else Some (cur, cd, False))"

lemma greedy_nbrs_improves:
  "greedy_nbrs K h q nbrs (cur, cd, i) = Some (cur', cd', i') \<Longrightarrow>
   cd' = cd \<and> i' = i \<and> cur' = cur \<or> i' \<and> f32_lt cd' cd"
proof (induction nbrs arbitrary: cur cd i)
  case Nil
  then show ?case by simp
next
  case (Cons nbr nbrs)
  obtain d where d: "dist K h nbr q = Some d" using Cons.prems by (auto split: option.splits)
  show ?case
  proof (cases "f32_lt d cd")
    case True
    with Cons.prems d have "greedy_nbrs K h q nbrs (nbr, d, True) = Some (cur', cd', i')" by simp
    from Cons.IH [OF this] True show ?thesis by (auto simp: f32_lt_def)
  next
    case False
    with Cons.prems d have "greedy_nbrs K h q nbrs (cur, cd, i) = Some (cur', cd', i')" by simp
    from Cons.IH [OF this] show ?thesis .
  qed
qed

lemma greedy_round_improves: "greedy_round K h q layer cur cd = Some (cur', cd', True) \<Longrightarrow> f32_lt cd' cd"
  by (auto simp: greedy_round_def split: option.splits if_splits dest: greedy_nbrs_improves)

function greedy_loop :: "kernel \<Rightarrow> hnsw \<Rightarrow> vec \<Rightarrow> nat \<Rightarrow> u32 \<Rightarrow> f32 \<Rightarrow> u32 option" where
  "greedy_loop K h q layer cur cd =
     (case greedy_round K h q layer cur cd of
        None \<Rightarrow> None
      | Some (cur', cd', improved) \<Rightarrow> if improved then greedy_loop K h q layer cur' cd' else Some cur')"
  by pat_completeness auto
termination
proof (relation "measure (\<lambda>(K, h, q, layer, cur, cd). nat (f32_key cd + 2 ^ 31))", goal_cases)
  case 1
  then show ?case by simp
next
  case (2 K h q layer cur cd st cur' st' cd' improved)
  then have "f32_lt cd' cd" by (auto dest: greedy_round_improves)
  moreover have "0 \<le> f32_key cd' + 2 ^ 31" using f32_key_bounds [of cd'] by simp
  ultimately show ?case by (simp add: f32_lt_def)
qed

declare greedy_loop.simps [simp del]

definition greedy_search_layer :: "kernel \<Rightarrow> hnsw \<Rightarrow> vec \<Rightarrow> u32 \<Rightarrow> nat \<Rightarrow> u32 option" where
  "greedy_search_layer K h q entry layer =
     (case dist K h entry q of None \<Rightarrow> None | Some d \<Rightarrow> greedy_loop K h q layer entry d)"

text \<open>The descent \<open>while layer > lo\<close> of \<open>insert_new\<close> and (with \<open>lo = 0\<close>) of \<open>search\<close>.\<close>

fun descend :: "kernel \<Rightarrow> hnsw \<Rightarrow> vec \<Rightarrow> nat \<Rightarrow> nat \<Rightarrow> u32 \<Rightarrow> u32 option" where
  "descend K h q lo 0 cur = Some cur"
| "descend K h q lo (Suc layer) cur =
     (if Suc layer > lo then
        (case greedy_search_layer K h q cur (Suc layer) of None \<Rightarrow> None
         | Some c \<Rightarrow> descend K h q lo layer c)
      else Some cur)"

section \<open>Beam search of one layer\<close>

type_synonym beam = "u32 set \<times> cand list \<times> cand list"

text \<open>The body of the loop over the neighbours of an expanded node.\<close>

definition keep_best :: "nat \<Rightarrow> cand list \<Rightarrow> cand list" where
  "keep_best ef results =
     (if length results > ef
      then (case heap_pop max_le results of None \<Rightarrow> results | Some (_, rs) \<Rightarrow> rs)
      else results)"

definition visit :: "kernel \<Rightarrow> hnsw \<Rightarrow> vec \<Rightarrow> nat \<Rightarrow> u32 \<Rightarrow> beam \<Rightarrow> beam option" where
  "visit K h q ef nbr st =
     (let (visited, candidates, results) = st in
      if nbr \<in> visited then Some st
      else case dist K h nbr q of None \<Rightarrow> None
        | Some d \<Rightarrow>
          let worst = (case heap_peek results of Some w \<Rightarrow> fst w | None \<Rightarrow> f32_infinity) in
          if f32_lt d worst \<or> length results < ef then
            Some (insert nbr visited, heap_push min_le (d, nbr) candidates,
                  keep_best ef (heap_push max_le (d, nbr) results))
          else Some (insert nbr visited, candidates, results))"

fun expand :: "kernel \<Rightarrow> hnsw \<Rightarrow> vec \<Rightarrow> nat \<Rightarrow> u32 list \<Rightarrow> beam \<Rightarrow> beam option" where
  "expand K h q ef [] st = Some st"
| "expand K h q ef (nbr # nbrs) st =
     (case visit K h q ef nbr st of None \<Rightarrow> None | Some st' \<Rightarrow> expand K h q ef nbrs st')"

definition expand_node :: "kernel \<Rightarrow> hnsw \<Rightarrow> vec \<Rightarrow> nat \<Rightarrow> nat \<Rightarrow> u32 \<Rightarrow> beam \<Rightarrow> beam option" where
  "expand_node K h q ef layer c st =
     (case vget (h_nodes h) (unat c) of None \<Rightarrow> None
      | Some nd \<Rightarrow> if layer < length (node_neighbors nd)
                   then expand K h q ef (node_neighbors nd ! layer) st else Some st)"

definition beam_done :: "nat \<Rightarrow> f32 \<Rightarrow> cand list \<Rightarrow> bool" where
  "beam_done ef c_dist results =
     (case heap_peek results of
        Some w \<Rightarrow> f32_lt (fst w) c_dist \<and> length results \<ge> ef
      | None \<Rightarrow> False)"

text \<open>Every candidate pushed is a node visited for the first time, which bounds the loop.\<close>

definition beam_measure :: "beam \<Rightarrow> nat" where
  "beam_measure st = (2 ^ 32 - card (fst st)) + length (fst (snd st))"

lemma card_u32: "card (UNIV :: u32 set) = 2 ^ 32"
  by (simp add: card_word)

lemma card_u32_less: "x \<notin> (V :: u32 set) \<Longrightarrow> card V < 2 ^ 32"
  by (metis UNIV_I card_u32 finite psubsetI psubset_card_mono subset_UNIV)

lemma visit_measure: "visit K h q ef nbr st = Some st' \<Longrightarrow> beam_measure st' \<le> beam_measure st"
proof -
  assume v: "visit K h q ef nbr st = Some st'"
  obtain visited candidates results where st: "st = (visited, candidates, results)" by (cases st)
  have m: "beam_measure (insert nbr visited, c, r) \<le> beam_measure st"
    if "length c \<le> Suc (length candidates)" "nbr \<notin> visited" for c r
    using that card_u32_less [OF that(2)] by (simp add: beam_measure_def st)
  from v show ?thesis
    by (auto simp: visit_def st Let_def split: option.splits if_splits intro: m [unfolded st])
qed

lemma expand_measure: "expand K h q ef nbrs st = Some st' \<Longrightarrow> beam_measure st' \<le> beam_measure st"
proof (induction nbrs arbitrary: st)
  case (Cons nbr nbrs)
  then obtain st1 where st1: "visit K h q ef nbr st = Some st1" "expand K h q ef nbrs st1 = Some st'"
    by (auto split: option.splits)
  from Cons.IH [OF st1(2)] visit_measure [OF st1(1)] show ?case by (rule order_trans)
qed simp

lemma expand_node_measure: "expand_node K h q ef layer c st = Some st' \<Longrightarrow> beam_measure st' \<le> beam_measure st"
  by (auto simp: expand_node_def split: option.splits if_splits dest: expand_measure)

function search_loop :: "kernel \<Rightarrow> hnsw \<Rightarrow> vec \<Rightarrow> nat \<Rightarrow> nat \<Rightarrow> beam \<Rightarrow> cand list option" where
  "search_loop K h q ef layer (visited, candidates, results) =
     (case heap_pop min_le candidates of
        None \<Rightarrow> Some results
      | Some ((c_dist, c), candidates) \<Rightarrow>
          if beam_done ef c_dist results then Some results
          else (case expand_node K h q ef layer c (visited, candidates, results) of
                  None \<Rightarrow> None
                | Some st \<Rightarrow> search_loop K h q ef layer st))"
  by pat_completeness auto
termination
proof (relation "measure (\<lambda>(K, h, q, ef, layer, st). beam_measure st)", goal_cases)
  case 1
  then show ?case by simp
next
  case (2 K h q ef layer visited candidates results x cc rest c_dist c st)
  then have "heap_pop min_le candidates = Some (cc, rest)" by simp
  from mset_heap_pop [OF this] have "length candidates = Suc (length rest)" by simp
  with expand_node_measure [OF 2(5)] show ?case by (simp add: beam_measure_def)
qed

declare search_loop.simps [simp del]

definition search_layer :: "kernel \<Rightarrow> hnsw \<Rightarrow> vec \<Rightarrow> u32 \<Rightarrow> nat \<Rightarrow> nat \<Rightarrow> cand list option" where
  "search_layer K h q entry ef layer =
     (case dist K h entry q of None \<Rightarrow> None
      | Some d \<Rightarrow> search_loop K h q ef layer
          ({entry}, heap_push min_le (d, entry) [], heap_push max_le (d, entry) []))"

section \<open>Neighbour selection\<close>

fun keep_loop :: "kernel \<Rightarrow> hnsw \<Rightarrow> f32 \<Rightarrow> u32 \<Rightarrow> u32 list \<Rightarrow> bool option" where
  "keep_loop K h cand_dist cand [] = Some True"
| "keep_loop K h cand_dist cand (s # ss) =
     (case vget (h_nodes h) (unat cand) of None \<Rightarrow> None | Some c \<Rightarrow>
      case vget (h_nodes h) (unat s) of None \<Rightarrow> None | Some sn \<Rightarrow>
      if f32_lt (K (h_metric h) (node_vector c) (node_vector sn)) cand_dist then Some False
      else keep_loop K h cand_dist cand ss)"

fun select_loop :: "kernel \<Rightarrow> hnsw \<Rightarrow> nat \<Rightarrow> u32 list \<Rightarrow> cand list \<Rightarrow> u32 list option" where
  "select_loop K h m selected [] = Some selected"
| "select_loop K h m selected ((cand_dist, cand) # cands) =
     (if length selected \<ge> m then Some selected
      else case keep_loop K h cand_dist cand selected of None \<Rightarrow> None
        | Some keep \<Rightarrow> select_loop K h m (if keep then selected @ [cand] else selected) cands)"

definition by_dist :: "cand \<Rightarrow> cand \<Rightarrow> bool" where
  "by_dist a b = f32_cmp_le (fst a) (fst b)"

definition select_neighbors_heuristic :: "kernel \<Rightarrow> hnsw \<Rightarrow> cand list \<Rightarrow> nat \<Rightarrow> u32 list option" where
  "select_neighbors_heuristic K h cands m = select_loop K h m [] (sort_by by_dist cands)"

text \<open>\<open>Iterator::min_by\<close>: the first of the minimal elements.\<close>

fun min_by :: "('a \<Rightarrow> 'a \<Rightarrow> bool) \<Rightarrow> 'a \<Rightarrow> 'a list \<Rightarrow> 'a" where
  "min_by le x [] = x"
| "min_by le x (y # ys) = min_by le (if le x y then x else y) ys"

section \<open>Edges\<close>

text \<open>\<open>self.nodes[n].neighbors[l]\<close> read and assigned.\<close>

definition get_nbrs :: "hnsw \<Rightarrow> u32 \<Rightarrow> nat \<Rightarrow> u32 list option" where
  "get_nbrs h n l = (case vget (h_nodes h) (unat n) of None \<Rightarrow> None | Some nd \<Rightarrow> vget (node_neighbors nd) l)"

definition set_nbrs :: "hnsw \<Rightarrow> u32 \<Rightarrow> nat \<Rightarrow> u32 list \<Rightarrow> hnsw option" where
  "set_nbrs h n l xs =
     (case vget (h_nodes h) (unat n) of None \<Rightarrow> None
      | Some nd \<Rightarrow> (case vset (node_neighbors nd) l xs of None \<Rightarrow> None
         | Some ns \<Rightarrow> Some (h\<lparr>h_nodes := (h_nodes h)[unat n := nd\<lparr>node_neighbors := ns\<rparr>]\<rparr>)))"

fun dists_to :: "kernel \<Rightarrow> hnsw \<Rightarrow> vec \<Rightarrow> u32 list \<Rightarrow> cand list option" where
  "dists_to K h base [] = Some []"
| "dists_to K h base (n # ns) =
     (case vget (h_nodes h) (unat n) of None \<Rightarrow> None | Some nd \<Rightarrow>
      case dists_to K h base ns of None \<Rightarrow> None | Some rest \<Rightarrow>
      Some ((K (h_metric h) base (node_vector nd), n) # rest))"

definition prune_neighbors :: "kernel \<Rightarrow> u32 \<Rightarrow> nat \<Rightarrow> nat \<Rightarrow> hnsw \<Rightarrow> hnsw option" where
  "prune_neighbors K node layer m h =
     (case vget (h_nodes h) (unat node) of None \<Rightarrow> None | Some nd \<Rightarrow>
      case get_nbrs h node layer of None \<Rightarrow> None | Some current \<Rightarrow>
      case dists_to K h (node_vector nd) current of None \<Rightarrow> None | Some cands \<Rightarrow>
      case select_neighbors_heuristic K h cands m of None \<Rightarrow> None | Some chosen \<Rightarrow>
      set_nbrs h node layer chosen)"

text \<open>Wire \<open>nbr -> new\<close> at a layer and prune when the list overflows.\<close>

definition wire_back :: "kernel \<Rightarrow> nat \<Rightarrow> u32 \<Rightarrow> u32 \<Rightarrow> hnsw \<Rightarrow> hnsw option" where
  "wire_back K l new_idx nbr h =
     (case get_nbrs h nbr l of None \<Rightarrow> None | Some ns \<Rightarrow>
      case set_nbrs h nbr l (ns @ [new_idx]) of None \<Rightarrow> None | Some h' \<Rightarrow>
      if length (ns @ [new_idx]) > m_max h' l then prune_neighbors K nbr l (m_max h' l) h' else Some h')"

fun wire_all :: "kernel \<Rightarrow> nat \<Rightarrow> u32 \<Rightarrow> u32 list \<Rightarrow> hnsw \<Rightarrow> hnsw option" where
  "wire_all K l new_idx [] h = Some h"
| "wire_all K l new_idx (nbr # nbrs) h =
     (case wire_back K l new_idx nbr h of None \<Rightarrow> None | Some h' \<Rightarrow> wire_all K l new_idx nbrs h')"

section \<open>Insertion\<close>

definition connect_layer :: "kernel \<Rightarrow> vec \<Rightarrow> u32 \<Rightarrow> nat \<Rightarrow> hnsw \<times> u32 \<Rightarrow> (hnsw \<times> u32) option" where
  "connect_layer K v new_idx l st =
     (let (h, entry_for_layer) = st in
      case search_layer K h v entry_for_layer (ef_construction (h_params h)) l of None \<Rightarrow> None | Some found \<Rightarrow>
      let entry' = (case found of [] \<Rightarrow> entry_for_layer | x # xs \<Rightarrow> snd (min_by by_dist x xs)) in
      case select_neighbors_heuristic K h found (m_max h l) of None \<Rightarrow> None | Some selected \<Rightarrow>
      case set_nbrs h new_idx l selected of None \<Rightarrow> None | Some h1 \<Rightarrow>
      case wire_all K l new_idx selected h1 of None \<Rightarrow> None | Some h2 \<Rightarrow> Some (h2, entry'))"

text \<open>\<open>for l in (0..=start_layer).rev()\<close>.\<close>

fun connect_layers :: "kernel \<Rightarrow> vec \<Rightarrow> u32 \<Rightarrow> nat \<Rightarrow> hnsw \<times> u32 \<Rightarrow> (hnsw \<times> u32) option" where
  "connect_layers K v new_idx 0 st = connect_layer K v new_idx 0 st"
| "connect_layers K v new_idx (Suc l) st =
     (case connect_layer K v new_idx (Suc l) st of None \<Rightarrow> None
      | Some st' \<Rightarrow> connect_layers K v new_idx l st')"

definition top_layer :: "hnode \<Rightarrow> nat" where
  "top_layer nd = length (node_neighbors nd) - 1"

definition insert_new :: "kernel \<Rightarrow> level_fn \<Rightarrow> u64 \<Rightarrow> vec \<Rightarrow> hnsw \<Rightarrow> hnsw option" where
  "insert_new K lv i v h =
     (let (node_level, h) = random_level lv h;
          new_idx = (of_nat (length (h_nodes h)) :: u32);
          h = h\<lparr>h_nodes := h_nodes h @ [\<lparr>node_id = i, node_vector = v, node_neighbors = replicate (node_level + 1) []\<rparr>],
                h_deleted := h_deleted h @ [False],
                h_id_to_node := (h_id_to_node h)(i \<mapsto> new_idx),
                h_live := h_live h + 1\<rparr>
      in case h_entry_point h of
           None \<Rightarrow> Some (h\<lparr>h_entry_point := Some new_idx\<rparr>)
         | Some entry \<Rightarrow>
             (case vget (h_nodes h) (unat entry) of None \<Rightarrow> None | Some en \<Rightarrow>
              let entry_level = top_layer en in
              case descend K h v node_level entry_level entry of None \<Rightarrow> None | Some cur \<Rightarrow>
              case connect_layers K v new_idx (min node_level entry_level) (h, cur) of None \<Rightarrow> None
              | Some (h, _) \<Rightarrow>
                  Some (if node_level > entry_level then h\<lparr>h_entry_point := Some new_idx\<rparr> else h)))"

section \<open>The VectorIndex operations\<close>

definition hnsw_insert :: "kernel \<Rightarrow> level_fn \<Rightarrow> u64 \<Rightarrow> vec \<Rightarrow> hnsw \<Rightarrow> ((index_error + unit) \<times> hnsw) option" where
  "hnsw_insert K lv i v h =
     (if length v \<noteq> h_dim h then Some (Inl (DimMismatch (h_dim h) (length v)), h)
      else case h_id_to_node h i of
        Some idx \<Rightarrow>
          (case vget (h_nodes h) (unat idx) of None \<Rightarrow> None | Some nd \<Rightarrow>
           case copy_from_slice (node_vector nd) 0 (length (node_vector nd)) v of None \<Rightarrow> None | Some w \<Rightarrow>
           let h = h\<lparr>h_nodes := (h_nodes h)[unat idx := nd\<lparr>node_vector := w\<rparr>]\<rparr> in
           case vget (h_deleted h) (unat idx) of None \<Rightarrow> None | Some dl \<Rightarrow>
           Some (Inr (), if dl then h\<lparr>h_deleted := (h_deleted h)[unat idx := False], h_live := h_live h + 1\<rparr> else h))
      | None \<Rightarrow> map_option (\<lambda>h. (Inr (), h)) (insert_new K lv i v h))"

definition hnsw_delete :: "u64 \<Rightarrow> hnsw \<Rightarrow> (bool \<times> hnsw) option" where
  "hnsw_delete i h =
     (case h_id_to_node h i of
        Some idx \<Rightarrow>
          (case vget (h_deleted h) (unat idx) of None \<Rightarrow> None
           | Some dl \<Rightarrow>
               if \<not> dl then
                 (if h_live h = 0 then None
                  else Some (True, h\<lparr>h_deleted := (h_deleted h)[unat idx := True], h_live := h_live h - 1\<rparr>))
               else Some (False, h))
      | None \<Rightarrow> Some (False, h))"

definition hnsw_get_vector :: "hnsw \<Rightarrow> u64 \<Rightarrow> vec option option" where
  "hnsw_get_vector h i =
     (case h_id_to_node h i of
        None \<Rightarrow> Some None
      | Some idx \<Rightarrow>
          (case vget (h_deleted h) (unat idx) of None \<Rightarrow> None
           | Some dl \<Rightarrow> if dl then Some None
               else map_option (\<lambda>nd. Some (node_vector nd)) (vget (h_nodes h) (unat idx))))"

text \<open>The output loop: skip tombstones, stop at \<open>k\<close>.\<close>

fun collect_hits :: "hnsw \<Rightarrow> nat \<Rightarrow> (u64 \<times> f32) list \<Rightarrow> cand list \<Rightarrow> (u64 \<times> f32) list option" where
  "collect_hits h k out [] = Some out"
| "collect_hits h k out ((d, n) # found) =
     (case vget (h_deleted h) (unat n) of None \<Rightarrow> None | Some dl \<Rightarrow>
      if dl then collect_hits h k out found
      else case vget (h_nodes h) (unat n) of None \<Rightarrow> None | Some nd \<Rightarrow>
        let out = out @ [(node_id nd, d)] in
        if length out = k then Some out else collect_hits h k out found)"

definition hnsw_search ::
  "kernel \<Rightarrow> hnsw \<Rightarrow> vec \<Rightarrow> nat \<Rightarrow> nat \<Rightarrow> (index_error + (u64 \<times> f32) list) option" where
  "hnsw_search K h q k ef_search =
     (if length q \<noteq> h_dim h then Some (Inl (DimMismatch (h_dim h) (length q)))
      else if k = 0 \<or> h_live h = 0 then Some (Inr [])
      else case h_entry_point h of None \<Rightarrow> Some (Inr [])
        | Some entry \<Rightarrow>
          (case vget (h_nodes h) (unat entry) of None \<Rightarrow> None | Some en \<Rightarrow>
           case descend K h q 0 (top_layer en) entry of None \<Rightarrow> None | Some cur \<Rightarrow>
           case search_layer K h q cur (max ef_search k) 0 of None \<Rightarrow> None | Some found \<Rightarrow>
           map_option Inr (collect_hits h k [] (sort_by by_dist found))))"

end
