(* ===== verification/Hnsw_Correct.thy ===== *)
theory Hnsw_Correct
  imports Hnsw
begin

text \<open>
  Correctness of the graph index: the invariant of \<open>validate_invariants\<close> (extended by the
  layer of every edge's target and the height of the entry point), its preservation by every
  operation without a panic, and the interpretation of the index contract.
\<close>

section \<open>The graph\<close>

abbreviation nnodes :: "hnsw \<Rightarrow> nat" where
  "nnodes h \<equiv> length (h_nodes h)"

definition layers :: "hnsw \<Rightarrow> nat \<Rightarrow> nat" where
  "layers h n = length (node_neighbors (h_nodes h ! n))"

definition adj :: "hnsw \<Rightarrow> nat \<Rightarrow> nat \<Rightarrow> u32 list" where
  "adj h n l = (if l < layers h n then node_neighbors (h_nodes h ! n) ! l else [])"

text \<open>A node of layer \<open>l\<close>.\<close>

definition on_layer :: "hnsw \<Rightarrow> nat \<Rightarrow> u32 \<Rightarrow> bool" where
  "on_layer h l x \<longleftrightarrow> unat x < nnodes h \<and> l < layers h (unat x)"

definition edges_ok :: "hnsw \<Rightarrow> bool" where
  "edges_ok h \<longleftrightarrow>
     (\<forall>n < nnodes h. \<forall>l < layers h n. length (adj h n l) \<le> m_max h l \<and>
        (\<forall>x \<in> set (adj h n l). on_layer h l x \<and> unat x \<noteq> n))"

definition vec_of :: "hnsw \<Rightarrow> u32 \<Rightarrow> vec" where
  "vec_of h x = node_vector (h_nodes h ! unat x)"

lemma vget_in [simp]: "i < length xs \<Longrightarrow> vget xs i = Some (xs ! i)"
  by (simp add: vget_def)

lemma vset_in [simp]: "i < length xs \<Longrightarrow> vset xs i x = Some (xs[i := x])"
  by (simp add: vset_def)

lemma dist_ok: "unat x < nnodes h \<Longrightarrow> dist K h x q = Some (K (h_metric h) (vec_of h x) q)"
  by (simp add: dist_def vec_of_def)

section \<open>Searches stay in a closed set\<close>

text \<open>A set of nodes that contains the targets of its own edges at a layer.\<close>

definition closed_at :: "hnsw \<Rightarrow> nat \<Rightarrow> (u32 \<Rightarrow> bool) \<Rightarrow> bool" where
  "closed_at h l P \<longleftrightarrow> (\<forall>x. P x \<longrightarrow> unat x < nnodes h \<and> (\<forall>y \<in> set (adj h (unat x) l). P y))"

lemma closed_atD:
  assumes "closed_at h l P" "P x"
  shows "unat x < nnodes h" "y \<in> set (adj h (unat x) l) \<Longrightarrow> P y"
  using assms by (auto simp: closed_at_def)

lemma greedy_nbrs_ok:
  assumes "\<forall>x \<in> set nbrs. P x" "\<forall>x. P x \<longrightarrow> unat x < nnodes h" "P cur"
  shows "\<exists>c d i'. greedy_nbrs K h q nbrs (cur, cd, i) = Some (c, d, i') \<and> P c"
  using assms
proof (induction nbrs arbitrary: cur cd i)
  case (Cons n nbrs)
  then have "dist K h n q = Some (K (h_metric h) (vec_of h n) q)" by (simp add: dist_ok)
  with Cons show ?case by simp
qed simp

lemma greedy_round_ok:
  assumes "closed_at h l P" "P cur"
  shows "\<exists>c d i. greedy_round K h q l cur cd = Some (c, d, i) \<and> P c"
proof -
  have c: "unat cur < nnodes h" using closed_atD [OF assms] by blast
  show ?thesis
  proof (cases "l < layers h (unat cur)")
    case True
    then have "adj h (unat cur) l = node_neighbors (h_nodes h ! unat cur) ! l" by (simp add: adj_def)
    then have "\<forall>x \<in> set (node_neighbors (h_nodes h ! unat cur) ! l). P x"
      using closed_atD(2) [OF assms] by simp
    from greedy_nbrs_ok [OF this _ assms(2)] True c assms(1) show ?thesis
      by (simp add: greedy_round_def layers_def closed_at_def)
  next
    case False
    then have "greedy_round K h q l cur cd = Some (cur, cd, False)"
      using c by (simp add: greedy_round_def layers_def)
    with assms(2) show ?thesis by blast
  qed
qed

lemma greedy_loop_ok:
  "closed_at h l P \<Longrightarrow> P cur \<Longrightarrow> \<exists>c. greedy_loop K h q l cur cd = Some c \<and> P c"
proof (induction K h q l cur cd rule: greedy_loop.induct)
  case (1 K h q l cur cd)
  from greedy_round_ok [OF 1(2,3)] obtain c d i where
    r: "greedy_round K h q l cur cd = Some (c, d, i)" "P c" by blast
  show ?case
  proof (cases i)
    case True
    with 1(1) [OF r(1) refl refl True 1(2) r(2)] r show ?thesis by (subst greedy_loop.simps) simp
  next
    case False
    with r show ?thesis by (subst greedy_loop.simps) simp
  qed
qed

lemma greedy_search_layer_ok:
  assumes "closed_at h l P" "P entry"
  shows "\<exists>c. greedy_search_layer K h q entry l = Some c \<and> P c"
  using greedy_loop_ok [OF assms] closed_atD(1) [OF assms] by (simp add: greedy_search_layer_def dist_ok)

lemma descend_ok:
  assumes "\<And>l. lo < l \<Longrightarrow> l \<le> tp \<Longrightarrow> closed_at h l (P l)" "\<And>l x. P (Suc l) x \<Longrightarrow> P l x"
    and "P tp cur"
  shows "\<exists>c. descend K h q lo tp cur = Some c \<and> P (min lo tp) c"
  using assms(1,3)
proof (induction tp arbitrary: cur)
  case (Suc tp)
  show ?case
  proof (cases "lo < Suc tp")
    case True
    then obtain c where c: "greedy_search_layer K h q cur (Suc tp) = Some c" "P (Suc tp) c"
      using greedy_search_layer_ok [OF Suc.prems(1) Suc.prems(2)] by blast
    from Suc.IH [OF _ assms(2) [OF c(2)]] Suc.prems(1) True c show ?thesis by (simp add: min_def)
  next
    case False
    have "P l cur" if "l \<le> Suc tp" for l
      using that Suc.prems(2) by (induction rule: inc_induct) (auto intro: assms(2))
    with False show ?thesis by simp
  qed
qed simp

section \<open>The beam search\<close>

text \<open>What holds of the two heaps and the visited set throughout.\<close>

definition cand_ok :: "kernel \<Rightarrow> hnsw \<Rightarrow> vec \<Rightarrow> (u32 \<Rightarrow> bool) \<Rightarrow> cand \<Rightarrow> bool" where
  "cand_ok K h q P c \<longleftrightarrow> P (snd c) \<and> fst c = K (h_metric h) (vec_of h (snd c)) q"

definition beam_ok :: "kernel \<Rightarrow> hnsw \<Rightarrow> vec \<Rightarrow> nat \<Rightarrow> (u32 \<Rightarrow> bool) \<Rightarrow> beam \<Rightarrow> bool" where
  "beam_ok K h q ef P st = (case st of (visited, candidates, results) \<Rightarrow>
     (\<forall>c \<in> set candidates \<union> set results. cand_ok K h q P c \<and> snd c \<in> visited) \<and>
     distinct (map snd results) \<and> results \<noteq> [] \<and> length results \<le> max 1 ef)"

lemma keep_best_facts:
  assumes "results' = keep_best ef (heap_push max_le c results)" "length results \<le> max 1 ef" "results \<noteq> []"
    and "distinct (map snd results)" "snd c \<notin> snd ` set results"
  shows "set results' \<subseteq> insert c (set results) \<and> distinct (map snd results') \<and> results' \<noteq> [] \<and>
    length results' \<le> max 1 ef"
proof -
  let ?r = "heap_push max_le c results"
  have d: "distinct (map snd ?r)" using assms(4,5) by (simp add: distinct_heap_push)
  show ?thesis
  proof (cases "length ?r > ef")
    case True
    obtain x rs where p: "heap_pop max_le ?r = Some (x, rs)"
      by (metis heap_pop_None length_heap_push list.size(3) nat.distinct(1) option.exhaust surj_pair)
    have "length rs = length results" using mset_heap_pop [OF p] by simp
    then show ?thesis
      using assms(1-3) True p heap_pop_set [OF p] distinct_heap_pop [OF p d] by (auto simp: keep_best_def)
  next
    case False
    moreover have "?r \<noteq> []" by (metis length_heap_push list.size(3) nat.distinct(1))
    ultimately show ?thesis using assms(1) d by (simp add: keep_best_def)
  qed
qed

lemma visit_ok:
  assumes "beam_ok K h q ef P st" "P x" "unat x < nnodes h"
  shows "\<exists>st'. visit K h q ef x st = Some st' \<and> beam_ok K h q ef P st'"
proof -
  obtain V C R where st: "st = (V, C, R)" by (cases st)
  let ?d = "K (h_metric h) (vec_of h x) q"
  have c: "cand_ok K h q P (?d, x)" using assms(2) by (simp add: cand_ok_def)
  show ?thesis
  proof (cases "x \<in> V")
    case True
    then show ?thesis using assms(1) by (simp add: visit_def st)
  next
    case False
    then have new: "snd (?d, x) \<notin> snd ` set R" using assms(1) by (auto simp: st beam_ok_def)
    have "distinct (map snd R)" "R \<noteq> []" "length R \<le> max 1 ef" using assms(1) by (simp_all add: st beam_ok_def)
    note k = keep_best_facts [OF refl this(3,2,1) new]
    have "beam_ok K h q ef P (insert x V, heap_push min_le (?d, x) C, keep_best ef (heap_push max_le (?d, x) R))"
      using k c assms(1) by (auto simp: st beam_ok_def)
    moreover have "beam_ok K h q ef P (insert x V, C, R)" using assms(1) by (auto simp: st beam_ok_def)
    ultimately show ?thesis using False dist_ok [OF assms(3)] by (simp add: visit_def st Let_def)
  qed
qed

lemma expand_ok:
  assumes "beam_ok K h q ef P st" "\<forall>x \<in> set nbrs. P x \<and> unat x < nnodes h"
  shows "\<exists>st'. expand K h q ef nbrs st = Some st' \<and> beam_ok K h q ef P st'"
  using assms
proof (induction nbrs arbitrary: st)
  case (Cons x nbrs)
  then obtain st1 where "visit K h q ef x st = Some st1" "beam_ok K h q ef P st1"
    using visit_ok by (metis list.set_intros(1))
  with Cons show ?case by simp
qed simp

lemma expand_node_ok:
  assumes "beam_ok K h q ef P st" "closed_at h l P" "P c"
  shows "\<exists>st'. expand_node K h q ef l c st = Some st' \<and> beam_ok K h q ef P st'"
proof (cases "l < layers h (unat c)")
  case True
  then have a: "node_neighbors (h_nodes h ! unat c) ! l = adj h (unat c) l" by (simp add: adj_def)
  have "\<forall>x \<in> set (adj h (unat c) l). P x \<and> unat x < nnodes h"
    using closed_atD [OF assms(2)] assms(3) by blast
  from expand_ok [OF assms(1) this] True closed_atD(1) [OF assms(2,3)] a show ?thesis
    by (simp add: expand_node_def layers_def)
next
  case False
  then show ?thesis using assms(1) closed_atD(1) [OF assms(2,3)] by (simp add: expand_node_def layers_def)
qed

lemma search_loop_ok:
  "beam_ok K h q ef P st \<Longrightarrow> closed_at h l P \<Longrightarrow>
   \<exists>R. search_loop K h q ef l st = Some R \<and> R \<noteq> [] \<and> distinct (map snd R) \<and>
     length R \<le> max 1 ef \<and> (\<forall>c \<in> set R. cand_ok K h q P c)"
proof (induction K h q ef l st rule: search_loop.induct)
  case (1 K h q ef l V C R)
  have R: "R \<noteq> [] \<and> distinct (map snd R) \<and> length R \<le> max 1 ef \<and> (\<forall>c \<in> set R. cand_ok K h q P c)"
    using 1(2) by (auto simp: beam_ok_def)
  show ?case
  proof (cases "heap_pop min_le C")
    case None
    have "search_loop K h q ef l (V, C, R) = Some R" by (subst search_loop.simps) (simp add: None)
    with R show ?thesis by blast
  next
    case (Some p)
    then obtain c_dist c C' where p: "heap_pop min_le C = Some ((c_dist, c), C')" by (metis surj_pair)
    have b: "beam_ok K h q ef P (V, C', R)" and c: "P c"
      using 1(2) heap_pop_set [OF p] by (auto simp: beam_ok_def cand_ok_def)
    show ?thesis
    proof (cases "beam_done ef c_dist R")
      case True
      then show ?thesis using R p by (subst search_loop.simps) simp
    next
      case False
      obtain st' where st': "expand_node K h q ef l c (V, C', R) = Some st'" "beam_ok K h q ef P st'"
        using expand_node_ok [OF b 1(3) c] by blast
      from 1(1) [OF p refl refl False st'(1) st'(2) 1(3)] show ?thesis
        using p False st'(1) by (subst search_loop.simps) simp
    qed
  qed
qed

lemma search_layer_ok:
  assumes "closed_at h l P" "P entry"
  shows "\<exists>R. search_layer K h q entry ef l = Some R \<and> R \<noteq> [] \<and> distinct (map snd R) \<and>
     length R \<le> max 1 ef \<and> (\<forall>c \<in> set R. cand_ok K h q P c)"
proof -
  have e: "unat entry < nnodes h" using closed_atD(1) [OF assms] .
  let ?d = "K (h_metric h) (vec_of h entry) q"
  have "heap_push le x [] = [x]" for le :: "cand \<Rightarrow> cand \<Rightarrow> bool" and x
    by (simp add: heap_push_def sift_up.simps)
  then have "beam_ok K h q ef P ({entry}, heap_push min_le (?d, entry) [], heap_push max_le (?d, entry) [])"
    using assms(2) by (simp add: beam_ok_def cand_ok_def)
  from search_loop_ok [OF this assms(1)] show ?thesis using e by (simp add: search_layer_def dist_ok)
qed

section \<open>Neighbour selection\<close>

lemma keep_loop_ok:
  assumes "unat c < nnodes h" "\<forall>s \<in> set ss. unat s < nnodes h"
  shows "\<exists>b. keep_loop K h cd c ss = Some b"
  using assms by (induction ss) auto

lemma select_loop_ok:
  assumes "\<forall>c \<in> set cands. unat (snd c) < nnodes h" "\<forall>s \<in> set selected. unat s < nnodes h"
  shows "\<exists>xs. select_loop K h m selected cands = Some xs \<and> set xs \<subseteq> set selected \<union> snd ` set cands \<and>
    length xs \<le> max m (length selected) \<and>
    (distinct (selected @ map snd cands) \<longrightarrow> distinct xs)"
  using assms
proof (induction cands arbitrary: selected)
  case Nil
  then show ?case by simp
next
  case (Cons c cands)
  obtain d x where c: "c = (d, x)" by fastforce
  show ?case
  proof (cases "length selected \<ge> m")
    case True
    then show ?thesis by (auto simp: c)
  next
    case False
    obtain keep where k: "keep_loop K h d x selected = Some keep"
      using keep_loop_ok [of x h selected K d] Cons.prems c by auto
    let ?s = "if keep then selected @ [x] else selected"
    have "\<forall>s \<in> set ?s. unat s < nnodes h" using Cons.prems c by auto
    then obtain xs where xs: "select_loop K h m ?s cands = Some xs" "set xs \<subseteq> set ?s \<union> snd ` set cands"
        "length xs \<le> max m (length ?s)" "distinct (?s @ map snd cands) \<longrightarrow> distinct xs"
      using Cons.IH [of ?s] Cons.prems by auto
    have "length xs \<le> max m (length selected)" using xs(3) False by (auto split: if_splits)
    moreover have "distinct (?s @ map snd cands)" if "distinct (selected @ map snd (c # cands))"
      using that c by auto
    ultimately show ?thesis using xs False k c by (auto split: if_splits)
  qed
qed

lemma select_neighbors_ok:
  assumes "\<forall>c \<in> set cands. unat (snd c) < nnodes h"
  shows "\<exists>xs. select_neighbors_heuristic K h cands m = Some xs \<and> set xs \<subseteq> snd ` set cands \<and>
    length xs \<le> m \<and> (distinct (map snd cands) \<longrightarrow> distinct xs)"
  using select_loop_ok [of "sort_by by_dist cands" h "[]" K m] assms
  by (auto simp: select_neighbors_heuristic_def distinct_map_sort_by)

lemma min_by_in: "min_by le x xs \<in> insert x (set xs)"
proof (induction xs arbitrary: x)
  case (Cons y ys)
  from Cons.IH [of "if le x y then x else y"] show ?case by (auto split: if_splits)
qed simp

lemma dists_to_ok:
  "\<forall>x \<in> set ns. unat x < nnodes h \<Longrightarrow>
   \<exists>cs. dists_to K h base ns = Some cs \<and> map snd cs = ns"
  by (induction ns) auto

section \<open>Edge updates\<close>

text \<open>\<open>h'\<close> differs from \<open>h\<close> in the adjacency of layer \<open>l\<close> only.\<close>

definition only_layer :: "nat \<Rightarrow> hnsw \<Rightarrow> hnsw \<Rightarrow> bool" where
  "only_layer l h h' \<longleftrightarrow> h' = h\<lparr>h_nodes := h_nodes h'\<rparr> \<and> nnodes h' = nnodes h \<and>
     (\<forall>n < nnodes h. node_id (h_nodes h' ! n) = node_id (h_nodes h ! n) \<and>
        node_vector (h_nodes h' ! n) = node_vector (h_nodes h ! n) \<and> layers h' n = layers h n \<and>
        (\<forall>l'. l' \<noteq> l \<longrightarrow> adj h' n l' = adj h n l'))"

lemma only_layer_refl [simp]: "only_layer l h h"
  by (simp add: only_layer_def)

lemma only_layer_trans:
  assumes "only_layer l h h1" "only_layer l h1 h2"
  shows "only_layer l h h2"
proof -
  have "h2 = h\<lparr>h_nodes := h_nodes h2\<rparr>"
    using assms by (metis (no_types, lifting) hnsw.surjective hnsw.update_convs(4) only_layer_def)
  with assms show ?thesis by (simp add: only_layer_def)
qed

lemma only_layer_fields:
  assumes "only_layer l h h'"
  shows "h_params h' = h_params h" "m_max h' = m_max h" "h_metric h' = h_metric h" "h_dim h' = h_dim h"
    "h_id_to_node h' = h_id_to_node h" "h_deleted h' = h_deleted h" "h_live h' = h_live h"
    "h_entry_point h' = h_entry_point h" "on_layer h' l' = on_layer h l'"
proof -
  have e: "h' = h\<lparr>h_nodes := h_nodes h'\<rparr>" using assms by (simp add: only_layer_def)
  show "h_params h' = h_params h" "h_metric h' = h_metric h" "h_dim h' = h_dim h"
    "h_id_to_node h' = h_id_to_node h" "h_deleted h' = h_deleted h" "h_live h' = h_live h"
    "h_entry_point h' = h_entry_point h" by (subst e, simp)+
  then show "m_max h' = m_max h" by (simp add: m_max_def fun_eq_iff)
  show "on_layer h' l' = on_layer h l'" using assms by (auto simp: fun_eq_iff on_layer_def only_layer_def)
qed

lemma set_nbrs_ok:
  assumes "on_layer h l n"
  shows "\<exists>h'. set_nbrs h n l xs = Some h' \<and> only_layer l h h' \<and>
    (\<forall>m < nnodes h. adj h' m l = (if m = unat n then xs else adj h m l))"
proof -
  have n: "unat n < nnodes h" "l < length (node_neighbors (h_nodes h ! unat n))"
    using assms by (simp_all add: on_layer_def layers_def)
  let ?nd = "h_nodes h ! unat n"
  let ?h' = "h\<lparr>h_nodes := (h_nodes h)[unat n := ?nd\<lparr>node_neighbors := (node_neighbors ?nd)[l := xs]\<rparr>]\<rparr>"
  have "set_nbrs h n l xs = Some ?h'" using n by (simp add: set_nbrs_def)
  moreover have "only_layer l h ?h'"
    using n by (auto simp: only_layer_def layers_def adj_def nth_list_update)
  moreover have "adj ?h' m l = (if m = unat n then xs else adj h m l)" if "m < nnodes h" for m
    using n that by (auto simp: adj_def layers_def nth_list_update)
  ultimately show ?thesis by blast
qed

lemma get_nbrs_ok: "on_layer h l n \<Longrightarrow> get_nbrs h n l = Some (adj h (unat n) l)"
  by (simp add: get_nbrs_def on_layer_def adj_def layers_def)

text \<open>\<open>h'\<close> is \<open>h\<close> with the adjacency of node \<open>n\<close> at layer \<open>l\<close> replaced by \<open>xs\<close>.\<close>

definition relinked :: "nat \<Rightarrow> u32 \<Rightarrow> u32 list \<Rightarrow> hnsw \<Rightarrow> hnsw \<Rightarrow> bool" where
  "relinked l n xs h h' \<longleftrightarrow> only_layer l h h' \<and>
     (\<forall>m < nnodes h. adj h' m l = (if m = unat n then xs else adj h m l))"

lemma set_nbrs_relinked: "on_layer h l n \<Longrightarrow> \<exists>h'. set_nbrs h n l xs = Some h' \<and> relinked l n xs h h'"
  using set_nbrs_ok by (auto simp: relinked_def)

lemma relinked_twice: "relinked l n xs h h1 \<Longrightarrow> relinked l n ys h1 h2 \<Longrightarrow> relinked l n ys h h2"
proof -
  assume r: "relinked l n xs h h1" "relinked l n ys h1 h2"
  then have "only_layer l h h2" using only_layer_trans by (auto simp: relinked_def)
  moreover have "nnodes h1 = nnodes h" using r(1) by (simp add: relinked_def only_layer_def)
  ultimately show ?thesis using r by (simp add: relinked_def)
qed

lemma relinked_edges_ok:
  assumes "edges_ok h" "relinked l n xs h h'" "length xs \<le> m_max h l"
    and "\<forall>x \<in> set xs. on_layer h l x \<and> x \<noteq> n"
  shows "edges_ok h'"
  unfolding edges_ok_def
proof (intro allI impI)
  fix m k
  assume m: "m < nnodes h'" and k: "k < layers h' m"
  have o: "only_layer l h h'" using assms(2) by (simp add: relinked_def)
  have mk: "m < nnodes h" "k < layers h m" using m k o by (simp_all add: only_layer_def)
  have a: "adj h' m k = (if k = l \<and> m = unat n then xs else adj h m k)"
    using assms(2) o mk(1) by (cases "k = l") (simp_all add: relinked_def only_layer_def)
  show "length (adj h' m k) \<le> m_max h' k \<and> (\<forall>x \<in> set (adj h' m k). on_layer h' k x \<and> unat x \<noteq> m)"
    unfolding a only_layer_fields [OF o] using assms(1,3,4) mk by (auto simp: edges_ok_def dest: word_unat_eq_iff [THEN iffD2])
qed

lemma prune_ok:
  assumes "on_layer h l n" "\<forall>x \<in> set (adj h (unat n) l). unat x < nnodes h"
  shows "\<exists>xs h'. prune_neighbors K n l m h = Some h' \<and> relinked l n xs h h' \<and>
    set xs \<subseteq> set (adj h (unat n) l) \<and> length xs \<le> m"
proof -
  have n: "unat n < nnodes h" using assms(1) by (simp add: on_layer_def)
  obtain cs where cs: "dists_to K h (node_vector (h_nodes h ! unat n)) (adj h (unat n) l) = Some cs"
      "map snd cs = adj h (unat n) l"
    using dists_to_ok [OF assms(2)] by blast
  then have "snd ` set cs = set (adj h (unat n) l)" by (metis image_set)
  moreover from this have "\<forall>c \<in> set cs. unat (snd c) < nnodes h" using assms(2) by blast
  ultimately obtain xs where xs: "select_neighbors_heuristic K h cs m = Some xs"
      "set xs \<subseteq> set (adj h (unat n) l)" "length xs \<le> m"
    using select_neighbors_ok [of cs h K m] by auto
  obtain h' where "set_nbrs h n l xs = Some h'" "relinked l n xs h h'"
    using set_nbrs_relinked [OF assms(1)] by blast
  with xs cs get_nbrs_ok [OF assms(1)] n show ?thesis by (auto simp: prune_neighbors_def)
qed

lemma wire_back_ok:
  assumes "edges_ok h" "on_layer h l nbr" "on_layer h l new" "nbr \<noteq> new"
  shows "\<exists>h'. wire_back K l new nbr h = Some h' \<and> only_layer l h h' \<and> edges_ok h'"
proof -
  let ?ns = "adj h (unat nbr) l"
  obtain h1 where h1: "set_nbrs h nbr l (?ns @ [new]) = Some h1" "relinked l nbr (?ns @ [new]) h h1"
    using set_nbrs_relinked [OF assms(2)] by blast
  have n: "unat nbr < nnodes h" "l < layers h (unat nbr)" using assms(2) by (simp_all add: on_layer_def)
  have tgt: "\<forall>x \<in> set (?ns @ [new]). on_layer h l x \<and> x \<noteq> nbr"
    using assms n by (auto simp: edges_ok_def)
  have o: "only_layer l h h1" using h1(2) by (simp add: relinked_def)
  note fld = only_layer_fields [OF o]
  have unf: "wire_back K l new nbr h =
      (if length (?ns @ [new]) > m_max h l then prune_neighbors K nbr l (m_max h l) h1 else Some h1)"
    using h1 get_nbrs_ok [OF assms(2)] fld(2) by (simp add: wire_back_def)
  show ?thesis
  proof (cases "length (?ns @ [new]) > m_max h l")
    case True
    have a: "adj h1 (unat nbr) l = ?ns @ [new]" using h1(2) n by (simp add: relinked_def)
    have "on_layer h1 l nbr" using assms(2) fld(9) by simp
    moreover have "\<forall>x \<in> set (adj h1 (unat nbr) l). unat x < nnodes h1"
      unfolding a using tgt o by (auto simp: on_layer_def only_layer_def)
    ultimately obtain xs h2 where h2: "prune_neighbors K nbr l (m_max h l) h1 = Some h2"
        "relinked l nbr xs h1 h2" "set xs \<subseteq> set (?ns @ [new])" "length xs \<le> m_max h l"
      using prune_ok [of h1 l nbr K "m_max h l"] unfolding a by blast
    have r: "relinked l nbr xs h h2" by (rule relinked_twice [OF h1(2) h2(2)])
    with relinked_edges_ok [OF assms(1) r h2(4)] h2 tgt unf True show ?thesis
      by (auto simp: relinked_def)
  next
    case False
    then show ?thesis using relinked_edges_ok [OF assms(1) h1(2) _ tgt] unf o by simp
  qed
qed

lemma wire_all_ok:
  assumes "edges_ok h" "\<forall>x \<in> set nbrs. on_layer h l x \<and> x \<noteq> new" "on_layer h l new"
  shows "\<exists>h'. wire_all K l new nbrs h = Some h' \<and> only_layer l h h' \<and> edges_ok h'"
  using assms
proof (induction nbrs arbitrary: h)
  case (Cons x nbrs)
  then obtain h1 where h1: "wire_back K l new x h = Some h1" "only_layer l h h1" "edges_ok h1"
    using wire_back_ok [of h l x new K] by auto
  note fld = only_layer_fields [OF h1(2)]
  from Cons.IH [OF h1(3)] Cons.prems obtain h' where
    "wire_all K l new nbrs h1 = Some h'" "only_layer l h1 h'" "edges_ok h'" unfolding fld by auto
  with h1 show ?case using only_layer_trans by auto
qed simp

section \<open>Connecting a new node\<close>

text \<open>The nodes of layer \<open>l\<close> other than the new one, which no edge of the layer reaches yet.\<close>

definition others :: "hnsw \<Rightarrow> u32 \<Rightarrow> nat \<Rightarrow> u32 \<Rightarrow> bool" where
  "others h new l x \<longleftrightarrow> on_layer h l x \<and> x \<noteq> new"

definition unreached :: "hnsw \<Rightarrow> u32 \<Rightarrow> nat \<Rightarrow> bool" where
  "unreached h new l \<longleftrightarrow> (\<forall>n < nnodes h. new \<notin> set (adj h n l))"

lemma closed_others:
  assumes "edges_ok h" "unreached h new l"
  shows "closed_at h l (others h new l)"
  unfolding closed_at_def
proof (intro allI impI conjI ballI)
  fix x y
  assume x: "others h new l x"
  then show xn: "unat x < nnodes h" by (simp add: others_def on_layer_def)
  assume y: "y \<in> set (adj h (unat x) l)"
  then have "l < layers h (unat x)" by (auto simp: adj_def split: if_splits)
  with y xn assms show "others h new l y"
    by (auto simp: others_def edges_ok_def unreached_def)
qed

lemma others_mono: "others h new (Suc l) x \<Longrightarrow> others h new l x"
  by (simp add: others_def on_layer_def)

lemma connect_layer_ok:
  assumes "edges_ok h" "unreached h new l" "on_layer h l new" "others h new l entry"
  shows "\<exists>h' entry'. connect_layer K v new l (h, entry) = Some (h', entry') \<and> only_layer l h h' \<and>
    edges_ok h' \<and> others h new l entry'"
proof -
  obtain R where R: "search_layer K h v entry (ef_construction (h_params h)) l = Some R" "R \<noteq> []"
      "\<forall>c \<in> set R. cand_ok K h v (others h new l) c"
    using search_layer_ok [OF closed_others [OF assms(1,2)] assms(4)] by metis
  have oth: "\<forall>c \<in> set R. others h new l (snd c)" using R(3) by (simp add: cand_ok_def)
  then have "\<forall>c \<in> set R. unat (snd c) < nnodes h" by (simp add: others_def on_layer_def)
  from select_neighbors_ok [OF this] obtain sel where
    sel: "select_neighbors_heuristic K h R (m_max h l) = Some sel" "set sel \<subseteq> snd ` set R" "length sel \<le> m_max h l"
    by blast
  have sel_ok: "\<forall>x \<in> set sel. on_layer h l x \<and> x \<noteq> new" using sel(2) oth by (auto simp: others_def)
  obtain h1 where h1: "set_nbrs h new l sel = Some h1" "relinked l new sel h h1"
    using set_nbrs_relinked [OF assms(3)] by blast
  have o1: "only_layer l h h1" using h1(2) by (simp add: relinked_def)
  have e1: "edges_ok h1" by (rule relinked_edges_ok [OF assms(1) h1(2) sel(3) sel_ok])
  from sel_ok assms(3) have "\<forall>x \<in> set sel. on_layer h1 l x \<and> x \<noteq> new" "on_layer h1 l new"
    unfolding only_layer_fields [OF o1] by blast+
  from wire_all_ok [OF e1 this] obtain h2 where
    h2: "wire_all K l new sel h1 = Some h2" "only_layer l h1 h2" "edges_ok h2" by blast
  obtain c R' where R': "R = c # R'" using R(2) by (cases R) auto
  have "others h new l (snd (min_by by_dist c R'))" using min_by_in [of by_dist c R'] oth R' by auto
  with R sel h1 h2 only_layer_trans [OF o1 h2(2)] R' show ?thesis by (simp add: connect_layer_def)
qed

text \<open>\<open>h'\<close> has the nodes of \<open>h\<close> with other edges.\<close>

definition same_nodes :: "hnsw \<Rightarrow> hnsw \<Rightarrow> bool" where
  "same_nodes h h' \<longleftrightarrow> h' = h\<lparr>h_nodes := h_nodes h'\<rparr> \<and> nnodes h' = nnodes h \<and>
     (\<forall>n < nnodes h. node_id (h_nodes h' ! n) = node_id (h_nodes h ! n) \<and>
        node_vector (h_nodes h' ! n) = node_vector (h_nodes h ! n) \<and> layers h' n = layers h n)"

lemma same_nodes_only: "only_layer l h h' \<Longrightarrow> same_nodes h h'"
  by (simp add: same_nodes_def only_layer_def)

lemma same_nodes_trans:
  assumes "same_nodes h h1" "same_nodes h1 h2"
  shows "same_nodes h h2"
proof -
  have "h2 = h\<lparr>h_nodes := h_nodes h2\<rparr>"
    using assms by (metis (no_types, lifting) hnsw.surjective hnsw.update_convs(4) same_nodes_def)
  with assms show ?thesis by (simp add: same_nodes_def)
qed

lemma connect_layers_ok:
  assumes "edges_ok h" "\<And>l'. l' \<le> l \<Longrightarrow> unreached h new l'" "on_layer h l new" "others h new l entry"
  shows "\<exists>h' entry'. connect_layers K v new l (h, entry) = Some (h', entry') \<and> same_nodes h h' \<and> edges_ok h'"
  using assms
proof (induction l arbitrary: h entry)
  case 0
  then show ?case using connect_layer_ok [of h new 0 entry K v] same_nodes_only by fastforce
next
  case (Suc l)
  obtain h1 e1 where h1: "connect_layer K v new (Suc l) (h, entry) = Some (h1, e1)" "only_layer (Suc l) h h1"
      "edges_ok h1" "others h new (Suc l) e1"
    using connect_layer_ok [OF Suc.prems(1) _ Suc.prems(3,4)] Suc.prems(2) by blast
  have "unreached h1 new l'" if "l' \<le> l" for l'
    using that Suc.prems(2) [of l'] h1(2) by (simp add: unreached_def only_layer_def)
  moreover have "on_layer h1 l new" "others h1 new l e1"
    using Suc.prems(3) h1(4) only_layer_fields(9) [OF h1(2)] by (auto simp: others_def on_layer_def)
  ultimately obtain h' e' where "connect_layers K v new l (h1, e1) = Some (h', e')" "same_nodes h1 h'" "edges_ok h'"
    using Suc.IH [OF h1(3)] by blast
  with h1(1) same_nodes_trans [OF same_nodes_only [OF h1(2)]] show ?case by simp
qed

section \<open>The invariant\<close>

definition base_inv :: "hnsw \<Rightarrow> bool" where
  "base_inv h \<longleftrightarrow>
     h_dim h > 0 \<and> nnodes h \<le> 2 ^ 32 \<and> length (h_deleted h) = nnodes h \<and>
     (\<forall>n < nnodes h. length (node_vector (h_nodes h ! n)) = h_dim h \<and> 0 < layers h n) \<and>
     (\<forall>i x. h_id_to_node h i = Some x \<longleftrightarrow> unat x < nnodes h \<and> node_id (h_nodes h ! unat x) = i) \<and>
     h_live h = card {n. n < nnodes h \<and> \<not> h_deleted h ! n}"

text \<open>The entry point exists as soon as there is a node, and is on the top layer.\<close>

definition entry_ok :: "hnsw \<Rightarrow> bool" where
  "entry_ok h = (case h_entry_point h of
     None \<Rightarrow> h_nodes h = []
   | Some e \<Rightarrow> unat e < nnodes h \<and> (\<forall>n < nnodes h. layers h n \<le> layers h (unat e)))"

definition hnsw_inv :: "hnsw \<Rightarrow> bool" where
  "hnsw_inv h \<longleftrightarrow> base_inv h \<and> edges_ok h \<and> entry_ok h"

definition hnsw_points :: "hnsw \<Rightarrow> u64 \<rightharpoonup> vec" where
  "hnsw_points h i = (case h_id_to_node h i of None \<Rightarrow> None
     | Some x \<Rightarrow> if h_deleted h ! unat x then None else Some (vec_of h x))"

lemma base_invD:
  assumes "base_inv h"
  shows "h_dim h > 0" "nnodes h \<le> 2 ^ 32" "length (h_deleted h) = nnodes h"
    "n < nnodes h \<Longrightarrow> length (node_vector (h_nodes h ! n)) = h_dim h" "n < nnodes h \<Longrightarrow> 0 < layers h n"
    "h_id_to_node h i = Some x \<longleftrightarrow> unat x < nnodes h \<and> node_id (h_nodes h ! unat x) = i"
    "h_live h = card {n. n < nnodes h \<and> \<not> h_deleted h ! n}"
  using assms by (simp_all add: base_inv_def)

lemma id_bound: "base_inv h \<Longrightarrow> h_id_to_node h i = Some x \<Longrightarrow> unat x < nnodes h"
  by (simp add: base_invD(6))

lemma id_inj: "base_inv h \<Longrightarrow> h_id_to_node h i = Some x \<Longrightarrow> h_id_to_node h j = Some x \<Longrightarrow> i = j"
  by (simp add: base_invD(6))

lemma same_nodes_fields:
  assumes "same_nodes h h'"
  shows "h_dim h' = h_dim h" "h_metric h' = h_metric h" "h_id_to_node h' = h_id_to_node h"
    "h_deleted h' = h_deleted h" "h_live h' = h_live h" "h_entry_point h' = h_entry_point h" "nnodes h' = nnodes h"
proof -
  have e: "h' = h\<lparr>h_nodes := h_nodes h'\<rparr>" using assms by (simp add: same_nodes_def)
  show "h_dim h' = h_dim h" "h_metric h' = h_metric h" "h_id_to_node h' = h_id_to_node h"
    "h_deleted h' = h_deleted h" "h_live h' = h_live h" "h_entry_point h' = h_entry_point h" by (subst e, simp)+
  show "nnodes h' = nnodes h" using assms by (simp add: same_nodes_def)
qed

lemma base_inv_same:
  assumes "base_inv h" "same_nodes h h'"
  shows "base_inv h'"
proof -
  note f = same_nodes_fields [OF assms(2)]
  have "\<forall>n < nnodes h. node_id (h_nodes h' ! n) = node_id (h_nodes h ! n) \<and>
      node_vector (h_nodes h' ! n) = node_vector (h_nodes h ! n) \<and> layers h' n = layers h n"
    using assms(2) by (simp add: same_nodes_def)
  moreover from this have "h_id_to_node h i = Some x \<longleftrightarrow> unat x < nnodes h \<and> node_id (h_nodes h' ! unat x) = i" for i x
    using base_invD(6) [OF assms(1)] by auto
  ultimately show ?thesis using assms(1) unfolding base_inv_def f by auto
qed

lemma entry_ok_same: "entry_ok h \<Longrightarrow> same_nodes h h' \<Longrightarrow> entry_ok h'"
proof -
  assume e: "entry_ok h" and s: "same_nodes h h'"
  have "\<forall>n < nnodes h. layers h' n = layers h n" using s by (simp add: same_nodes_def)
  moreover have "h_nodes h' = [] \<longleftrightarrow> h_nodes h = []" using same_nodes_fields(7) [OF s] by auto
  ultimately show ?thesis using e by (auto simp: entry_ok_def same_nodes_fields(6,7) [OF s] split: option.splits)
qed

lemma points_same:
  assumes "base_inv h" "same_nodes h h'"
  shows "hnsw_points h' = hnsw_points h"
proof
  fix i
  have "vec_of h' x = vec_of h x" if "h_id_to_node h i = Some x" for x
    using that base_invD(6) [OF assms(1)] assms(2) by (simp add: vec_of_def same_nodes_def)
  then show "hnsw_points h' i = hnsw_points h i"
    by (auto simp: hnsw_points_def same_nodes_fields [OF assms(2)] split: option.splits)
qed

section \<open>Insertion of a new id\<close>

text \<open>The index after the node is allocated, before it is connected.\<close>

definition alloc :: "u64 \<Rightarrow> vec \<Rightarrow> nat \<Rightarrow> hnsw \<Rightarrow> hnsw" where
  "alloc i v node_level h =
     h\<lparr>h_nodes := h_nodes h @ [\<lparr>node_id = i, node_vector = v, node_neighbors = replicate (node_level + 1) []\<rparr>],
       h_deleted := h_deleted h @ [False],
       h_id_to_node := (h_id_to_node h)(i \<mapsto> of_nat (nnodes h)),
       h_live := h_live h + 1\<rparr>"

lemma nnodes_alloc [simp]: "nnodes (alloc i v k h) = Suc (nnodes h)"
  by (simp add: alloc_def)

lemma layers_alloc: "n \<le> nnodes h \<Longrightarrow> layers (alloc i v k h) n = (if n = nnodes h then k + 1 else layers h n)"
  by (simp add: layers_def alloc_def nth_append)

lemma adj_alloc: "n \<le> nnodes h \<Longrightarrow> adj (alloc i v k h) n l = (if n = nnodes h then [] else adj h n l)"
  by (auto simp: adj_def layers_alloc) (simp_all add: alloc_def nth_append layers_def del: replicate_Suc)

lemma on_layer_alloc: "on_layer h l x \<Longrightarrow> on_layer (alloc i v k h) l x"
  by (simp add: on_layer_def layers_alloc)

lemma edges_ok_alloc:
  assumes "edges_ok h"
  shows "edges_ok (alloc i v k h)"
  unfolding edges_ok_def
proof (intro allI impI)
  fix n l
  assume n: "n < nnodes (alloc i v k h)" and l: "l < layers (alloc i v k h) n"
  have m: "m_max (alloc i v k h) l = m_max h l" by (simp add: m_max_def alloc_def)
  show "length (adj (alloc i v k h) n l) \<le> m_max (alloc i v k h) l \<and>
      (\<forall>x \<in> set (adj (alloc i v k h) n l). on_layer (alloc i v k h) l x \<and> unat x \<noteq> n)"
  proof (cases "n = nnodes h")
    case True
    then show ?thesis by (simp add: adj_alloc)
  next
    case False
    with n l have "n < nnodes h" "l < layers h n" by (simp_all add: layers_alloc)
    with assms False show ?thesis unfolding m by (auto simp: adj_alloc edges_ok_def on_layer_alloc)
  qed
qed

lemma unreached_alloc:
  assumes "edges_ok h" "unat new = nnodes h"
  shows "unreached (alloc i v k h) new l"
  unfolding unreached_def
proof (intro allI impI notI)
  fix n
  assume n: "n < nnodes (alloc i v k h)" and new: "new \<in> set (adj (alloc i v k h) n l)"
  then have "n < nnodes h" "new \<in> set (adj h n l)" by (auto simp: adj_alloc less_Suc_eq)
  moreover from this have "l < layers h n" by (auto simp: adj_def split: if_splits)
  ultimately have "on_layer h l new" using assms(1) by (auto simp: edges_ok_def)
  with assms(2) show False by (simp add: on_layer_def)
qed

lemma base_inv_alloc:
  assumes "base_inv h" "length v = h_dim h" "nnodes h < 2 ^ 32" "h_id_to_node h i = None"
  shows "base_inv (alloc i v k h)" "hnsw_points (alloc i v k h) = (hnsw_points h)(i \<mapsto> v)"
proof -
  let ?h = "alloc i v k h" and ?new = "of_nat (nnodes h) :: u32"
  note D = base_invD [OF assms(1)]
  have new: "unat ?new = nnodes h" using assms(3) by (rule unat_of_nat_u32)
  have newI: "x = ?new" if "unat x = nnodes h" for x :: u32
    using that new by (metis word_unat_eq_iff)
  have id_none: "node_id (h_nodes h ! unat x) \<noteq> i" if "unat x < nnodes h" for x :: u32
    using D(6) [of i x] assms(4) that by auto
  have ids: "h_id_to_node ?h j = Some x \<longleftrightarrow> unat x < nnodes ?h \<and> node_id (h_nodes ?h ! unat x) = j" for j x
  proof (cases "unat x < nnodes h")
    case True
    then have "x \<noteq> ?new" using new by auto
    with True D(6) [of j x] id_none [OF True] show ?thesis by (auto simp: alloc_def nth_append)
  next
    case False
    then have old: "h_id_to_node h j \<noteq> Some x" using D(6) by simp
    show ?thesis
    proof (cases "x = ?new")
      case True
      then have "unat x = nnodes h" using new by simp
      with True old show ?thesis by (auto simp: alloc_def)
    next
      case x: False
      then have "nnodes h < unat x" using newI [of x] False by fastforce
      with x old show ?thesis by (auto simp: alloc_def)
    qed
  qed
  have "{n. n < nnodes ?h \<and> \<not> h_deleted ?h ! n} = insert (nnodes h) {n. n < nnodes h \<and> \<not> h_deleted h ! n}"
    using D(3) by (auto simp: alloc_def nth_append)
  then have "h_live ?h = card {n. n < nnodes ?h \<and> \<not> h_deleted ?h ! n}"
    using D(7) by (simp add: alloc_def)
  moreover have "length (node_vector (h_nodes ?h ! n)) = h_dim ?h \<and> 0 < layers ?h n" if "n < nnodes ?h" for n
    using that assms(2) D(4,5) [of n] by (auto simp: layers_alloc) (auto simp: alloc_def nth_append)
  moreover have "length (h_deleted ?h) = nnodes ?h" "h_dim ?h > 0" using D(1,3) by (simp_all add: alloc_def)
  ultimately show "base_inv ?h" unfolding base_inv_def using ids assms(3) by auto
  have "hnsw_points ?h j = ((hnsw_points h)(i \<mapsto> v)) j" for j
  proof (cases "j = i")
    case True
    then show ?thesis using new D(3) by (simp add: hnsw_points_def alloc_def vec_of_def nth_append)
  next
    case False
    then show ?thesis using D(3) id_bound [OF assms(1), of j]
      by (cases "h_id_to_node h j") (simp_all add: hnsw_points_def alloc_def vec_of_def nth_append)
  qed
  then show "hnsw_points ?h = (hnsw_points h)(i \<mapsto> v)" by blast
qed

text \<open>The generator state and (but for \<open>entry_ok\<close>) the entry point play no part in the invariant.\<close>

lemma rng_irrelevant [simp]:
  "layers (h\<lparr>h_rng := r\<rparr>) = layers h" "adj (h\<lparr>h_rng := r\<rparr>) = adj h" "m_max (h\<lparr>h_rng := r\<rparr>) = m_max h"
  "on_layer (h\<lparr>h_rng := r\<rparr>) = on_layer h" "vec_of (h\<lparr>h_rng := r\<rparr>) = vec_of h"
  "hnsw_points (h\<lparr>h_rng := r\<rparr>) = hnsw_points h"
  "base_inv (h\<lparr>h_rng := r\<rparr>) = base_inv h" "edges_ok (h\<lparr>h_rng := r\<rparr>) = edges_ok h" "entry_ok (h\<lparr>h_rng := r\<rparr>) = entry_ok h"
proof -
  let ?h = "h\<lparr>h_rng := r\<rparr>"
  show a: "layers ?h = layers h" by (simp add: fun_eq_iff layers_def)
  show b: "adj ?h = adj h" "m_max ?h = m_max h" "on_layer ?h = on_layer h" "vec_of ?h = vec_of h"
    by (simp_all add: fun_eq_iff adj_def m_max_def on_layer_def vec_of_def a)
  show "hnsw_points ?h = hnsw_points h" by (simp add: fun_eq_iff hnsw_points_def b cong: option.case_cong if_cong)
  show "base_inv ?h = base_inv h" "edges_ok ?h = edges_ok h" "entry_ok ?h = entry_ok h"
    by (simp_all add: base_inv_def edges_ok_def entry_ok_def a b cong: option.case_cong)
qed

lemma entry_irrelevant [simp]:
  "layers (h\<lparr>h_entry_point := e\<rparr>) = layers h" "adj (h\<lparr>h_entry_point := e\<rparr>) = adj h"
  "hnsw_points (h\<lparr>h_entry_point := e\<rparr>) = hnsw_points h"
  "base_inv (h\<lparr>h_entry_point := e\<rparr>) = base_inv h" "edges_ok (h\<lparr>h_entry_point := e\<rparr>) = edges_ok h"
proof -
  let ?h = "h\<lparr>h_entry_point := e\<rparr>"
  show a: "layers ?h = layers h" by (simp add: fun_eq_iff layers_def)
  show b: "adj ?h = adj h" by (simp add: fun_eq_iff adj_def a)
  have c: "m_max ?h = m_max h" "on_layer ?h = on_layer h" "vec_of ?h = vec_of h"
    by (simp_all add: fun_eq_iff m_max_def on_layer_def vec_of_def a)
  show "hnsw_points ?h = hnsw_points h" by (simp add: fun_eq_iff hnsw_points_def c cong: option.case_cong if_cong)
  show "base_inv ?h = base_inv h" "edges_ok ?h = edges_ok h"
    by (simp_all add: base_inv_def edges_ok_def a b c)
qed

lemma insert_new_alloc:
  assumes "random_level lv h = (k, h0)"
  shows "insert_new K lv i v h =
    (let new_idx = of_nat (nnodes h0); h1 = alloc i v k h0 in
     case h_entry_point h1 of
       None \<Rightarrow> Some (h1\<lparr>h_entry_point := Some new_idx\<rparr>)
     | Some entry \<Rightarrow>
         (case vget (h_nodes h1) (unat entry) of None \<Rightarrow> None | Some en \<Rightarrow>
          case descend K h1 v k (top_layer en) entry of None \<Rightarrow> None | Some cur \<Rightarrow>
          case connect_layers K v new_idx (min k (top_layer en)) (h1, cur) of None \<Rightarrow> None
          | Some (h2, _) \<Rightarrow> Some (if k > top_layer en then h2\<lparr>h_entry_point := Some new_idx\<rparr> else h2)))"
  unfolding insert_new_def alloc_def Let_def assms prod.case ..

lemma insert_new_ok:
  assumes "hnsw_inv h" "length v = h_dim h" "nnodes h < 2 ^ 32" "h_id_to_node h i = None"
  shows "\<exists>h'. insert_new K lv i v h = Some h' \<and> hnsw_inv h' \<and> hnsw_points h' = (hnsw_points h)(i \<mapsto> v) \<and>
    h_dim h' = h_dim h \<and> h_metric h' = h_metric h \<and> nnodes h' = nnodes h + 1"
proof -
  obtain k r where k: "random_level lv h = (k, h\<lparr>h_rng := r\<rparr>)"
    by (cases "next_unit (h_rng h)") (simp add: random_level_def)
  define h0 where h0: "h0 = h\<lparr>h_rng := r\<rparr>"
  note k = k [folded h0]
  have f0: "h_nodes h0 = h_nodes h" "h_dim h0 = h_dim h" "h_metric h0 = h_metric h" "h_entry_point h0 = h_entry_point h"
    "h_id_to_node h0 = h_id_to_node h" "h_deleted h0 = h_deleted h" "h_live h0 = h_live h" "h_params h0 = h_params h"
    "layers h0 = layers h" by (simp_all add: h0)
  have inv0: "base_inv h0" "edges_ok h0" "entry_ok h0" and pts0: "hnsw_points h0 = hnsw_points h"
    using assms(1) by (simp_all add: hnsw_inv_def h0)
  let ?h = "alloc i v k h0" and ?new = "of_nat (nnodes h) :: u32"
  have new: "unat ?new = nnodes h" using assms(3) by (rule unat_of_nat_u32)
  have b1: "base_inv ?h" "hnsw_points ?h = (hnsw_points h)(i \<mapsto> v)"
    using base_inv_alloc [OF inv0(1), of v i k] assms f0 pts0 by simp_all
  note e1 = edges_ok_alloc [OF inv0(2), of i v k]
  have dm: "h_dim ?h = h_dim h" "h_metric ?h = h_metric h" "h_entry_point ?h = h_entry_point h"
    "nnodes ?h = nnodes h + 1"
    by (simp_all add: alloc_def f0)
  show ?thesis
  proof (cases "h_entry_point h")
    case None
    then have N: "h_nodes h = []" using assms(1) by (simp add: hnsw_inv_def entry_ok_def)
    let ?h' = "?h\<lparr>h_entry_point := Some ?new\<rparr>"
    have "insert_new K lv i v h = Some ?h'"
      using None dm f0 by (simp add: insert_new_alloc [OF k])
    moreover have "base_inv ?h'" "hnsw_points ?h' = hnsw_points ?h" "edges_ok ?h'"
      using b1(1) e1 by simp_all
    moreover have "entry_ok ?h'" using N f0 new by (simp add: entry_ok_def alloc_def)
    ultimately show ?thesis using b1 dm by (simp add: hnsw_inv_def)
  next
    case (Some e)
    then have e: "unat e < nnodes h" and etop: "\<And>n. n < nnodes h \<Longrightarrow> layers h n \<le> layers h (unat e)"
      using assms(1) by (simp_all add: hnsw_inv_def entry_ok_def)
    have lpos: "0 < layers h (unat e)" using assms(1) e by (simp add: hnsw_inv_def base_invD)
    have le: "layers ?h (unat e) = layers h (unat e)" using e f0 by (simp add: layers_alloc)
    have ln: "layers ?h (nnodes h) = k + 1" using layers_alloc [of "nnodes h" h0 i v k] f0 by simp
    define el where "el = layers h (unat e) - 1"
    have el: "top_layer (h_nodes ?h ! unat e) = el" using le by (simp add: top_layer_def layers_def el_def)
    have ur: "unreached ?h ?new l" for l using unreached_alloc [OF inv0(2)] new f0 by simp
    have "others ?h ?new el e"
      using e le lpos new dm by (auto simp: others_def on_layer_def el_def)
    then obtain c where c: "descend K ?h v k el e = Some c" "others ?h ?new (min k el) c"
      using descend_ok [of k el ?h "others ?h ?new" e K v] closed_others [OF e1 ur] others_mono by blast
    have "on_layer ?h (min k el) ?new" using new dm ln by (simp add: on_layer_def)
    then obtain h2 e2 where h2: "connect_layers K v ?new (min k el) (?h, c) = Some (h2, e2)" "same_nodes ?h h2" "edges_ok h2"
      using connect_layers_ok [OF e1 ur _ c(2)] by blast
    note f2 = same_nodes_fields [OF h2(2)]
    let ?h' = "if k > el then h2\<lparr>h_entry_point := Some ?new\<rparr> else h2"
    have ret: "insert_new K lv i v h = Some ?h'"
      using Some e el c h2(1) f0 dm by (simp add: insert_new_alloc [OF k])
    have l2: "layers h2 n = (if n = nnodes h then k + 1 else layers h n)" if "n \<le> nnodes h" for n
      using that h2(2) layers_alloc [of n h0 i v k] f0 by (simp add: same_nodes_def)
    have n2: "nnodes h2 = Suc (nnodes h)" "h_entry_point h2 = Some e" using f2 dm Some by simp_all
    have el1: "layers h (unat e) = Suc el" using lpos by (simp add: el_def)
    have "layers h2 n \<le> Suc (max k el)" if "n < nnodes h2" for n
      using that etop [of n] l2 [of n] n2(1) el1 by (auto simp: less_Suc_eq)
    moreover have "layers h2 (unat e) = Suc el" "layers h2 (nnodes h) = Suc k" using l2 e el1 by simp_all
    ultimately have "entry_ok ?h'"
      using n2 e new by (auto simp: entry_ok_def max_def less_Suc_eq split: if_splits)
    moreover have "base_inv ?h'" "hnsw_points ?h' = hnsw_points h2" "edges_ok ?h'"
      using base_inv_same [OF b1(1) h2(2)] h2(3) by simp_all
    ultimately show ?thesis using ret b1 points_same [OF b1(1) h2(2)] f2 dm by (simp add: hnsw_inv_def)
  qed
qed

end
