(* ===== verification/Hnsw_Index.thy ===== *)
theory Hnsw_Index
  imports Hnsw_Correct
begin

text \<open>
  The graph index as a \<open>VectorIndex\<close>: replacement, tombstones, query, and the interpretation
  of the index contract on the model of \<open>hnsw.rs\<close>.
\<close>

section \<open>Replacement and tombstones\<close>

lemma hnsw_points_id:
  assumes "base_inv h"
  shows "hnsw_points h i = Some v \<longleftrightarrow>
    (\<exists>x. h_id_to_node h i = Some x \<and> \<not> h_deleted h ! unat x \<and> v = vec_of h x)"
  by (auto simp: hnsw_points_def split: option.splits if_splits)

lemma dom_hnsw_points:
  assumes "base_inv h"
  shows "bij_betw (\<lambda>n. node_id (h_nodes h ! n)) {n. n < nnodes h \<and> \<not> h_deleted h ! n} (dom (hnsw_points h))"
proof -
  note D = base_invD [OF assms]
  have idx: "h_id_to_node h (node_id (h_nodes h ! n)) = Some (of_nat n)" "unat (of_nat n :: u32) = n"
    if "n < nnodes h" for n
  proof -
    show u: "unat (of_nat n :: u32) = n" using that D(2) by (intro unat_of_nat_u32) simp
    show "h_id_to_node h (node_id (h_nodes h ! n)) = Some (of_nat n)" using that u D(6) by simp
  qed
  have "inj_on (\<lambda>n. node_id (h_nodes h ! n)) {n. n < nnodes h \<and> \<not> h_deleted h ! n}"
    by (rule inj_onI) (metis (mono_tags, lifting) idx mem_Collect_eq option.inject)
  moreover have "(\<lambda>n. node_id (h_nodes h ! n)) ` {n. n < nnodes h \<and> \<not> h_deleted h ! n} = dom (hnsw_points h)"
  proof (rule set_eqI)
    fix i
    have "\<exists>x. h_id_to_node h i = Some x \<and> \<not> h_deleted h ! unat x"
      if "n < nnodes h" "\<not> h_deleted h ! n" "i = node_id (h_nodes h ! n)" for n
      using idx [OF that(1)] that by (intro exI [of _ "of_nat n"]) simp
    moreover have "\<exists>n < nnodes h. \<not> h_deleted h ! n \<and> i = node_id (h_nodes h ! n)"
      if "h_id_to_node h i = Some x" "\<not> h_deleted h ! unat x" for x
      using that D(6) [of i x] by auto
    moreover have "i \<in> dom (hnsw_points h) \<longleftrightarrow> (\<exists>x. h_id_to_node h i = Some x \<and> \<not> h_deleted h ! unat x)"
      unfolding domIff not_None_eq hnsw_points_id [OF assms] by blast
    ultimately show "i \<in> (\<lambda>n. node_id (h_nodes h ! n)) ` {n. n < nnodes h \<and> \<not> h_deleted h ! n} \<longleftrightarrow> i \<in> dom (hnsw_points h)"
      unfolding image_iff by blast
  qed
  ultimately show ?thesis by (simp add: bij_betw_def)
qed

lemma hnsw_live: "base_inv h \<Longrightarrow> h_live h = card (dom (hnsw_points h))"
  using bij_betw_same_card [OF dom_hnsw_points] base_invD(7) by simp

text \<open>Marking node \<open>n\<close> deleted or live.\<close>

definition mark :: "nat \<Rightarrow> bool \<Rightarrow> hnsw \<Rightarrow> hnsw" where
  "mark n dl h = h\<lparr>h_deleted := (h_deleted h)[n := dl], h_live := card {m. m < nnodes h \<and> \<not> (h_deleted h)[n := dl] ! m}\<rparr>"

lemma mark_fields [simp]:
  "h_nodes (mark n dl h) = h_nodes h" "h_dim (mark n dl h) = h_dim h" "h_metric (mark n dl h) = h_metric h"
  "h_id_to_node (mark n dl h) = h_id_to_node h" "h_deleted (mark n dl h) = (h_deleted h)[n := dl]"
  "h_entry_point (mark n dl h) = h_entry_point h" "h_params (mark n dl h) = h_params h"
  "h_live (mark n dl h) = card {m. m < nnodes h \<and> \<not> (h_deleted h)[n := dl] ! m}"
  by (simp_all add: mark_def)

lemma mark_graph [simp]:
  "layers (mark n dl h) = layers h" "adj (mark n dl h) = adj h" "vec_of (mark n dl h) = vec_of h"
  "edges_ok (mark n dl h) = edges_ok h" "entry_ok (mark n dl h) = entry_ok h"
proof -
  show a: "layers (mark n dl h) = layers h" by (simp add: fun_eq_iff layers_def)
  show b: "adj (mark n dl h) = adj h" by (simp add: fun_eq_iff adj_def a)
  show "vec_of (mark n dl h) = vec_of h" by (simp add: fun_eq_iff vec_of_def)
  have "on_layer (mark n dl h) = on_layer h" "m_max (mark n dl h) = m_max h"
    by (simp_all add: fun_eq_iff on_layer_def m_max_def a)
  then show "edges_ok (mark n dl h) = edges_ok h" by (simp add: edges_ok_def a b)
  show "entry_ok (mark n dl h) = entry_ok h" by (simp add: entry_ok_def a cong: option.case_cong)
qed

lemma mark_inv:
  assumes "base_inv h"
  shows "base_inv (mark n dl h)"
  using assms by (simp add: base_inv_def)

lemma mark_points:
  assumes "base_inv h" "h_id_to_node h i = Some x"
  shows "hnsw_points (mark (unat x) dl h) = (hnsw_points h)(i := if dl then None else Some (vec_of h x))"
proof
  fix j
  have x: "unat x < length (h_deleted h)" using id_bound [OF assms] base_invD(3) [OF assms(1)] by simp
  show "hnsw_points (mark (unat x) dl h) j = ((hnsw_points h)(i := if dl then None else Some (vec_of h x))) j"
  proof (cases "h_id_to_node h j")
    case None
    then show ?thesis using assms(2) by (auto simp: hnsw_points_def)
  next
    case (Some y)
    have "unat y = unat x \<longleftrightarrow> j = i"
      using Some assms(2) id_inj [OF assms(1)] by (metis option.inject word_unat_eq_iff)
    with Some x assms(2) show ?thesis by (cases "j = i") (simp_all add: hnsw_points_def nth_list_update)
  qed
qed

text \<open>Overwriting the vector of node \<open>n\<close>.\<close>

definition revec :: "nat \<Rightarrow> vec \<Rightarrow> hnsw \<Rightarrow> hnsw" where
  "revec n v h = h\<lparr>h_nodes := (h_nodes h)[n := (h_nodes h ! n)\<lparr>node_vector := v\<rparr>]\<rparr>"

lemma revec_nodes:
  "nnodes (revec n v h) = nnodes h" "m < nnodes h \<Longrightarrow> node_id (h_nodes (revec n v h) ! m) = node_id (h_nodes h ! m)"
  "m < nnodes h \<Longrightarrow> node_vector (h_nodes (revec n v h) ! m) = (if m = n then v else node_vector (h_nodes h ! m))"
  "m < nnodes h \<Longrightarrow> layers (revec n v h) m = layers h m" "m < nnodes h \<Longrightarrow> adj (revec n v h) m l = adj h m l"
  "h_deleted (revec n v h) = h_deleted h" "h_id_to_node (revec n v h) = h_id_to_node h" "h_live (revec n v h) = h_live h"
  "h_dim (revec n v h) = h_dim h" "h_entry_point (revec n v h) = h_entry_point h" "h_params (revec n v h) = h_params h"
  "h_metric (revec n v h) = h_metric h"
  by (cases "m = n"; simp add: revec_def layers_def adj_def)+

lemma revec_inv:
  assumes "hnsw_inv h" "length v = h_dim h" "h_id_to_node h i = Some x"
  shows "hnsw_inv (revec (unat x) v h)"
    "hnsw_points (revec (unat x) v h) = (if h_deleted h ! unat x then hnsw_points h else (hnsw_points h)(i \<mapsto> v))"
proof -
  let ?h = "revec (unat x) v h"
  note R = revec_nodes [where n = "unat x" and v = v and h = h]
  have b: "base_inv h" "edges_ok h" "entry_ok h" using assms(1) by (simp_all add: hnsw_inv_def)
  have x: "unat x < nnodes h" by (rule id_bound [OF b(1) assms(3)])
  have "base_inv ?h" using b(1) assms(2) R by (auto simp: base_inv_def)
  moreover have "m_max ?h = m_max h" "on_layer ?h = on_layer h" by (auto simp: fun_eq_iff m_max_def on_layer_def R)
  then have "edges_ok ?h" using b(2) R by (auto simp: edges_ok_def)
  moreover have "entry_ok ?h" using b(3) R x by (auto simp: entry_ok_def split: option.splits)
  ultimately show "hnsw_inv ?h" by (simp add: hnsw_inv_def)
  have "hnsw_points ?h j = (if h_deleted h ! unat x then hnsw_points h else (hnsw_points h)(i \<mapsto> v)) j" for j
  proof (cases "h_id_to_node h j")
    case None
    then show ?thesis using assms(3) by (auto simp: hnsw_points_def R)
  next
    case (Some y)
    have "unat y = unat x \<longleftrightarrow> j = i"
      using Some assms(3) id_inj [OF b(1)] by (metis option.inject word_unat_eq_iff)
    with Some assms(3) id_bound [OF b(1) Some] show ?thesis by (cases "j = i") (simp_all add: hnsw_points_def revec_nodes vec_of_def)
  qed
  then show "hnsw_points ?h = (if h_deleted h ! unat x then hnsw_points h else (hnsw_points h)(i \<mapsto> v))" by blast
qed

lemma copy_whole [simp]: "length xs = n \<Longrightarrow> length ys = n \<Longrightarrow> copy_from_slice xs 0 n ys = Some ys"
  by (simp add: copy_from_slice_def)

lemma hnsw_insert_ok:
  assumes "hnsw_inv h" "length v = h_dim h" "nnodes h < 2 ^ 32"
  shows "\<exists>h'. hnsw_insert K lv i v h = Some (Inr (), h') \<and> hnsw_inv h' \<and>
    hnsw_points h' = (hnsw_points h)(i \<mapsto> v) \<and> h_dim h' = h_dim h \<and> h_metric h' = h_metric h \<and> nnodes h' \<le> nnodes h + 1"
proof (cases "h_id_to_node h i")
  case None
  from insert_new_ok [OF assms None] obtain h' where "insert_new K lv i v h = Some h'" "hnsw_inv h'"
    "hnsw_points h' = (hnsw_points h)(i \<mapsto> v)" "h_dim h' = h_dim h" "h_metric h' = h_metric h" "nnodes h' = nnodes h + 1"
    by blast
  with None assms(2) show ?thesis by (simp add: hnsw_insert_def)
next
  case (Some x)
  have b: "base_inv h" using assms(1) by (simp add: hnsw_inv_def)
  note D = base_invD [OF b]
  have x: "unat x < nnodes h" by (rule id_bound [OF b Some])
  let ?r = "revec (unat x) v h"
  note R = revec_inv [OF assms(1,2) Some]
  have ret: "hnsw_insert K lv i v h = Some (Inr (),
      if h_deleted h ! unat x then ?r\<lparr>h_deleted := (h_deleted h)[unat x := False], h_live := h_live h + 1\<rparr> else ?r)"
    using assms(2) Some x D(3,4) by (simp add: hnsw_insert_def revec_def Let_def)
  show ?thesis
  proof (cases "h_deleted h ! unat x")
    case False
    then show ?thesis using ret R by (simp add: revec_nodes)
  next
    case True
    have "{m. m < nnodes h \<and> \<not> (h_deleted h)[unat x := False] ! m} = insert (unat x) {m. m < nnodes h \<and> \<not> h_deleted h ! m}"
      using x D(3) by (auto simp: nth_list_update)
    then have "card {m. m < nnodes h \<and> \<not> (h_deleted h)[unat x := False] ! m} = h_live h + 1"
      using True D(7) by simp
    then have m: "?r\<lparr>h_deleted := (h_deleted h)[unat x := False], h_live := h_live h + 1\<rparr> = mark (unat x) False ?r"
      by (simp add: mark_def revec_nodes)
    have rb: "base_inv ?r" using R(1) by (simp add: hnsw_inv_def)
    have "hnsw_inv (mark (unat x) False ?r)" using R(1) mark_inv [OF rb] by (simp add: hnsw_inv_def)
    moreover have "hnsw_points (mark (unat x) False ?r) = (hnsw_points h)(i \<mapsto> v)"
      using mark_points [OF rb, of i x False] Some R(2) True x by (simp add: revec_nodes vec_of_def)
    ultimately show ?thesis using ret True m by (simp add: revec_nodes)
  qed
qed

lemma hnsw_delete_ok:
  assumes "hnsw_inv h"
  shows "\<exists>h'. hnsw_delete i h = Some (hnsw_points h i \<noteq> None, h') \<and> hnsw_inv h' \<and>
    hnsw_points h' = (hnsw_points h)(i := None) \<and> h_dim h' = h_dim h \<and> h_metric h' = h_metric h \<and> nnodes h' = nnodes h"
proof (cases "hnsw_points h i")
  case None
  then have "(hnsw_points h)(i := None) = hnsw_points h" by auto
  moreover have "hnsw_delete i h = Some (False, h)"
  proof (cases "h_id_to_node h i")
    case (Some x)
    then have "unat x < length (h_deleted h)" "h_deleted h ! unat x"
      using None id_bound [of h i x] assms base_invD(3) [of h]
      by (auto simp: hnsw_inv_def hnsw_points_def split: if_splits)
    with Some show ?thesis by (simp add: hnsw_delete_def)
  qed (simp add: hnsw_delete_def)
  ultimately show ?thesis using assms None by simp
next
  case (Some v)
  have b: "base_inv h" using assms by (simp add: hnsw_inv_def)
  note D = base_invD [OF b]
  from Some obtain x where x: "h_id_to_node h i = Some x" "\<not> h_deleted h ! unat x"
    using hnsw_points_id [OF b] by blast
  have xn: "unat x < nnodes h" by (rule id_bound [OF b x(1)])
  let ?L = "{m. m < nnodes h \<and> \<not> h_deleted h ! m}"
  have "{m. m < nnodes h \<and> \<not> (h_deleted h)[unat x := True] ! m} = ?L - {unat x}"
    using xn D(3) by (auto simp: nth_list_update)
  moreover have L: "unat x \<in> ?L" "finite ?L" using xn x(2) by simp_all
  ultimately have c: "card {m. m < nnodes h \<and> \<not> (h_deleted h)[unat x := True] ! m} = h_live h - 1"
    using D(7) by (simp add: card_Diff_singleton)
  have "h_live h \<noteq> 0" using D(7) L by auto
  then have "hnsw_delete i h = Some (True, mark (unat x) True h)"
    using x xn D(3) c by (simp add: hnsw_delete_def mark_def)
  moreover have "hnsw_inv (mark (unat x) True h)" using assms mark_inv [OF b] by (simp add: hnsw_inv_def)
  moreover have "hnsw_points (mark (unat x) True h) = (hnsw_points h)(i := None)"
    using mark_points [OF b x(1), of True] by simp
  ultimately show ?thesis using Some by simp
qed

lemma hnsw_get_vector_ok: "hnsw_inv h \<Longrightarrow> hnsw_get_vector h i = Some (hnsw_points h i)"
  using id_bound [of h i] base_invD(3) [of h]
  by (cases "h_id_to_node h i") (auto simp: hnsw_inv_def hnsw_get_vector_def hnsw_points_def vec_of_def)

section \<open>Query\<close>

lemma closed_on_layer: "edges_ok h \<Longrightarrow> closed_at h l (on_layer h l)"
  by (auto simp: closed_at_def on_layer_def edges_ok_def)

definition hits_of :: "hnsw \<Rightarrow> cand list \<Rightarrow> (u64 \<times> f32) list" where
  "hits_of h found =
     map (\<lambda>c. (node_id (h_nodes h ! unat (snd c)), fst c)) (filter (\<lambda>c. \<not> h_deleted h ! unat (snd c)) found)"

lemma collect_hits_ok:
  assumes "\<forall>c \<in> set found. unat (snd c) < nnodes h" "length (h_deleted h) = nnodes h" "length out < k"
  shows "collect_hits h k out found = Some (out @ take (k - length out) (hits_of h found))"
  using assms(1,3)
proof (induction found arbitrary: out)
  case (Cons c found)
  obtain d n where c: "c = (d, n)" by fastforce
  with Cons.prems have n: "unat n < nnodes h" "unat n < length (h_deleted h)" using assms(2) by simp_all
  show ?case
  proof (cases "h_deleted h ! unat n")
    case True
    then show ?thesis using Cons c n by (simp add: hits_of_def)
  next
    case False
    let ?out = "out @ [(node_id (h_nodes h ! unat n), d)]"
    have hs: "hits_of h (c # found) = (node_id (h_nodes h ! unat n), d) # hits_of h found"
      using False c by (simp add: hits_of_def)
    show ?thesis
    proof (cases "length ?out = k")
      case True
      then have "k - length out = 1" by simp
      then show ?thesis unfolding hs using False c n True by simp
    next
      case neq: False
      with Cons.prems have lt: "length ?out < k" by simp
      then have "k - length out = Suc (k - length ?out)" by simp
      with Cons.IH [OF _ lt] Cons.prems show ?thesis unfolding hs using False c n neq by simp
    qed
  qed
qed (simp add: hits_of_def)

lemma by_dist_total:
  "\<forall>c \<in> A. \<not> f32_is_nan (fst c) \<Longrightarrow> total_preorder_on A by_dist"
  by (auto simp: total_preorder_on_def by_dist_def f32_cmp_le_def)

lemma hits_of_ok:
  assumes "hnsw_inv h" "\<forall>c \<in> set found. cand_ok K h q (on_layer h l) c" "distinct (map snd found)"
  shows "hits_ok (\<lambda>q v. K (h_metric h) v q) (hnsw_points h) (node_vector ` set (h_nodes h)) q k
    (take k (hits_of h (sort_by by_dist found)))"
proof -
  let ?d = "\<lambda>v. K (h_metric h) v q" and ?s = "sort_by by_dist found" and ?hs = "hits_of h (sort_by by_dist found)"
  have b: "base_inv h" using assms(1) by (simp add: hnsw_inv_def)
  note D = base_invD [OF b]
  have c: "unat (snd c) < nnodes h" "fst c = ?d (vec_of h (snd c))"
    "h_id_to_node h (node_id (h_nodes h ! unat (snd c))) = Some (snd c)" if "c \<in> set found" for c
  proof -
    have "cand_ok K h q (on_layer h l) c" using assms(2) that by blast
    then show n: "unat (snd c) < nnodes h" and "fst c = ?d (vec_of h (snd c))"
      by (simp_all add: cand_ok_def on_layer_def)
    show "h_id_to_node h (node_id (h_nodes h ! unat (snd c))) = Some (snd c)"
      unfolding D(6) using n by (intro conjI refl)
  qed
  have "inj_on (\<lambda>x. node_id (h_nodes h ! unat x)) (snd ` set found)"
  proof (rule inj_onI)
    fix x y
    assume xy: "x \<in> snd ` set found" "y \<in> snd ` set found" and eq: "node_id (h_nodes h ! unat x) = node_id (h_nodes h ! unat y)"
    have "h_id_to_node h (node_id (h_nodes h ! unat x)) = Some x" using xy(1) c(3) by auto
    moreover have "h_id_to_node h (node_id (h_nodes h ! unat x)) = Some y" unfolding eq using xy(2) c(3) by auto
    ultimately show "x = y" by simp
  qed
  moreover have "distinct (map snd ?s)" using assms(3) by (simp add: distinct_map_sort_by)
  ultimately have "distinct (map (\<lambda>x. node_id (h_nodes h ! unat x)) (map snd ?s))"
    unfolding distinct_map [of _ "map snd ?s"] by simp
  then have "distinct (map fst ?hs)"
    by (simp add: hits_of_def comp_def distinct_map_filter)
  then have dist: "distinct (map fst (take k ?hs))" by (metis distinct_take take_map)
  have pts: "\<exists>v. hnsw_points h i = Some v \<and> s = ?d v" if "(i, s) \<in> set (take k ?hs)" for i s
  proof -
    from in_set_takeD [OF that] obtain a x where ax: "(a, x) \<in> set found" "\<not> h_deleted h ! unat x"
      "i = node_id (h_nodes h ! unat x)" "s = a" by (auto simp: hits_of_def)
    with c [OF ax(1)] show ?thesis using hnsw_points_id [OF b] by auto
  qed
  have "sorted_wrt (\<lambda>a b. f32_cmp_le (snd a) (snd b)) (take k ?hs)"
    if "\<forall>v \<in> node_vector ` set (h_nodes h). \<not> f32_is_nan (?d v)"
  proof -
    have "\<forall>c \<in> set found. \<not> f32_is_nan (fst c)" using that c by (auto simp: vec_of_def)
    then have "sorted_wrt by_dist ?s" by (intro sorted_sort_by by_dist_total) simp
    then have "sorted_wrt by_dist (filter (\<lambda>c. \<not> h_deleted h ! unat (snd c)) ?s)" by (rule sorted_wrt_filter)
    then have "sorted_wrt (\<lambda>a b. f32_cmp_le (snd a) (snd b)) ?hs"
      by (simp add: hits_of_def sorted_wrt_map by_dist_def [abs_def])
    then show ?thesis by (rule sorted_wrt_take)
  qed
  with dist pts show ?thesis by (auto simp: hits_ok_def)
qed

lemma hnsw_search_found:
  assumes "hnsw_inv h" "length q = h_dim h" "k \<noteq> 0" "h_live h \<noteq> 0" "h_entry_point h = Some e"
  shows "\<exists>c R. on_layer h 0 c \<and> search_layer K h q c (max ef k) 0 = Some R \<and> distinct (map snd R) \<and>
    (\<forall>c \<in> set R. cand_ok K h q (on_layer h 0) c) \<and>
    hnsw_search K h q k ef = Some (Inr (take k (hits_of h (sort_by by_dist R))))"
proof -
  have b: "base_inv h" "edges_ok h" "unat e < nnodes h"
    using assms(1,5) by (auto simp: hnsw_inv_def entry_ok_def)
  have "on_layer h (top_layer (h_nodes h ! unat e)) e"
    using b base_invD(5) [OF b(1,3)] by (simp add: on_layer_def top_layer_def layers_def)
  then obtain c where c: "descend K h q 0 (top_layer (h_nodes h ! unat e)) e = Some c" "on_layer h 0 c"
    using descend_ok [of 0 "top_layer (h_nodes h ! unat e)" h "on_layer h" e K q] closed_on_layer [OF b(2)]
    by (auto simp: on_layer_def)
  obtain R where R: "search_layer K h q c (max ef k) 0 = Some R" "distinct (map snd R)"
      "\<forall>c \<in> set R. cand_ok K h q (on_layer h 0) c"
    using search_layer_ok [OF closed_on_layer [OF b(2)] c(2)] by metis
  have "\<forall>c \<in> set (sort_by by_dist R). unat (snd c) < nnodes h" using R(3) by (simp add: cand_ok_def on_layer_def)
  from collect_hits_ok [OF this base_invD(3) [OF b(1)], of "[]" k] assms(3)
  have "hnsw_search K h q k ef = Some (Inr (take k (hits_of h (sort_by by_dist R))))"
    using assms(2-5) b(3) c(1) R(1) by (simp add: hnsw_search_def)
  with c(2) R show ?thesis by blast
qed

lemma hnsw_search_ok:
  assumes "hnsw_inv h" "length q = h_dim h"
  shows "\<exists>hits. hnsw_search K h q k ef = Some (Inr hits) \<and>
    hits_ok (\<lambda>q v. K (h_metric h) v q) (hnsw_points h) (node_vector ` set (h_nodes h)) q k hits"
proof (cases "k = 0 \<or> h_live h = 0 \<or> h_entry_point h = None")
  case True
  then have "hnsw_search K h q k ef = Some (Inr [])" using assms(2) by (auto simp: hnsw_search_def)
  then show ?thesis by (simp add: hits_ok_def)
next
  case False
  then obtain e where "h_entry_point h = Some e" "k \<noteq> 0" "h_live h \<noteq> 0" by blast
  from hnsw_search_found [OF assms this(2,3,1)] hits_of_ok [OF assms(1)] show ?thesis by metis
qed

interpretation hnsw_index: vector_index hnsw_inv hnsw_points h_dim h_live nnodes
  "hnsw_insert K lv" hnsw_delete hnsw_get_vector "hnsw_search K" "\<lambda>h q v. K (h_metric h) v q"
  "\<lambda>h. node_vector ` set (h_nodes h)" for K lv
proof unfold_locales
  fix x :: hnsw and v q :: vec and i :: u64 and k ef :: nat
  assume inv: "hnsw_inv x"
  show "hnsw_get_vector x i = Some (hnsw_points x i)" by (rule hnsw_get_vector_ok [OF inv])
  show "h_live x = card (dom (hnsw_points x))" using inv by (simp add: hnsw_inv_def hnsw_live)
  show "\<exists>x'. hnsw_delete i x = Some (hnsw_points x i \<noteq> None, x') \<and> hnsw_inv x' \<and>
      hnsw_points x' = (hnsw_points x)(i := None) \<and> h_dim x' = h_dim x \<and> nnodes x' = nnodes x"
    using hnsw_delete_ok [OF inv, of i] by blast
  show "hnsw_insert K lv i v x = Some (Inl (DimMismatch (h_dim x) (length v)), x)" if "length v \<noteq> h_dim x"
    using that by (simp add: hnsw_insert_def)
  show "\<exists>x'. hnsw_insert K lv i v x = Some (Inr (), x') \<and> hnsw_inv x' \<and>
      hnsw_points x' = (hnsw_points x)(i \<mapsto> v) \<and> h_dim x' = h_dim x \<and> nnodes x' \<le> nnodes x + 1"
    if "length v = h_dim x" "nnodes x < 2 ^ 32" using hnsw_insert_ok [OF inv that, of K lv i] by blast
  show "hnsw_search K x q k ef = Some (Inl (DimMismatch (h_dim x) (length q)))" if "length q \<noteq> h_dim x"
    using that by (simp add: hnsw_search_def)
  show "\<exists>hits. hnsw_search K x q k ef = Some (Inr hits) \<and>
      hits_ok (\<lambda>q v. K (h_metric x) v q) (hnsw_points x) (node_vector ` set (h_nodes x)) q k hits"
    if "length q = h_dim x" by (rule hnsw_search_ok [OF inv that])
qed

end
