(* ===== verification/Hnsw_Props.thy ===== *)
theory Hnsw_Props
  imports Hnsw_Index
begin

text \<open>
  The structural self-check \<open>validate_invariants\<close>, histories of index operations, completeness
  of the beam search when its breadth covers the graph, and the properties of the graph index.
\<close>

section \<open>validate\_invariants\<close>

datatype violation =
    EntryOutOfRange
  | EntryMissing
  | IdMapInconsistent nat
  | DegreeExceeded nat nat
  | DanglingNeighbor nat nat u32
  | SelfNeighbor nat nat
  | LiveMismatch nat

fun check_adj :: "nat \<Rightarrow> u32 \<Rightarrow> nat \<Rightarrow> u32 list \<Rightarrow> violation option" where
  "check_adj i n layer [] = None"
| "check_adj i n layer (nbr # ns) =
     (if nbr \<ge> n then Some (DanglingNeighbor i layer nbr)
      else if nbr = of_nat i then Some (SelfNeighbor i layer)
      else check_adj i n layer ns)"

fun check_layers :: "hnsw \<Rightarrow> nat \<Rightarrow> nat \<Rightarrow> u32 list list \<Rightarrow> violation option" where
  "check_layers h i layer [] = None"
| "check_layers h i layer (ns # rest) =
     (if length ns > m_max h layer then Some (DegreeExceeded i layer)
      else case check_adj i (of_nat (length (h_nodes h))) layer ns of
             Some e \<Rightarrow> Some e
           | None \<Rightarrow> check_layers h i (layer + 1) rest)"

text \<open>The loop over the nodes from index \<open>i\<close> on; it counts the live ones.\<close>

fun check_nodes :: "hnsw \<Rightarrow> nat \<Rightarrow> nat \<Rightarrow> hnode list \<Rightarrow> (violation + nat) option" where
  "check_nodes h i counted [] = Some (Inr counted)"
| "check_nodes h i counted (nd # nds) =
     (case vget (h_deleted h) i of None \<Rightarrow> None
      | Some dl \<Rightarrow>
        let counted = (if \<not> dl then counted + 1 else counted) in
        if h_id_to_node h (node_id nd) \<noteq> Some (of_nat i) then Some (Inl (IdMapInconsistent i))
        else case check_layers h i 0 (node_neighbors nd) of
               Some e \<Rightarrow> Some (Inl e)
             | None \<Rightarrow> check_nodes h (i + 1) counted nds)"

definition validate_invariants :: "hnsw \<Rightarrow> (violation + unit) option" where
  "validate_invariants h =
     (let n = (of_nat (length (h_nodes h)) :: u32);
          bad_entry = (case h_entry_point h of
             Some ep \<Rightarrow> if ep \<ge> n then Some EntryOutOfRange else None
           | None \<Rightarrow> if h_nodes h \<noteq> [] then Some EntryMissing else None)
      in case bad_entry of Some e \<Rightarrow> Some (Inl e)
         | None \<Rightarrow>
           (case check_nodes h 0 0 (h_nodes h) of None \<Rightarrow> None
            | Some (Inl e) \<Rightarrow> Some (Inl e)
            | Some (Inr counted) \<Rightarrow>
                Some (if counted \<noteq> h_live h then Inl (LiveMismatch counted) else Inr ())))"

lemma check_adj_ok:
  "\<forall>x \<in> set ns. x < n \<and> x \<noteq> of_nat i \<Longrightarrow> check_adj i n layer ns = None"
  by (induction ns) (auto simp: not_le)

lemma check_layers_ok:
  assumes "\<And>k. k < length rest \<Longrightarrow> length (rest ! k) \<le> m_max h (layer + k) \<and>
    (\<forall>x \<in> set (rest ! k). x < of_nat (nnodes h) \<and> x \<noteq> of_nat i)"
  shows "check_layers h i layer rest = None"
  using assms
proof (induction rest arbitrary: layer)
  case (Cons a rest)
  have "length a \<le> m_max h layer" "check_adj i (of_nat (nnodes h)) layer a = None"
    using Cons.prems [of 0] by (auto intro: check_adj_ok)
  moreover have "check_layers h i (layer + 1) rest = None"
    using Cons.prems [of "Suc _"] by (intro Cons.IH) force
  ultimately show ?case by simp
qed simp

lemma check_nodes_ok:
  assumes "hnsw_inv h" "nnodes h < 2 ^ 32" "nds = drop i (h_nodes h)" "i \<le> nnodes h"
  shows "check_nodes h i counted nds =
    Some (Inr (counted + card {n. i \<le> n \<and> n < nnodes h \<and> \<not> h_deleted h ! n}))"
  using assms(3,4)
proof (induction nds arbitrary: i counted)
  case Nil
  then have "{n. i \<le> n \<and> n < nnodes h \<and> \<not> h_deleted h ! n} = {}" by auto
  then show ?case by simp
next
  case (Cons nd nds)
  have b: "base_inv h" "edges_ok h" using assms(1) by (simp_all add: hnsw_inv_def)
  note D = base_invD [OF b(1)]
  have i: "i < nnodes h" using Cons.prems by (metis drop_all list.discI not_le)
  then have nd: "nd = h_nodes h ! i" and r: "nds = drop (Suc i) (h_nodes h)"
    using Cons.prems(1) by (simp_all add: Cons_nth_drop_Suc [symmetric])
  have ui: "unat (of_nat i :: u32) = i" "unat (of_nat (nnodes h) :: u32) = nnodes h"
    using i assms(2) by (auto intro!: unat_of_nat_u32)
  have "h_id_to_node h (node_id nd) = Some (of_nat i)" unfolding D(6) using i ui nd by simp
  moreover have "check_layers h i 0 (node_neighbors nd) = None"
  proof (rule check_layers_ok)
    fix k
    assume k: "k < length (node_neighbors nd)"
    then have kl: "k < layers h i" "adj h i k = node_neighbors nd ! k" using nd by (simp_all add: layers_def adj_def)
    have "x < of_nat (nnodes h) \<and> x \<noteq> of_nat i" if "x \<in> set (adj h i k)" for x
    proof -
      have "on_layer h k x" "unat x \<noteq> i" using b(2) i kl(1) that by (auto simp: edges_ok_def)
      then show ?thesis using ui by (auto simp: word_less_nat_alt on_layer_def)
    qed
    moreover have "length (adj h i k) \<le> m_max h k" using b(2) i kl(1) by (simp add: edges_ok_def)
    ultimately show "length (node_neighbors nd ! k) \<le> m_max h (0 + k) \<and>
        (\<forall>x \<in> set (node_neighbors nd ! k). x < of_nat (nnodes h) \<and> x \<noteq> of_nat i)"
      unfolding kl(2) by simp
  qed
  moreover have "vget (h_deleted h) i = Some (h_deleted h ! i)" using i D(3) by simp
  moreover have "{n. i \<le> n \<and> n < nnodes h \<and> \<not> h_deleted h ! n} =
      (if h_deleted h ! i then {} else {i}) \<union> {n. Suc i \<le> n \<and> n < nnodes h \<and> \<not> h_deleted h ! n}"
    using i by (auto simp: le_less Suc_le_eq)
  then have "card {n. i \<le> n \<and> n < nnodes h \<and> \<not> h_deleted h ! n} =
      (if h_deleted h ! i then 0 else 1) + card {n. Suc i \<le> n \<and> n < nnodes h \<and> \<not> h_deleted h ! n}"
    by (simp add: card_insert_if)
  ultimately show ?case using Cons.IH [OF r] i by simp
qed

lemma validate_ok:
  assumes "hnsw_inv h" "nnodes h < 2 ^ 32"
  shows "validate_invariants h = Some (Inr ())"
proof -
  have "unat (of_nat (nnodes h) :: u32) = nnodes h" using assms(2) by (rule unat_of_nat_u32)
  moreover have "entry_ok h" "h_live h = card {n. n < nnodes h \<and> \<not> h_deleted h ! n}"
    using assms(1) by (simp_all add: hnsw_inv_def base_inv_def)
  moreover have "check_nodes h 0 0 (h_nodes h) = Some (Inr (card {n. n < nnodes h \<and> \<not> h_deleted h ! n}))"
    using check_nodes_ok [OF assms, of "h_nodes h" 0 0] by simp
  ultimately show ?thesis
    by (auto simp: validate_invariants_def entry_ok_def Let_def word_le_nat_alt split: option.splits)
qed

section \<open>Histories\<close>

datatype index_op = Insert u64 vec | Remove u64

text \<open>A history of calls; \<open>None\<close> is a panic, an error result leaves the index as it was.\<close>

fun hnsw_run :: "kernel \<Rightarrow> level_fn \<Rightarrow> index_op list \<Rightarrow> hnsw \<Rightarrow> hnsw option" where
  "hnsw_run K lv [] h = Some h"
| "hnsw_run K lv (Insert i v # ops) h =
     (case hnsw_insert K lv i v h of None \<Rightarrow> None | Some (_, h') \<Rightarrow> hnsw_run K lv ops h')"
| "hnsw_run K lv (Remove i # ops) h =
     (case hnsw_delete i h of None \<Rightarrow> None | Some (_, h') \<Rightarrow> hnsw_run K lv ops h')"

text \<open>The contents a history should produce.\<close>

fun spec_run :: "nat \<Rightarrow> index_op list \<Rightarrow> (u64 \<rightharpoonup> vec) \<Rightarrow> (u64 \<rightharpoonup> vec)" where
  "spec_run dim [] m = m"
| "spec_run dim (Insert i v # ops) m = spec_run dim ops (if length v = dim then m(i \<mapsto> v) else m)"
| "spec_run dim (Remove i # ops) m = spec_run dim ops (m(i := None))"

lemma hnsw_run_ok:
  assumes "hnsw_inv h" "nnodes h + length ops < 2 ^ 32"
  shows "\<exists>h'. hnsw_run K lv ops h = Some h' \<and> hnsw_inv h' \<and> nnodes h' \<le> nnodes h + length ops \<and>
    hnsw_points h' = spec_run (h_dim h) ops (hnsw_points h) \<and> h_dim h' = h_dim h"
  using assms
proof (induction ops arbitrary: h)
  case Nil
  then show ?case by simp
next
  case (Cons op ops)
  have "\<exists>r h1. (case op of Insert i v \<Rightarrow> hnsw_insert K lv i v h = Some (r, h1)
         | Remove i \<Rightarrow> map_option snd (hnsw_delete i h) = Some h1) \<and>
      hnsw_inv h1 \<and> nnodes h1 \<le> nnodes h + 1 \<and> h_dim h1 = h_dim h \<and>
      spec_run (h_dim h) (op # ops) (hnsw_points h) = spec_run (h_dim h) ops (hnsw_points h1)"
  proof (cases op)
    case (Insert i v)
    show ?thesis
    proof (cases "length v = h_dim h")
      case True
      then show ?thesis using hnsw_insert_ok [of h v K lv i] Cons.prems Insert by auto
    next
      case False
      then show ?thesis using hnsw_index.insert_mismatch [of h v K lv i] Cons.prems Insert by auto
    qed
  next
    case (Remove i)
    then show ?thesis using hnsw_delete_ok [of h i] Cons.prems by auto
  qed
  then obtain r h1 where h1: "case op of Insert i v \<Rightarrow> hnsw_insert K lv i v h = Some (r, h1)
         | Remove i \<Rightarrow> map_option snd (hnsw_delete i h) = Some h1"
    and inv: "hnsw_inv h1" "nnodes h1 \<le> nnodes h + 1" "h_dim h1 = h_dim h"
      "spec_run (h_dim h) (op # ops) (hnsw_points h) = spec_run (h_dim h) ops (hnsw_points h1)" by blast
  from h1 have "hnsw_run K lv (op # ops) h = hnsw_run K lv ops h1" by (auto split: index_op.splits)
  with Cons.IH [OF inv(1)] inv Cons.prems show ?case by fastforce
qed

lemma hnsw_new_inv: "hnsw_new dim m = Some h \<Longrightarrow> hnsw_inv h \<and> hnsw_points h = Map.empty \<and> nnodes h = 0 \<and> h_dim h = dim \<and> h_metric h = m"
  by (auto simp: hnsw_new_def hnsw_with_params_def hnsw_inv_def base_inv_def edges_ok_def entry_ok_def
      hnsw_points_def fun_eq_iff split: if_splits)

lemma hnsw_new_ok: "0 < dim \<Longrightarrow> \<exists>h. hnsw_new dim m = Some h"
  by (simp add: hnsw_new_def hnsw_with_params_def default_params_def)

section \<open>Completeness of a wide beam\<close>

abbreviation lreach :: "hnsw \<Rightarrow> nat \<Rightarrow> u32 \<Rightarrow> u32 \<Rightarrow> bool" where
  "lreach h l \<equiv> (\<lambda>x y. y \<in> set (adj h (unat x) l))\<^sup>*\<^sup>*"

definition all_nodes :: "hnsw \<Rightarrow> u32 set" where
  "all_nodes h = {x. unat x < nnodes h}"

lemma card_nodes: "V \<subseteq> all_nodes h \<Longrightarrow> card V \<le> nnodes h"
proof -
  assume "V \<subseteq> all_nodes h"
  then have "unat ` V \<subseteq> {..<nnodes h}" by (auto simp: all_nodes_def)
  moreover have "inj_on unat V" by (rule inj_onI) (simp add: word_unat_eq_iff)
  ultimately show ?thesis by (metis card_image card_lessThan card_mono finite_lessThan)
qed

text \<open>Nothing is ever dropped: the results are exactly the visited nodes.\<close>

definition beam_full :: "beam \<Rightarrow> bool" where
  "beam_full st = (case st of (V, C, R) \<Rightarrow> snd ` set R = V)"

lemma visit_full:
  assumes "beam_ok K h q ef P (V, C, R)" "beam_full (V, C, R)" "\<forall>y. P y \<longrightarrow> unat y < nnodes h" "P x"
    and "nnodes h \<le> ef" "visit K h q ef x (V, C, R) = Some (V', C', R')"
  shows "V' = insert x V \<and> beam_full (V', C', R') \<and> V' - V \<subseteq> snd ` set C' \<and> snd ` set C \<subseteq> snd ` set C'"
proof (cases "x \<in> V")
  case True
  then show ?thesis using assms by (auto simp: visit_def)
next
  case False
  have RV: "snd ` set R = V" "distinct (map snd R)" using assms(1,2) by (simp_all add: beam_ok_def beam_full_def)
  have "\<forall>c \<in> set R. P (snd c)" using assms(1) by (auto simp: beam_ok_def cand_ok_def)
  then have "insert x V \<subseteq> all_nodes h" using RV(1) assms(3,4) by (auto simp: all_nodes_def)
  then have "card (insert x V) \<le> nnodes h" by (rule card_nodes)
  moreover have "card V = length R" using RV by (metis distinct_card length_map set_map)
  ultimately have lt: "length R < ef" using False assms(5) by simp
  have "dist K h x q = Some (K (h_metric h) (vec_of h x) q)" using assms(3,4) by (simp add: dist_ok)
  with False lt assms(6) have "V' = insert x V" "C' = heap_push min_le (K (h_metric h) (vec_of h x) q, x) C"
    "R' = heap_push max_le (K (h_metric h) (vec_of h x) q, x) R"
    by (auto simp: visit_def keep_best_def)
  with RV(1) show ?thesis by (auto simp: beam_full_def)
qed

lemma expand_full:
  assumes "beam_ok K h q ef P (V, C, R)" "beam_full (V, C, R)" "\<forall>y. P y \<longrightarrow> unat y < nnodes h" "\<forall>x \<in> set nbrs. P x"
    and "nnodes h \<le> ef" "expand K h q ef nbrs (V, C, R) = Some (V', C', R')"
  shows "V' = V \<union> set nbrs \<and> beam_full (V', C', R') \<and> V' - V \<subseteq> snd ` set C' \<and> snd ` set C \<subseteq> snd ` set C'"
  using assms(1,2,4,6)
proof (induction nbrs arbitrary: V C R)
  case (Cons x nbrs)
  have x: "P x" "unat x < nnodes h" using Cons.prems(3) assms(3) by auto
  obtain V1 C1 R1 where v: "visit K h q ef x (V, C, R) = Some (V1, C1, R1)" "beam_ok K h q ef P (V1, C1, R1)"
    using visit_ok [OF Cons.prems(1) x] by auto
  note f = visit_full [OF Cons.prems(1,2) assms(3) x(1) assms(5) v(1)]
  have e: "expand K h q ef nbrs (V1, C1, R1) = Some (V', C', R')" using Cons.prems(4) v(1) by simp
  have nb: "\<forall>x \<in> set nbrs. P x" and bf: "beam_full (V1, C1, R1)" using Cons.prems(3) f by auto
  have g: "V' = V1 \<union> set nbrs" "beam_full (V', C', R')" "V' - V1 \<subseteq> snd ` set C'" "snd ` set C1 \<subseteq> snd ` set C'"
    using Cons.IH [OF v(2) bf nb e] by blast+
  have "V' - V \<subseteq> (V' - V1) \<union> (V1 - V)" by blast
  also have "\<dots> \<subseteq> snd ` set C'" using g(3,4) f by (meson Un_least order_trans)
  finally have "V' - V \<subseteq> snd ` set C'" .
  moreover have "snd ` set C \<subseteq> snd ` set C'" using f g(4) by blast
  moreover have "V' = V \<union> set (x # nbrs)" using f g(1) by simp
  ultimately show ?case using g(2) by blast
qed simp

lemma expand_node_full:
  assumes "beam_ok K h q ef P (V, C, R)" "beam_full (V, C, R)" "closed_at h l P" "P c"
    and "nnodes h \<le> ef" "expand_node K h q ef l c (V, C, R) = Some (V', C', R')"
  shows "V' = V \<union> set (adj h (unat c) l) \<and> beam_full (V', C', R') \<and> V' - V \<subseteq> snd ` set C' \<and> snd ` set C \<subseteq> snd ` set C'"
proof -
  have c: "unat c < nnodes h" using closed_atD [OF assms(3,4)] by blast
  show ?thesis
  proof (cases "l < layers h (unat c)")
    case True
    then have "expand K h q ef (adj h (unat c) l) (V, C, R) = Some (V', C', R')"
      using assms(6) c by (simp add: expand_node_def adj_def layers_def)
    moreover have "\<forall>x \<in> set (adj h (unat c) l). P x" using closed_atD [OF assms(3,4)] by blast
    moreover have "\<forall>y. P y \<longrightarrow> unat y < nnodes h" using assms(3) by (simp add: closed_at_def)
    ultimately show ?thesis using expand_full [OF assms(1,2) _ _ assms(5)] by blast
  next
    case False
    then have "adj h (unat c) l = []" "(V', C', R') = (V, C, R)"
      using assms(6) c by (simp_all add: expand_node_def adj_def layers_def)
    with assms(2) show ?thesis by simp
  qed
qed

text \<open>Every visited node waits in the candidate heap or has all its neighbours visited.\<close>

definition frontier_ok :: "hnsw \<Rightarrow> nat \<Rightarrow> beam \<Rightarrow> bool" where
  "frontier_ok h l st = (case st of (V, C, R) \<Rightarrow>
     \<forall>x \<in> V. x \<in> snd ` set C \<or> set (adj h (unat x) l) \<subseteq> V)"

lemma search_loop_full:
  "beam_ok K h q ef P st \<Longrightarrow> beam_full st \<Longrightarrow> frontier_ok h l st \<Longrightarrow> closed_at h l P \<Longrightarrow> nnodes h \<le> ef \<Longrightarrow>
   search_loop K h q ef l st = Some Res \<Longrightarrow>
   fst st \<subseteq> snd ` set Res \<and> (\<forall>x \<in> snd ` set Res. set (adj h (unat x) l) \<subseteq> snd ` set Res)"
proof (induction K h q ef l st rule: search_loop.induct)
  case (1 K h q ef l V C R)
  have RV: "snd ` set R = V" "distinct (map snd R)" using 1(2,3) by (simp_all add: beam_ok_def beam_full_def)
  have PV: "\<forall>x \<in> V. P x" using 1(2) RV by (auto simp: beam_ok_def cand_ok_def)
  show ?case
  proof (cases "heap_pop min_le C")
    case None
    then have "C = []" by simp
    moreover have "Res = R" using 1(7) None by (subst (asm) search_loop.simps) (simp add: None)
    ultimately show ?thesis using 1(4) RV by (auto simp: frontier_ok_def)
  next
    case (Some p)
    then obtain c_dist c C' where p: "heap_pop min_le C = Some ((c_dist, c), C')" by (metis surj_pair)
    have setC: "set C = insert (c_dist, c) (set C')" by (rule heap_pop_set [OF p])
    have b: "beam_ok K h q ef P (V, C', R)" and c: "P c" "c \<in> V"
      using 1(2) setC by (auto simp: beam_ok_def cand_ok_def)
    show ?thesis
    proof (cases "beam_done ef c_dist R")
      case True
      then have "Res = R" using 1(7) p by (subst (asm) search_loop.simps) simp
      have "ef \<le> length R" using True by (auto simp: beam_done_def split: option.splits)
      moreover have "card V = length R" using RV by (metis distinct_card length_map set_map)
      moreover have sub: "V \<subseteq> all_nodes h" using PV 1(5) by (auto simp: all_nodes_def closed_at_def)
      ultimately have "card (all_nodes h) \<le> card V" using card_nodes [of "all_nodes h" h] 1(6) by simp
      then have "V = all_nodes h" using sub by (intro card_seteq) simp_all
      moreover have "set (adj h (unat x) l) \<subseteq> all_nodes h" if "x \<in> V" for x
        using that PV 1(5) by (auto simp: closed_at_def all_nodes_def)
      ultimately show ?thesis using RV \<open>Res = R\<close> by auto
    next
      case False
      obtain V2 C2 R2 where st': "expand_node K h q ef l c (V, C', R) = Some (V2, C2, R2)" "beam_ok K h q ef P (V2, C2, R2)"
        using expand_node_ok [OF b 1(5) c(1)] by auto
      note f = expand_node_full [OF b _ 1(5) c(1) 1(6) st'(1)]
      have full: "beam_full (V, C', R)" using 1(3) by (simp add: beam_full_def)
      have fr: "frontier_ok h l (V2, C2, R2)"
        unfolding frontier_ok_def prod.case
      proof
        fix x
        assume x: "x \<in> V2"
        consider "x \<notin> V" | "x = c" | "x \<in> V" "x \<noteq> c" by blast
        then show "x \<in> snd ` set C2 \<or> set (adj h (unat x) l) \<subseteq> V2"
        proof cases
          case 1
          then show ?thesis using x f full by blast
        next
          case 2
          then show ?thesis using f full by blast
        next
          case 3
          then have "x \<in> snd ` set C' \<or> set (adj h (unat x) l) \<subseteq> V"
            using 1(4) setC by (auto simp: frontier_ok_def)
          then show ?thesis using f full by blast
        qed
      qed
      have "search_loop K h q ef l (V2, C2, R2) = Some Res"
        using 1(7) p False st'(1) by (subst (asm) search_loop.simps) simp
      with 1(1) [OF p refl refl False st'(1) st'(2) _ fr 1(5,6)] f full show ?thesis by auto
    qed
  qed
qed

lemma search_layer_full:
  assumes "edges_ok h" "on_layer h l entry" "nnodes h \<le> ef" "search_layer K h q entry ef l = Some R"
  shows "snd ` set R = {x. lreach h l entry x}"
proof
  let ?P = "on_layer h l" and ?d = "K (h_metric h) (vec_of h entry) q"
  note cl = closed_on_layer [OF assms(1)]
  have e: "unat entry < nnodes h" using assms(2) by (simp add: on_layer_def)
  have one: "heap_push le x [] = [x]" for le :: "cand \<Rightarrow> cand \<Rightarrow> bool" and x
    by (simp add: heap_push_def sift_up.simps)
  have "search_loop K h q ef l ({entry}, [(?d, entry)], [(?d, entry)]) = Some R"
    using assms(4) e by (simp add: search_layer_def dist_ok one)
  moreover have "beam_ok K h q ef ?P ({entry}, [(?d, entry)], [(?d, entry)])"
    using assms(2) by (simp add: beam_ok_def cand_ok_def)
  ultimately have full: "entry \<in> snd ` set R" "\<forall>x \<in> snd ` set R. set (adj h (unat x) l) \<subseteq> snd ` set R"
    using search_loop_full [of K h q ef ?P "({entry}, [(?d, entry)], [(?d, entry)])" l R] cl assms(3)
    by (auto simp: beam_full_def frontier_ok_def)
  have "lreach h l entry x \<Longrightarrow> x \<in> snd ` set R" for x
    by (induction rule: rtranclp_induct) (use full in auto)
  then show "{x. lreach h l entry x} \<subseteq> snd ` set R" by blast
  have "closed_at h l (\<lambda>x. lreach h l entry x \<and> on_layer h l x)"
    unfolding closed_at_def
  proof (intro allI impI conjI ballI)
    fix x y
    assume x: "lreach h l entry x \<and> on_layer h l x"
    then show "unat x < nnodes h" by (simp add: on_layer_def)
    assume y: "y \<in> set (adj h (unat x) l)"
    with x show "lreach h l entry y" by (auto intro: rtranclp.rtrancl_into_rtrancl)
    show "on_layer h l y" using closed_atD(2) [OF cl _ y] x by blast
  qed
  from search_layer_ok [OF this, of entry K q ef] assms(2,4) show "snd ` set R \<subseteq> {x. lreach h l entry x}"
    by (auto simp: cand_ok_def)
qed

section \<open>The greedy descent\<close>

text \<open>A round that reports no improvement has compared all neighbours; the distance carried along is
  that of the current node.\<close>

lemma greedy_nbrs_rest:
  assumes "greedy_nbrs K h q nbrs (cur, cd, i) = Some (c, d, False)"
  shows "\<not> i \<and> c = cur \<and> d = cd \<and> (\<forall>n \<in> set nbrs. \<forall>d. dist K h n q = Some d \<longrightarrow> \<not> f32_lt d cd)"
  using assms by (induction nbrs arbitrary: cur cd i) (fastforce split: option.splits if_splits)+

lemma greedy_nbrs_dist:
  assumes "greedy_nbrs K h q nbrs (cur, cd, i) = Some (c, d, i')" "dist K h cur q = Some cd"
  shows "dist K h c q = Some d"
  using assms by (induction nbrs arbitrary: cur cd i) (auto split: option.splits if_splits)

lemma greedy_round_rest:
  assumes "greedy_round K h q l cur cd = Some (c, d, False)"
  shows "c = cur \<and> (\<forall>n \<in> set (adj h (unat cur) l). \<forall>d. dist K h n q = Some d \<longrightarrow> \<not> f32_lt d cd)"
  using assms greedy_nbrs_rest [of K h q _ cur cd False c d]
  by (auto simp: greedy_round_def adj_def layers_def vget_def split: option.splits if_splits)

lemma greedy_round_dist:
  assumes "greedy_round K h q l cur cd = Some (c, d, i)" "dist K h cur q = Some cd"
  shows "dist K h c q = Some d"
  using assms greedy_nbrs_dist [of K h q _ cur cd False c d i] by (auto simp: greedy_round_def split: option.splits if_splits)

lemma greedy_loop_minimum:
  "greedy_loop K h q l cur cd = Some x \<Longrightarrow> dist K h cur q = Some cd \<Longrightarrow>
   \<exists>d. dist K h x q = Some d \<and> (x = cur \<or> f32_lt d cd) \<and>
     (\<forall>n \<in> set (adj h (unat x) l). \<forall>e. dist K h n q = Some e \<longrightarrow> \<not> f32_lt e d)"
proof (induction K h q l cur cd rule: greedy_loop.induct)
  case (1 K h q l cur cd)
  obtain c d i where r: "greedy_round K h q l cur cd = Some (c, d, i)"
    using 1(2) by (subst (asm) greedy_loop.simps) (auto split: option.splits)
  note cd = greedy_round_dist [OF r 1(3)]
  show ?case
  proof (cases i)
    case True
    then have "greedy_loop K h q l c d = Some x" using 1(2) r by (subst (asm) greedy_loop.simps) simp
    from 1(1) [OF r refl refl True this cd] greedy_round_improves [OF r [unfolded True [THEN eqTrueI]]]
    show ?thesis using cd by (auto simp: f32_lt_def)
  next
    case False
    then have "x = c" using 1(2) r by (subst (asm) greedy_loop.simps) simp
    moreover have "greedy_round K h q l cur cd = Some (c, d, False)" using r False by simp
    ultimately show ?thesis using greedy_round_rest 1(3) by blast
  qed
qed

section \<open>A small graph\<close>

definition demo_graph :: hnsw where
  "demo_graph = \<lparr>h_dim = 1, h_metric = L2, h_params = default_params,
      h_nodes = [\<lparr>node_id = 7, node_vector = [4], node_neighbors = [[1]]\<rparr>, \<lparr>node_id = 8, node_vector = [2], node_neighbors = [[0]]\<rparr>],
      h_id_to_node = [7 \<mapsto> 0, 8 \<mapsto> 1], h_deleted = [False, False], h_live = 2, h_entry_point = Some 0, h_rng = 0\<rparr>"

lemma two_nodes: "unat x < 2 \<longleftrightarrow> x = 0 \<or> x = 1" for x :: u32
  by (auto simp: word_unat_eq_iff)

lemma demo_graph_inv: "hnsw_inv demo_graph"
proof -
  have "h_id_to_node demo_graph i = Some x \<longleftrightarrow> unat x < nnodes demo_graph \<and> node_id (h_nodes demo_graph ! unat x) = i" for i x
    using two_nodes [of x] by (auto simp: demo_graph_def numeral_2_eq_2 [symmetric])
  moreover have "{n. n < nnodes demo_graph \<and> \<not> h_deleted demo_graph ! n} = {0, 1}" by (auto simp: demo_graph_def nth_Cons' less_Suc_eq)
  ultimately have "base_inv demo_graph" unfolding base_inv_def by (auto simp: demo_graph_def layers_def less_Suc_eq)
  moreover have "edges_ok demo_graph"
    by (auto simp: demo_graph_def edges_ok_def layers_def adj_def less_Suc_eq on_layer_def m_max_def default_params_def)
  moreover have "entry_ok demo_graph" by (auto simp: demo_graph_def entry_ok_def layers_def less_Suc_eq)
  ultimately show ?thesis by (simp add: hnsw_inv_def)
qed

section \<open>Properties\<close>





lemma live_point_hit:
  assumes inv: "hnsw_inv h" and R: "snd ` set R = all_nodes h" "\<forall>c \<in> set R. cand_ok K h q P c" and pt: "hnsw_points h j = Some v"
  shows "(j, K (h_metric h) v q) \<in> set (hits_of h (sort_by by_dist R))"
proof -
  have b: "base_inv h" using inv by (simp add: hnsw_inv_def)
  obtain x where x: "h_id_to_node h j = Some x" "\<not> h_deleted h ! unat x" "v = vec_of h x"
    using pt hnsw_points_id [OF b, of j v] by blast
  have "x \<in> snd ` set R" using id_bound [OF b x(1)] R(1) by (simp add: all_nodes_def)
  then obtain s where s: "(s, x) \<in> set R" by auto
  then have "cand_ok K h q P (s, x)" using R(2) by blast
  then have "s = K (h_metric h) v q" using x(3) by (simp add: cand_ok_def)
  moreover have "node_id (h_nodes h ! unat x) = j" using base_invD(6) [OF b, of j x] x(1) by blast
  ultimately show ?thesis using s x(2) by (force simp: hits_of_def)
qed

lemma left_out_not_nearer:
  assumes "sorted_wrt P xs" "x \<in> set (take k xs)" "y \<in> set xs" "y \<notin> set (take k xs)"
  shows "P x y"
proof -
  have "y \<in> set (drop k xs)" using assms(3,4) by (metis Un_iff append_take_drop_id set_append)
  moreover have "sorted_wrt P (take k xs @ drop k xs)" using assms(1) by simp
  ultimately show ?thesis using assms(2) unfolding sorted_wrt_append by blast
qed



text \<open>C30. The greedy descent of a layer ends, whatever the distance kernel returns, NaN included
  (each hop makes the distance strictly smaller), and it ends at a local minimum: no neighbour of
  the node it returns is nearer to the query, and that node is the entry or strictly nearer.\<close>

theorem greedy_search_layer_ends_at_minimum:
  assumes "edges_ok h" "on_layer h l entry"
  shows "\<exists>x. greedy_search_layer K h q entry l = Some x \<and> on_layer h l x \<and>
    (x = entry \<or> f32_lt (K (h_metric h) (vec_of h x) q) (K (h_metric h) (vec_of h entry) q)) \<and>
    (\<forall>n \<in> set (adj h (unat x) l). \<not> f32_lt (K (h_metric h) (vec_of h n) q) (K (h_metric h) (vec_of h x) q))"
proof -
  note cl = closed_on_layer [OF assms(1)]
  obtain x where x: "greedy_search_layer K h q entry l = Some x" "on_layer h l x"
    using greedy_search_layer_ok [OF cl assms(2)] by blast
  have d: "dist K h n q = Some (K (h_metric h) (vec_of h n) q)" if "on_layer h l n" for n
    by (rule dist_ok) (rule closed_atD(1) [OF cl that])
  have "greedy_loop K h q l entry (K (h_metric h) (vec_of h entry) q) = Some x"
    using x(1) d [OF assms(2)] by (simp add: greedy_search_layer_def)
  from greedy_loop_minimum [OF this d [OF assms(2)]] x d [OF x(2)] d closed_atD(2) [OF cl x(2)] show ?thesis by auto
qed

theorem greedy_search_layer_ends_at_minimum_witness:
  "greedy_search_layer (\<lambda>_ v q. hd v) demo_graph [3] 0 0 = Some 1"
proof -
  have "edges_ok demo_graph" using demo_graph_inv by (simp add: hnsw_inv_def)
  moreover have "on_layer demo_graph 0 0" by (simp add: demo_graph_def on_layer_def layers_def)
  ultimately obtain x where x: "greedy_search_layer (\<lambda>_ v q. hd v) demo_graph [3] 0 0 = Some x" "on_layer demo_graph 0 x"
      "\<forall>n \<in> set (adj demo_graph (unat x) 0). \<not> f32_lt (hd (vec_of demo_graph n)) (hd (vec_of demo_graph x))"
    using greedy_search_layer_ends_at_minimum [of demo_graph 0 0 "\<lambda>_ v q. hd v" "[3]"] by auto
  then have "x = 0 \<or> x = 1" using two_nodes [of x] by (simp add: demo_graph_def on_layer_def numeral_2_eq_2)
  moreover have "x \<noteq> 0" using x(3) by (auto simp: demo_graph_def adj_def layers_def vec_of_def f32_lt_def f32_is_nan_def f32_key_def)
  ultimately show ?thesis using x(1) by simp
qed

end
