(* ===== verification/Distance.thy ===== *)
theory Distance
  imports Float32 Hnsw_Props
begin

text \<open>
  The distance kernels (\<open>qv-hnsw/src/distance.rs\<close>): the scalar reference implementations in
  single-precision arithmetic and the dispatch to the vectorised library, which is a parameter.  A
  release build is modelled: the debug assertion of \<open>distance\<close> is compiled out, and an index out of
  range is a panic, \<open>None\<close>.
\<close>

section \<open>Kernels\<close>

text \<open>The loops, from the coordinates that are left and the sums so far.\<close>

fun l2_loop :: "f32 \<Rightarrow> vec \<Rightarrow> vec \<Rightarrow> f32 option" where
  "l2_loop acc [] b = Some acc"
| "l2_loop acc (x # a) [] = None"
| "l2_loop acc (x # a) (y # b) = (let d = f32_sub x y in l2_loop (f32_add acc (f32_mul d d)) a b)"

definition l2_sq_scalar :: "vec \<Rightarrow> vec \<Rightarrow> f32 option" where
  "l2_sq_scalar a b = l2_loop 0 a b"

fun cosine_loop :: "f32 \<times> f32 \<times> f32 \<Rightarrow> vec \<Rightarrow> vec \<Rightarrow> (f32 \<times> f32 \<times> f32) option" where
  "cosine_loop acc [] b = Some acc"
| "cosine_loop acc (x # a) [] = None"
| "cosine_loop (dot, na, nb) (x # a) (y # b) =
     cosine_loop (f32_add dot (f32_mul x y), f32_add na (f32_mul x x), f32_add nb (f32_mul y y)) a b"

text \<open>\<open>1.0\<close> and \<open>-1.0\<close>.\<close>

definition f32_one :: f32 where
  "f32_one = 0x3F800000"

definition f32_minus_one :: f32 where
  "f32_minus_one = 0xBF800000"

definition cosine_distance_scalar :: "vec \<Rightarrow> vec \<Rightarrow> f32 option" where
  "cosine_distance_scalar a b =
     map_option (\<lambda>(dot, na, nb).
       let denom = f32_mul (f32_sqrt na) (f32_sqrt nb) in
       if \<not> f32_is_nan denom \<and> f32_key denom = 0 then f32_one
       else let sim = f32_clamp f32_minus_one f32_one (f32_div dot denom) in f32_sub f32_one sim)
     (cosine_loop (0, 0, 0) a b)"

text \<open>The vectorised library returns a 64-bit float or nothing; \<open>as f32\<close> rounds it.  In units of
  \<open>2 ^ -1074\<close> a finite one is an integer, too.\<close>

type_synonym f64 = "64 word"

definition f64_as_f32 :: "f64 \<Rightarrow> f32" where
  "f64_as_f32 x =
     (let s = (uint x \<ge> 2 ^ 63); k = uint x mod 2 ^ 63 in
      if k > 0x7FF0000000000000 then f32_nan
      else if k = 0x7FF0000000000000 then f32_make s inf_bits
      else f32_make s (round_ratio (if k < 2 ^ 52 then k else (k mod 2 ^ 52 + 2 ^ 52) * 2 ^ nat (k div 2 ^ 52 - 1)) (2 ^ 925)))"

record simd =
  sd_sqeuclidean :: "vec \<Rightarrow> vec \<Rightarrow> f64 option"
  sd_cosine :: "vec \<Rightarrow> vec \<Rightarrow> f64 option"

text \<open>\<open>None\<close> is a build without the feature.\<close>

definition l2_sq :: "simd option \<Rightarrow> vec \<Rightarrow> vec \<Rightarrow> f32 option" where
  "l2_sq S a b =
     (case S of
        Some lib \<Rightarrow> (case sd_sqeuclidean lib a b of Some d \<Rightarrow> Some (f64_as_f32 d) | None \<Rightarrow> l2_sq_scalar a b)
      | None \<Rightarrow> l2_sq_scalar a b)"

definition cosine_distance :: "simd option \<Rightarrow> vec \<Rightarrow> vec \<Rightarrow> f32 option" where
  "cosine_distance S a b =
     (case S of
        Some lib \<Rightarrow> (case sd_cosine lib a b of Some d \<Rightarrow> Some (f64_as_f32 d) | None \<Rightarrow> cosine_distance_scalar a b)
      | None \<Rightarrow> cosine_distance_scalar a b)"

definition distance :: "simd option \<Rightarrow> metric \<Rightarrow> vec \<Rightarrow> vec \<Rightarrow> f32 option" where
  "distance S m a b = (case m of L2 \<Rightarrow> l2_sq S a b | Cosine \<Rightarrow> cosine_distance S a b)"

text \<open>What the indexes call; they pass vectors of one dimension.\<close>

definition index_kernel :: "simd option \<Rightarrow> kernel" where
  "index_kernel S m a b = the (distance S m a b)"

section \<open>The Euclidean kernel\<close>

lemma l2_loop_laws:
  assumes "length a = length b" "list_all f32_finite a" "list_all f32_finite b" "\<not> f32_is_nan acc" "\<not> f32_sign acc"
  shows "\<exists>d. l2_loop acc a b = Some d \<and> l2_loop acc b a = Some d \<and> \<not> f32_is_nan d \<and> \<not> f32_sign d"
  using assms
proof (induction a b arbitrary: acc rule: list_induct2)
  case (Cons x a y b)
  let ?d = "f32_sub x y"
  have d: "\<not> f32_is_nan ?d" using Cons.prems by (simp add: f32_sub_finite)
  have e: "f32_mul (f32_sub y x) (f32_sub y x) = f32_mul ?d ?d" by (rule f32_square_cong [OF f32_sub_swap_bits])
  have "\<not> f32_is_nan (f32_add acc (f32_mul ?d ?d))" "\<not> f32_sign (f32_add acc (f32_mul ?d ?d))"
    using f32_add_nonneg [OF Cons.prems(3) f32_square_nonneg(1) [OF d] Cons.prems(4) f32_square_nonneg(2) [OF d]] by simp_all
  from Cons.IH [OF _ _ this] Cons.prems e show ?case by (simp add: Let_def)
qed simp

lemma zero_parts [simp]: "f32_make False 0 = 0" "\<not> f32_is_nan 0" "\<not> f32_sign 0" "f32_bits 0 = 0" "\<not> f32_is_inf 0" "f32_mag 0 = 0" "f32_val 0 = 0"
  by (simp_all add: f32_make_def f32_is_nan_def f32_sign_def f32_bits_def f32_is_inf_def inf_bits_def f32_mag_def mag_value_def f32_val_def)

lemma round_zero [simp]: "0 < q \<Longrightarrow> round_ratio 0 q = 0"
  using round_ratio_exact [of 0 q] by (simp add: mag_value_def inf_bits_def)

lemma zero_ops: "f32_mul 0 0 = 0" "f32_add 0 0 = 0"
  by (simp_all add: f32_mul_def f32_add_def)

lemma l2_loop_self: "list_all f32_finite a \<Longrightarrow> l2_loop 0 a a = Some 0"
  by (induction a) (simp_all add: f32_sub_self Let_def zero_ops)

definition int_sq_dist :: "int list \<Rightarrow> int list \<Rightarrow> int" where
  "int_sq_dist xs ys = sum_list (map2 (\<lambda>x y. (x - y) * (x - y)) xs ys)"

lemma int_sq_dist_simps [simp]:
  "int_sq_dist [] ys = 0" "int_sq_dist (x # xs) (y # ys) = (x - y) * (x - y) + int_sq_dist xs ys"
  by (simp_all add: int_sq_dist_def)

lemma int_sq_dist_nonneg: "0 \<le> int_sq_dist xs ys"
  unfolding int_sq_dist_def by (rule sum_list_nonneg) auto

lemma abs_le_square: "\<bar>x\<bar> \<le> x * (x :: int)"
  using mult_mono [of 1 "\<bar>x\<bar>" "\<bar>x\<bar>" "\<bar>x\<bar>"] by (cases "x = 0") auto

lemma l2_loop_exact:
  assumes "list_all2 f32_holds a xs" "list_all2 f32_holds b ys" "length xs = length ys" "f32_holds acc n" "0 \<le> n"
    and "n + int_sq_dist xs ys \<le> 2 ^ 24"
  shows "\<exists>d. l2_loop acc a b = Some d \<and> f32_holds d (n + int_sq_dist xs ys)"
  using assms
proof (induction a xs arbitrary: acc n b ys rule: list_all2_induct)
  case (Cons x a u xs)
  obtain y b' v ys' where b: "b = y # b'" "ys = v # ys'" "f32_holds y v" "list_all2 f32_holds b' ys'"
    using Cons.prems(1,2) by (cases ys) (auto simp: list_all2_Cons2)
  let ?e = "(u - v) * (u - v)"
  have bound: "n + ?e + int_sq_dist xs ys' \<le> 2 ^ 24" using Cons.prems(5) b by simp
  have pos: "0 \<le> ?e" "0 \<le> int_sq_dist xs ys'" by (simp_all add: int_sq_dist_nonneg)
  have "\<bar>u - v\<bar> \<le> ?e" by (rule abs_le_square)
  then have "f32_holds (f32_sub x y) (u - v)" using f32_holds_sub [OF Cons.hyps(1) b(3)] bound pos Cons.prems(4) by linarith
  then have "f32_holds (f32_mul (f32_sub x y) (f32_sub x y)) ?e" by (rule f32_holds_square) (use bound pos Cons.prems(4) in linarith)
  then have "f32_holds (f32_add acc (f32_mul (f32_sub x y) (f32_sub x y))) (n + ?e)"
    by (rule f32_holds_add [OF Cons.prems(3)]) (use bound pos Cons.prems(4) in linarith)
  from Cons.IH [OF b(4) _ this _ bound] Cons.prems(2,4) pos b show ?case by (simp add: Let_def add.assoc)
qed simp

section \<open>The cosine kernel\<close>

lemma cosine_loop_returns: "length a = length b \<Longrightarrow> \<exists>r. cosine_loop acc a b = Some r"
  by (induction a b arbitrary: acc rule: list_induct2) auto

text \<open>The root of a finite value is finite.\<close>

lemma isqrt_bounds: "0 \<le> n \<Longrightarrow> 0 \<le> isqrt n \<and> isqrt n * isqrt n \<le> n \<and> n < (isqrt n + 1) * (isqrt n + 1)"
proof (induction n rule: isqrt.induct)
  case (1 n)
  show ?case
  proof (cases "n = 0")
    case True
    have "isqrt 0 = 0" by (subst isqrt.simps) simp
    then show ?thesis using True by simp
  next
    case False
    let ?q = "isqrt (n div 4)"
    have q: "0 \<le> ?q" "?q * ?q \<le> n div 4" "n div 4 < (?q + 1) * (?q + 1)" using 1 False by auto
    have r: "isqrt n = (if (2 * ?q + 1) * (2 * ?q + 1) \<le> n then 2 * ?q + 1 else 2 * ?q)"
      using 1(2) False by (subst isqrt.simps) (simp add: Let_def)
    have "(2 * ?q) * (2 * ?q) = 4 * (?q * ?q)" "(2 * ?q + 1 + 1) * (2 * ?q + 1 + 1) = 4 * ((?q + 1) * (?q + 1))" by (simp_all add: algebra_simps)
    then have "(2 * ?q) * (2 * ?q) \<le> n" "n < (2 * ?q + 1 + 1) * (2 * ?q + 1 + 1)" using q(2,3) by linarith+
    then show ?thesis using q(1) by (simp add: r)
  qed
qed

lemma round_sqrt_bounds:
  assumes "0 \<le> n" "n < 2 ^ 426"
  shows "0 \<le> round_sqrt n" "round_sqrt n < inf_bits"
proof -
  let ?r = "isqrt n" and ?s = "excess (isqrt n)"
  have r: "0 \<le> ?r" "?r * ?r \<le> n" using isqrt_bounds [OF assms(1)] by simp_all
  have "?r < 2 ^ 213"
  proof (rule ccontr)
    assume "\<not> ?r < 2 ^ 213"
    then have "(2 :: int) ^ 213 * 2 ^ 213 \<le> ?r * ?r" by (intro mult_mono) simp_all
    then show False using r(2) assms(2) by simp
  qed
  then have s: "?s \<le> 189"
  proof (cases "0 < ?s")
    case True
    then have "(2 :: int) ^ (?s + 23) < 2 ^ 213" using excess_bounds(2) [OF r(1)] \<open>?r < 2 ^ 213\<close> by linarith
    then have "?s + 23 < 213" by (rule power_less_imp_less_exp [rotated]) simp
    then show ?thesis by simp
  qed simp
  then have e: "int ?s * 2 ^ 23 \<le> 189 * 2 ^ 23" by (intro mult_right_mono) simp_all
  have t: "0 \<le> ?r div 2 ^ ?s" "?r div 2 ^ ?s < 2 ^ 24" using kept_digits(1,3) [OF r(1), of 1 ?s] by simp_all
  from e t show "round_sqrt n < inf_bits" by (simp add: round_sqrt_def Let_def inf_bits_def)
  from t show "0 \<le> round_sqrt n" by (simp add: round_sqrt_def Let_def add_nonneg_nonneg)
qed

lemma f32_mag_finite: "f32_finite x \<Longrightarrow> f32_mag x < 2 ^ 277"
proof -
  assume "f32_finite x"
  then have "f32_mag x \<le> mag_value 0x7F7FFFFF"
    unfolding f32_mag_def by (intro mag_value_mono) (simp_all add: f32_finite_def inf_bits_def f32_bits_bounds)
  then show ?thesis by (simp add: mag_value_def)
qed

lemma f32_sqrt_finite:
  assumes "f32_finite x" "\<not> f32_sign x"
  shows "f32_finite (f32_sqrt x)"
proof (cases "f32_mag x = 0")
  case True
  then show ?thesis using assms by (simp add: f32_sqrt_def f32_finite_iff)
next
  case False
  have "0 \<le> f32_mag x * 2 ^ 149" "f32_mag x * 2 ^ 149 < 2 ^ 426" using f32_mag_nonneg [of x] f32_mag_finite [OF assms(1)] by simp_all
  note b = round_sqrt_bounds [OF this]
  moreover have "round_sqrt (f32_mag x * 2 ^ 149) < 2 ^ 31" using b(2) by (simp add: inf_bits_def)
  ultimately have "f32_finite (f32_make False (round_sqrt (f32_mag x * 2 ^ 149)))" by (simp add: f32_finite_def)
  moreover have "f32_sqrt x = f32_make False (round_sqrt (f32_mag x * 2 ^ 149))" using False assms by (simp add: f32_sqrt_def f32_finite_iff)
  ultimately show ?thesis by simp
qed

text \<open>The squared norm the loop computes for one of the vectors.\<close>

fun norm_loop :: "f32 \<Rightarrow> vec \<Rightarrow> f32" where
  "norm_loop acc [] = acc"
| "norm_loop acc (x # a) = norm_loop (f32_add acc (f32_mul x x)) a"

lemma cosine_loop_norms:
  "length a = length b \<Longrightarrow> \<exists>dot'. cosine_loop (dot, na, nb) a b = Some (dot', norm_loop na a, norm_loop nb b)"
  by (induction a b arbitrary: dot na nb rule: list_induct2) auto

lemma norm_loop_nonneg:
  assumes "list_all f32_finite a" "\<not> f32_is_nan acc" "\<not> f32_sign acc"
  shows "\<not> f32_is_nan (norm_loop acc a) \<and> \<not> f32_sign (norm_loop acc a)"
  using assms by (induction a arbitrary: acc) (simp_all add: f32_add_nonneg f32_square_nonneg f32_finite_iff)

lemma norm_loop_zero: "\<forall>x \<in> set a. f32_mag x = 0 \<Longrightarrow> list_all f32_finite a \<Longrightarrow> norm_loop 0 a = 0"
  by (induction a) (simp_all add: f32_mul_def f32_finite_iff zero_ops)

lemma one_parts: "f32_sign f32_one = False" "f32_bits f32_one = 0x3F800000" "f32_sign f32_minus_one" "f32_bits f32_minus_one = 0x3F800000"
  by (simp_all add: f32_one_def f32_minus_one_def f32_sign_def f32_bits_def)

lemma one_mag: "mag_value 0x3F800000 = 2 ^ 149" "mag_value 0x40000000 = 2 ^ 150"
  by (simp_all add: mag_value_def)

lemma one_kind [simp]: "\<not> f32_is_nan f32_one" "\<not> f32_is_inf f32_one" "\<not> f32_is_nan f32_minus_one"
  by (simp_all add: f32_nan_bits f32_is_inf_def one_parts inf_bits_def)

lemma clamp_unit:
  assumes "x = f32_clamp f32_minus_one f32_one y"
  shows "f32_is_nan x \<or> f32_bits x \<le> 0x3F800000"
  using assms f32_bits_bounds [of y]
  by (auto simp: f32_clamp_def f32_lt_def f32_key_bits one_parts split: if_splits)

text \<open>\<open>1.0 - x\<close> for \<open>x\<close> between \<open>-1.0\<close> and \<open>1.0\<close>.\<close>

lemma one_minus_unit:
  assumes "\<not> f32_is_nan x" "f32_bits x \<le> 0x3F800000"
  shows "\<not> f32_is_nan (f32_sub f32_one x)" "0 \<le> f32_key (f32_sub f32_one x)" "f32_key (f32_sub f32_one x) \<le> 0x40000000"
proof -
  have "f32_mag x \<le> 2 ^ 149" unfolding f32_mag_def one_mag(1) [symmetric] by (rule mag_value_mono) (use assms f32_bits_bounds in simp_all)
  then have v: "0 \<le> 2 ^ 149 - f32_val x" "2 ^ 149 - f32_val x \<le> 2 ^ 150" using f32_mag_nonneg [of x] by (auto simp: f32_val_def)
  have inf: "\<not> f32_is_inf x" using assms(2) by (auto simp: f32_is_inf_def inf_bits_def)
  have one: "f32_val f32_one = 2 ^ 149" by (simp add: f32_val_def f32_mag_def one_parts one_mag)
  have "round_ratio (2 ^ 149 - f32_val x) 1 \<le> round_ratio (mag_value 0x40000000 * 1) 1"
    unfolding one_mag using v by (intro round_ratio_mono) simp_all
  also have "\<dots> = 0x40000000" by (rule round_ratio_exact) (simp_all add: inf_bits_def)
  finally have r: "round_ratio (2 ^ 149 - f32_val x) 1 \<le> 0x40000000" .
  note m = make_round [OF v(1), of 1 False] and b = round_ratio_bounds [OF v(1), of 1]
  have e: "f32_sub f32_one x = (if 2 ^ 149 - f32_val x = 0 then 0 else f32_make False (round_ratio (2 ^ 149 - f32_val x) 1))"
    using assms(1) inf v(1) by (auto simp: f32_sub_def f32_add_def one Let_def one_parts)
  show "\<not> f32_is_nan (f32_sub f32_one x)" "0 \<le> f32_key (f32_sub f32_one x)" "f32_key (f32_sub f32_one x) \<le> 0x40000000"
    unfolding e using m b r by (simp_all add: f32_key_bits)
qed

section \<open>Properties\<close>

text \<open>C31. The scalar squared Euclidean distance of finite vectors of one length is computed without a
  panic, is never NaN (an overflow gives infinity) and never negative, does not depend on the order of
  its arguments, and is zero for equal ones; and where the coordinates are integers and the squared
  distance is at most \<open>2 ^ 24\<close>, it is exact.\<close>

theorem l2_sq_scalar_laws:
  assumes "length a = length b" "list_all f32_finite a" "list_all f32_finite b"
  shows "\<exists>d. l2_sq_scalar a b = Some d \<and> l2_sq_scalar b a = Some d \<and> \<not> f32_is_nan d \<and> \<not> f32_lt d 0 \<and>
    l2_sq_scalar a a = Some 0 \<and>
    (\<forall>xs ys. list_all2 f32_holds a xs \<longrightarrow> list_all2 f32_holds b ys \<longrightarrow> int_sq_dist xs ys \<le> 2 ^ 24 \<longrightarrow> f32_holds d (int_sq_dist xs ys))"
proof -
  obtain d where d: "l2_loop 0 a b = Some d" "l2_loop 0 b a = Some d" "\<not> f32_is_nan d" "\<not> f32_sign d"
    using l2_loop_laws [OF assms, of 0] by auto
  have "\<not> f32_lt d 0" using d(4) f32_bits_bounds [of d] by (simp add: f32_lt_def f32_key_bits)
  moreover have "f32_holds d (int_sq_dist xs ys)"
    if "list_all2 f32_holds a xs" "list_all2 f32_holds b ys" "int_sq_dist xs ys \<le> 2 ^ 24" for xs ys
  proof -
    have "f32_holds 0 0" by (simp add: f32_holds_def f32_finite_iff)
    moreover have "length xs = length ys" using that(1,2) assms(1) by (simp add: list_all2_lengthD [symmetric])
    ultimately show ?thesis using l2_loop_exact [OF that(1,2), of 0 0] that(3) d(1) by simp
  qed
  ultimately show ?thesis using d l2_loop_self [OF assms(2)] unfolding l2_sq_scalar_def by blast
qed

theorem l2_sq_scalar_laws_witness:
  "\<exists>d. l2_sq_scalar [0, 0, 0] [0x3F800000, 0x40000000, 0x40000000] = Some d \<and> f32_holds d 9"
proof -
  let ?a = "[0, 0, 0] :: vec" and ?b = "[0x3F800000, 0x40000000, 0x40000000] :: vec"
  have h: "list_all2 f32_holds ?a [0, 0, 0]" "list_all2 f32_holds ?b [1, 2, 2]"
    by (simp_all add: f32_holds_def f32_finite_def f32_val_def f32_mag_def f32_bits_def f32_sign_def mag_value_def inf_bits_def)
  have "list_all f32_finite ?a" "list_all f32_finite ?b" using h by (simp_all add: f32_holds_def)
  from l2_sq_scalar_laws [OF _ this] obtain d where d: "l2_sq_scalar ?a ?b = Some d"
    "\<forall>xs ys. list_all2 f32_holds ?a xs \<longrightarrow> list_all2 f32_holds ?b ys \<longrightarrow> int_sq_dist xs ys \<le> 2 ^ 24 \<longrightarrow> f32_holds d (int_sq_dist xs ys)" by auto
  have "int_sq_dist [0, 0, 0] [1, 2, 2] \<le> 2 ^ 24" by simp
  with d(2) h have "f32_holds d (int_sq_dist [0, 0, 0] [1, 2, 2])" by blast
  then show ?thesis using d(1) by simp
qed

text \<open>C33. The scalar cosine distance of vectors of one length, whatever their coordinates, is computed
  without a panic and is either NaN or between 0 and 2; and the distance of a zero vector is exactly
  1 as long as the squared norm of the other, finite one does not overflow.\<close>

theorem cosine_distance_scalar_range:
  assumes "length a = length b"
  shows "\<exists>d. cosine_distance_scalar a b = Some d \<and> (f32_is_nan d \<or> 0 \<le> f32_key d \<and> f32_key d \<le> f32_key 0x40000000) \<and>
    ((\<forall>x \<in> set a. f32_finite x \<and> f32_mag x = 0) \<and> list_all f32_finite b \<and> \<not> f32_is_inf (norm_loop 0 b) \<longrightarrow> d = f32_one)"
proof -
  obtain dot where l: "cosine_loop (0, 0, 0) a b = Some (dot, norm_loop 0 a, norm_loop 0 b)" using cosine_loop_norms [OF assms] by blast
  define denom where "denom = f32_mul (f32_sqrt (norm_loop 0 a)) (f32_sqrt (norm_loop 0 b))"
  define sim where "sim = f32_clamp f32_minus_one f32_one (f32_div dot denom)"
  have c: "cosine_distance_scalar a b = Some (if \<not> f32_is_nan denom \<and> f32_key denom = 0 then f32_one else f32_sub f32_one sim)"
    using l by (simp add: cosine_distance_scalar_def denom_def sim_def Let_def)
  have two: "f32_key 0x40000000 = 0x40000000" and one: "f32_key f32_one = 0x3F800000" by (simp_all add: f32_key_def f32_one_def)
  have "f32_is_nan (f32_sub f32_one sim)" if "f32_is_nan sim" using that by (simp add: f32_sub_def f32_add_def)
  then have range: "f32_is_nan (f32_sub f32_one sim) \<or> 0 \<le> f32_key (f32_sub f32_one sim) \<and> f32_key (f32_sub f32_one sim) \<le> f32_key 0x40000000"
    using clamp_unit [OF sim_def] one_minus_unit [of sim] unfolding two by blast
  have zero: "\<not> f32_is_nan denom \<and> f32_key denom = 0"
    if z: "\<forall>x \<in> set a. f32_finite x \<and> f32_mag x = 0" "list_all f32_finite b" "\<not> f32_is_inf (norm_loop 0 b)"
  proof -
    have "norm_loop 0 a = 0" using z(1) by (intro norm_loop_zero) (simp_all add: list_all_iff)
    moreover have "f32_finite (f32_sqrt (norm_loop 0 b))"
      using norm_loop_nonneg [OF z(2), of 0] z(3) by (intro f32_sqrt_finite) (simp_all add: f32_finite_iff)
    ultimately have "denom = f32_make (f32_sign (f32_sqrt (norm_loop 0 b))) 0"
      by (simp add: denom_def f32_sqrt_def f32_mul_def f32_finite_iff)
    then show ?thesis by (simp add: f32_key_bits)
  qed
  then show ?thesis unfolding c using range one two by simp
qed

theorem cosine_distance_scalar_range_witness:
  "cosine_distance_scalar [0, 0] [0x40400000, 0x40800000] = Some f32_one"
proof -
  have n: "norm_loop 0 [0x40400000, 0x40800000] = 0x41C80000" by code_simp
  have "\<not> f32_is_inf (norm_loop 0 [0x40400000, 0x40800000])" unfolding n by (simp add: f32_is_inf_def f32_bits_def inf_bits_def)
  moreover have "list_all f32_finite [0x40400000, 0x40800000]" by (simp add: f32_finite_def f32_bits_def inf_bits_def)
  moreover have "\<forall>x \<in> set [0, 0]. f32_finite x \<and> f32_mag x = 0" by (simp add: f32_finite_iff)
  ultimately show ?thesis using cosine_distance_scalar_range [of "[0, 0]" "[0x40400000, 0x40800000]"] by auto
qed

text \<open>Finite vectors can have a NaN distance: a squared norm that overflows makes the quotient of two
  infinities, and for a zero vector the product of zero and infinity.\<close>

lemma cosine_nan_on_overflow:
  "f32_finite 0x5F800000"
  "cosine_distance_scalar [0x5F800000] [0x5F800000] = Some f32_nan"
  "cosine_distance_scalar [0] [0x5F800000] = Some f32_nan"
  by code_simp+

text \<open>C32. With the scalar Euclidean kernel the graph index returns its hits nearest first: on finite
  vectors no distance is NaN, so the order holds without a condition on the kernel.\<close>

theorem l2_search_nearest_first:
  assumes "hnsw_inv h" "h_metric h = L2" "length q = h_dim h" "list_all f32_finite q"
    and "\<forall>nd \<in> set (h_nodes h). list_all f32_finite (node_vector nd)"
  shows "\<exists>hits. hnsw_search (index_kernel None) h q k ef = Some (Inr hits) \<and> length hits \<le> k \<and>
    sorted_wrt (\<lambda>a b. f32_cmp_le (snd a) (snd b)) hits \<and>
    (\<forall>(i, s) \<in> set hits. \<exists>v. hnsw_points h i = Some v \<and> l2_sq_scalar v q = Some s)"
proof -
  have len: "length (node_vector nd) = length q" if "nd \<in> set (h_nodes h)" for nd
    using that assms(1,3) unfolding hnsw_inv_def base_inv_def by (metis in_set_conv_nth)
  have d: "\<exists>s. l2_sq_scalar v q = Some s \<and> \<not> f32_is_nan s" if v: "v \<in> node_vector ` set (h_nodes h)" for v
    using l2_loop_laws [of v q 0] v len assms(4,5) by (fastforce simp: l2_sq_scalar_def)
  have K: "index_kernel None L2 v q = the (l2_sq_scalar v q)" for v by (simp add: index_kernel_def distance_def l2_sq_def)
  obtain hits where h: "hnsw_search (index_kernel None) h q k ef = Some (Inr hits)"
      "hits_ok (\<lambda>q v. index_kernel None L2 v q) (hnsw_points h) (node_vector ` set (h_nodes h)) q k hits"
    using hnsw_search_ok [OF assms(1,3), of "index_kernel None" k ef] assms(2) by auto
  have pts: "v \<in> node_vector ` set (h_nodes h)" if "hnsw_points h i = Some v" for i v
    using that assms(1) hnsw_points_id [of h i v] id_bound [of h i] by (auto simp: hnsw_inv_def vec_of_def)
  have "\<exists>v. hnsw_points h i = Some v \<and> l2_sq_scalar v q = Some s" if "(i, s) \<in> set hits" for i s
    using that h(2) pts d K by (fastforce simp: hits_ok_def)
  moreover have "\<not> f32_is_nan (index_kernel None L2 v q)" if "v \<in> node_vector ` set (h_nodes h)" for v using d [OF that] K by auto
  then have "sorted_wrt (\<lambda>a b. f32_cmp_le (snd a) (snd b)) hits" "length hits \<le> k" using h(2) unfolding hits_ok_def by blast+
  ultimately show ?thesis using h(1) by blast
qed

theorem l2_search_nearest_first_witness:
  "\<exists>hits. hnsw_search (index_kernel None) demo_graph [3] 1 2 = Some (Inr hits) \<and> length hits \<le> 1 \<and>
     (\<forall>(i, s) \<in> set hits. \<exists>v. hnsw_points demo_graph i = Some v \<and> l2_sq_scalar v [3] = Some s)"
proof -
  have "h_metric demo_graph = L2" "length [3 :: f32] = h_dim demo_graph" "list_all f32_finite [3]"
    "\<forall>nd \<in> set (h_nodes demo_graph). list_all f32_finite (node_vector nd)"
    by (simp_all add: demo_graph_def f32_finite_def f32_bits_def inf_bits_def)
  from l2_search_nearest_first [OF demo_graph_inv this, of 1 2] show ?thesis by blast
qed

end
