(* ===== verification/Disk.thy ===== *)
theory Disk
  imports QV_Prelude
begin

text \<open>
  The part of the standard library's file I/O the storage crates use: a file opened for
  append, \<open>sync_data\<close>, \<open>set_len\<close>, and \<open>std::io::BufWriter\<close> with its default capacity.

  A file carries a script of the outcomes of the system calls made on it: \<open>None\<close> is success,
  \<open>Some n\<close> is an error after \<open>n\<close> bytes of that call reached the file.  An exhausted script
  means that every further call succeeds.  A crash keeps the synced prefix and any part of
  the bytes written after it.  A path that does not exist is a file that is not \<open>present\<close>;
  the directory entry of a created file is taken to survive a crash.
\<close>

datatype io_error = IoError

record os_file =
  present :: bool
  contents :: bytes
  synced :: nat
  script :: "nat option list"

definition empty_file :: os_file where
  "empty_file = \<lparr>present = False, contents = [], synced = 0, script = []\<rparr>"

text \<open>The \<open>?\<close> operator: hand an error to the caller, go on with a value.\<close>

definition on_ok :: "('e + 'a) \<times> 's \<Rightarrow> ('a \<Rightarrow> 's \<Rightarrow> ('e + 'b) \<times> 's) \<Rightarrow> ('e + 'b) \<times> 's" where
  "on_ok r k = (case r of (Inl e, s) \<Rightarrow> (Inl e, s) | (Inr a, s) \<Rightarrow> k a s)"

lemma on_ok_simps [simp]:
  "on_ok (Inl e, s) k = (Inl e, s)" "on_ok (Inr a, s) k = k a s"
  by (simp_all add: on_ok_def)

lemma on_ok_InrE:
  assumes "on_ok r k = (Inr b, s')"
  obtains a s where "r = (Inr a, s)" "k a s = (Inr b, s')"
  using assms by (auto simp: on_ok_def split: prod.splits sum.splits)

section \<open>System calls\<close>

text \<open>A call that moves no data: \<open>open\<close>, \<open>metadata\<close>, \<open>seek\<close>, \<open>read_to_end\<close>.\<close>

definition sys_call :: "os_file \<Rightarrow> (io_error + unit) \<times> os_file" where
  "sys_call f = (case script f of
     [] \<Rightarrow> (Inr (), f)
   | None # sc \<Rightarrow> (Inr (), f\<lparr>script := sc\<rparr>)
   | Some n # sc \<Rightarrow> (Inl IoError, f\<lparr>script := sc\<rparr>))"

definition sys_write :: "bytes \<Rightarrow> os_file \<Rightarrow> (io_error + unit) \<times> os_file" where
  "sys_write bs f = (case script f of
     [] \<Rightarrow> (Inr (), f\<lparr>contents := contents f @ bs\<rparr>)
   | None # sc \<Rightarrow> (Inr (), f\<lparr>contents := contents f @ bs, script := sc\<rparr>)
   | Some n # sc \<Rightarrow> (Inl IoError, f\<lparr>contents := contents f @ take n bs, script := sc\<rparr>))"

definition sys_open_create :: "os_file \<Rightarrow> (io_error + unit) \<times> os_file" where
  "sys_open_create f = on_ok (sys_call f) (\<lambda>_ f. (Inr (), f\<lparr>present := True\<rparr>))"

definition sys_remove :: "os_file \<Rightarrow> (io_error + unit) \<times> os_file" where
  "sys_remove f = on_ok (sys_call f) (\<lambda>_ f. (Inr (), f\<lparr>present := False, contents := [], synced := 0\<rparr>))"

definition sys_sync :: "os_file \<Rightarrow> (io_error + unit) \<times> os_file" where
  "sys_sync f = on_ok (sys_call f) (\<lambda>_ f. (Inr (), f\<lparr>synced := length (contents f)\<rparr>))"

definition sys_set_len :: "nat \<Rightarrow> os_file \<Rightarrow> (io_error + unit) \<times> os_file" where
  "sys_set_len n f = on_ok (sys_call f)
     (\<lambda>_ f. (Inr (), f\<lparr>contents := take n (contents f), synced := min n (synced f)\<rparr>))"

text \<open>What the file may hold after a power failure that kept \<open>k\<close> bytes, at least the synced ones;
  what is read back afterwards is on the medium.\<close>

definition crash :: "nat \<Rightarrow> os_file \<Rightarrow> os_file" where
  "crash k f = (let kept_bytes = take (max k (synced f)) (contents f) in
     \<lparr>present = present f, contents = kept_bytes, synced = length kept_bytes, script = []\<rparr>)"

section \<open>BufWriter\<close>

record buf_writer =
  inner :: os_file
  buf :: bytes

definition BUF_CAPACITY :: nat where
  "BUF_CAPACITY = 8192"

definition buf_new :: "os_file \<Rightarrow> buf_writer" where
  "buf_new f = \<lparr>inner = f, buf = []\<rparr>"

text \<open>\<open>flush_buf\<close>: after an error the bytes that reached the file leave the buffer.\<close>

definition flush_buf :: "buf_writer \<Rightarrow> (io_error + unit) \<times> buf_writer" where
  "flush_buf w = (if buf w = [] then (Inr (), w) else
     (case sys_write (buf w) (inner w) of
        (Inr _, f) \<Rightarrow> (Inr (), \<lparr>inner = f, buf = []\<rparr>)
      | (Inl e, f) \<Rightarrow> (Inl e, \<lparr>inner = f,
            buf = drop (length (contents f) - length (contents (inner w))) (buf w)\<rparr>)))"

definition write_all_cold :: "bytes \<Rightarrow> buf_writer \<Rightarrow> (io_error + unit) \<times> buf_writer" where
  "write_all_cold bs w =
     (case (if length bs > BUF_CAPACITY - length (buf w) then flush_buf w else (Inr (), w)) of
        (Inl e, w') \<Rightarrow> (Inl e, w')
      | (Inr _, w') \<Rightarrow>
          (if length bs \<ge> BUF_CAPACITY
           then (case sys_write bs (inner w') of (r, f) \<Rightarrow> (r, w'\<lparr>inner := f\<rparr>))
           else (Inr (), w'\<lparr>buf := buf w' @ bs\<rparr>)))"

definition buf_write_all :: "bytes \<Rightarrow> buf_writer \<Rightarrow> (io_error + unit) \<times> buf_writer" where
  "buf_write_all bs w =
     (if length bs < BUF_CAPACITY - length (buf w)
      then (Inr (), w\<lparr>buf := buf w @ bs\<rparr>)
      else write_all_cold bs w)"

text \<open>The bytes written so far, in order: those in the file, then those still buffered.\<close>

definition logical :: "buf_writer \<Rightarrow> bytes" where
  "logical w = contents (inner w) @ buf w"

section \<open>Behaviour without faults\<close>

lemma sys_call_ok [io_ok]: "script f = [] \<Longrightarrow> sys_call f = (Inr (), f)"
  by (simp add: sys_call_def)

lemma sys_write_ok [io_ok]:
  "script f = [] \<Longrightarrow> sys_write bs f = (Inr (), f\<lparr>contents := contents f @ bs\<rparr>)"
  by (simp add: sys_write_def)

lemma sys_sync_ok [io_ok]:
  "script f = [] \<Longrightarrow> sys_sync f = (Inr (), f\<lparr>synced := length (contents f)\<rparr>)"
  by (simp add: sys_sync_def sys_call_def)

lemma sys_set_len_ok [io_ok]:
  "script f = [] \<Longrightarrow>
   sys_set_len n f = (Inr (), f\<lparr>contents := take n (contents f), synced := min n (synced f)\<rparr>)"
  by (simp add: sys_set_len_def sys_call_def)

lemma sys_open_create_ok [io_ok]:
  "script f = [] \<Longrightarrow> sys_open_create f = (Inr (), f\<lparr>present := True\<rparr>)"
  by (simp add: sys_open_create_def sys_call_def)

lemma sys_remove_ok [io_ok]:
  "script f = [] \<Longrightarrow> sys_remove f = (Inr (), f\<lparr>present := False, contents := [], synced := 0\<rparr>)"
  by (simp add: sys_remove_def sys_call_def)

lemma flush_buf_ok [io_ok]:
  "script (inner w) = [] \<Longrightarrow>
   flush_buf w = (Inr (), \<lparr>inner = (inner w)\<lparr>contents := logical w\<rparr>, buf = []\<rparr>)"
  by (cases w) (auto simp: flush_buf_def sys_write_ok logical_def)

text \<open>Without faults a buffered write appends to the logical contents, whatever part of it
  stays in the buffer, and leaves the synced prefix alone.\<close>

lemma buf_write_all_ok:
  assumes "script (inner w) = []"
  shows "\<exists>w'. buf_write_all bs w = (Inr (), w') \<and> logical w' = logical w @ bs \<and>
     script (inner w') = [] \<and> synced (inner w') = synced (inner w)"
proof -
  have "\<exists>w'. write_all_cold bs w = (Inr (), w') \<and> logical w' = logical w @ bs \<and>
     script (inner w') = [] \<and> synced (inner w') = synced (inner w)"
  proof (cases "length bs > BUF_CAPACITY - length (buf w)")
    case True
    then show ?thesis using assms
      by (auto simp: write_all_cold_def flush_buf_ok sys_write_ok logical_def)
  next
    case False
    have "buf w = []" if "length bs \<ge> BUF_CAPACITY"
      using that False by (cases "buf w") (auto simp: BUF_CAPACITY_def)
    with False show ?thesis using assms
      by (auto simp: write_all_cold_def sys_write_ok logical_def)
  qed
  then show ?thesis using assms
    by (auto simp: buf_write_all_def logical_def)
qed

section \<open>Behaviour with faults\<close>

text \<open>Whatever the script, a write puts a prefix of its bytes at the end of the logical
  contents, all of them if it returns \<open>Ok\<close>; nothing already written changes.\<close>

definition extends :: "bytes \<Rightarrow> bytes \<Rightarrow> bool \<Rightarrow> bytes \<Rightarrow> bool" where
  "extends new old complete bs \<longleftrightarrow> (\<exists>k. new = old @ take k bs \<and> (complete \<longrightarrow> take k bs = bs))"

definition grows :: "os_file \<Rightarrow> os_file \<Rightarrow> bool" where
  "grows f f' \<longleftrightarrow> (\<exists>bs. contents f' = contents f @ bs) \<and> synced f' = synced f \<and> present f' = present f"

lemma grows_refl [simp]: "grows f f"
  by (simp add: grows_def)

lemma grows_trans: "grows f g \<Longrightarrow> grows g h \<Longrightarrow> grows f h"
  by (auto simp: grows_def)

lemma sys_call_keeps:
  "sys_call f = (r, f') \<Longrightarrow> contents f' = contents f \<and> synced f' = synced f \<and> present f' = present f"
  by (auto simp: sys_call_def split: list.splits option.splits)

lemma sys_write_cases:
  assumes "sys_write bs f = (r, f')"
  shows "extends (contents f') (contents f) (\<not> isl r) bs \<and> grows f f'"
  using assms
  by (auto simp: sys_write_def extends_def grows_def split: list.splits option.splits
      intro: exI [of _ "length bs"])

lemma flush_buf_cases:
  assumes "flush_buf w = (r, w')"
  shows "logical w' = logical w \<and> (isl r \<or> buf w' = []) \<and> grows (inner w) (inner w')"
proof (cases "buf w = []")
  case True
  then show ?thesis using assms by (auto simp: flush_buf_def)
next
  case False
  obtain q f where q: "sys_write (buf w) (inner w) = (q, f)" by fastforce
  have "take k xs @ drop (min (length xs) k) xs = xs" for k and xs :: bytes
    by (simp add: min_def)
  with sys_write_cases [OF q] show ?thesis
    using assms False q by (cases q) (auto simp: flush_buf_def logical_def extends_def)
qed

lemma buf_write_all_cases:
  assumes "buf_write_all bs w = (r, w')"
  shows "extends (logical w') (logical w) (\<not> isl r) bs \<and> grows (inner w) (inner w')"
proof (cases "length bs < BUF_CAPACITY - length (buf w)")
  case True
  then show ?thesis using assms
    by (auto simp: buf_write_all_def logical_def extends_def intro: exI [of _ "length bs"])
next
  case False
  define p where "p = (if length bs > BUF_CAPACITY - length (buf w) then flush_buf w else (Inr (), w))"
  obtain q w1 where pq: "p = (q, w1)" by fastforce
  have w1: "logical w1 = logical w" "grows (inner w) (inner w1)"
    using pq flush_buf_cases [of w q w1] by (auto simp: p_def split: if_splits)
  have wa: "write_all_cold bs w = (r, w')"
    using False assms by (simp add: buf_write_all_def)
  show ?thesis
  proof (cases q)
    case (Inl e)
    then show ?thesis using wa w1 pq
      by (auto simp: write_all_cold_def p_def [symmetric] extends_def intro: exI [of _ 0])
  next
    case (Inr u)
    have empty: "buf w1 = []" if "length bs \<ge> BUF_CAPACITY"
    proof (cases "length bs > BUF_CAPACITY - length (buf w)")
      case True
      then show ?thesis using pq flush_buf_cases [of w q w1] Inr by (simp add: p_def)
    next
      case False
      with that have "buf w = []" by (cases "buf w") (auto simp: BUF_CAPACITY_def)
      with False pq show ?thesis by (simp add: p_def)
    qed
    obtain q2 f where q2: "sys_write bs (inner w1) = (q2, f)" by fastforce
    show ?thesis
    proof (cases "length bs \<ge> BUF_CAPACITY")
      case True
      then have "w' = w1\<lparr>inner := f\<rparr>" "r = q2"
        using wa pq Inr q2 by (auto simp: write_all_cold_def p_def [symmetric])
      then show ?thesis
        using w1 empty [OF True] sys_write_cases [OF q2] grows_trans [OF w1(2)]
        by (simp add: extends_def logical_def)
    next
      case False
      then show ?thesis
        using wa w1 pq Inr
        by (auto simp: write_all_cold_def p_def [symmetric] extends_def logical_def
            intro: exI [of _ "length bs"])
    qed
  qed
qed

end
