(* ===== verification/Atomic_File.thy ===== *)
theory Atomic_File
  imports Disk
begin

text \<open>
  Replacing a file atomically: write a temporary file, sync it, rename it over the destination,
  sync the directory.  Shard snapshots (\<open>qv-storage/src/snapshot.rs\<close>) and the two files of the
  Raft store (\<open>qv-cluster/src/raft/store.rs\<close>) are written this way.

  Until the directory is synced a crash may bring the previous file back: \<open>af_old\<close> is what the
  directory entry on stable storage names.  Calls on the directory itself (rename, its opening
  and syncing) take their outcomes from the script of \<open>af_dir\<close>.
\<close>

record afile =
  af_file :: os_file
  af_old :: os_file
  af_tmp :: os_file
  af_dir :: os_file

definition afile_new :: afile where
  "afile_new = \<lparr>af_file = empty_file, af_old = empty_file, af_tmp = empty_file, af_dir = empty_file\<rparr>"

definition on_tmp :: "(os_file \<Rightarrow> (io_error + 'a) \<times> os_file) \<Rightarrow> afile \<Rightarrow> (io_error + 'a) \<times> afile" where
  "on_tmp act af = (case act (af_tmp af) of (r, f) \<Rightarrow> (r, af\<lparr>af_tmp := f\<rparr>))"

definition sys_truncate_create :: "os_file \<Rightarrow> (io_error + unit) \<times> os_file" where
  "sys_truncate_create f = on_ok (sys_call f) (\<lambda>_ f. (Inr (), f\<lparr>present := True, contents := [], synced := 0\<rparr>))"

text \<open>The atomic replace: the name now refers to the temporary file.\<close>

definition af_rename :: "afile \<Rightarrow> (io_error + unit) \<times> afile" where
  "af_rename af = (case sys_call (af_dir af) of
     (Inl e, d) \<Rightarrow> (Inl e, af\<lparr>af_dir := d\<rparr>)
   | (Inr _, d) \<Rightarrow> (Inr (), af\<lparr>af_dir := d, af_file := af_tmp af, af_tmp := empty_file\<rparr>))"

text \<open>\<open>if let Ok(dir) = File::open(parent) { let _ = dir.sync_all(); }\<close>: errors are ignored.\<close>

definition af_sync_dir :: "afile \<Rightarrow> afile" where
  "af_sync_dir af = (case sys_call (af_dir af) of
     (Inl _, d) \<Rightarrow> af\<lparr>af_dir := d\<rparr>
   | (Inr _, d) \<Rightarrow> (case sys_call d of
        (Inl _, d) \<Rightarrow> af\<lparr>af_dir := d\<rparr>
      | (Inr _, d) \<Rightarrow> af\<lparr>af_dir := d, af_old := af_file af\<rparr>))"

definition atomic_write :: "bytes \<Rightarrow> afile \<Rightarrow> (io_error + unit) \<times> afile" where
  "atomic_write bs af =
     on_ok (on_tmp sys_truncate_create af) (\<lambda>_ af.
     on_ok (on_tmp (sys_write bs) af) (\<lambda>_ af.
     on_ok (on_tmp sys_sync af) (\<lambda>_ af.
     on_ok (af_rename af) (\<lambda>_ af.
     (Inr (), af_sync_dir af)))))"

text \<open>A crash keeps the new name or falls back to the one on stable storage; what a replaced
  file holds was synced before the rename.\<close>

definition af_crash :: "bool \<Rightarrow> afile \<Rightarrow> afile" where
  "af_crash b af = (let f = crash 0 (if b then af_file af else af_old af) in
     \<lparr>af_file = f, af_old = f, af_tmp = crash 0 (af_tmp af), af_dir = crash 0 (af_dir af)\<rparr>)"

section \<open>What the two slots hold\<close>

text \<open>The file is absent, or holds synced bytes for which \<open>Q\<close> holds.\<close>

definition slot_holds :: "(bytes \<Rightarrow> bool) \<Rightarrow> os_file \<Rightarrow> bool" where
  "slot_holds Q f \<longleftrightarrow> (present f \<longrightarrow> synced f = length (contents f) \<and> Q (contents f))"

definition af_holds :: "(bytes \<Rightarrow> bool) \<Rightarrow> afile \<Rightarrow> bool" where
  "af_holds Q af \<longleftrightarrow> slot_holds Q (af_file af) \<and> slot_holds Q (af_old af)"

lemma af_holds_mono: "af_holds Q af \<Longrightarrow> (\<And>bs. Q bs \<Longrightarrow> R bs) \<Longrightarrow> af_holds R af"
  by (auto simp: af_holds_def slot_holds_def)

lemma on_tmp_keeps:
  "on_tmp act af = (r, af') \<Longrightarrow> af_file af' = af_file af \<and> af_old af' = af_old af \<and> af_dir af' = af_dir af"
  by (auto simp: on_tmp_def split: prod.splits)

lemma on_tmp_cases:
  assumes "on_tmp act af = (r, af')"
  obtains f where "act (af_tmp af) = (r, f)" "af' = af\<lparr>af_tmp := f\<rparr>"
  using assms by (auto simp: on_tmp_def split: prod.splits)

lemma af_sync_dir_slots:
  "af_file (af_sync_dir af) = af_file af"
  "af_old (af_sync_dir af) = af_old af \<or> af_old (af_sync_dir af) = af_file af"
  by (auto simp: af_sync_dir_def split: prod.splits sum.splits)

lemma sys_sync_Inr:
  assumes "sys_sync f = (Inr u, f')"
  shows "contents f' = contents f \<and> synced f' = length (contents f) \<and> present f' = present f"
proof -
  obtain q g where q: "sys_call f = (q, g)" by fastforce
  then show ?thesis using assms sys_call_keeps [OF q] by (cases q) (auto simp: sys_sync_def)
qed

text \<open>The three calls on the temporary file: on success it holds the bytes, synced.\<close>

lemma write_tmp:
  assumes "on_ok (on_tmp sys_truncate_create af) (\<lambda>_ af. on_ok (on_tmp (sys_write bs) af) (\<lambda>_ af. on_tmp sys_sync af)) = (r, af')"
  shows "af_file af' = af_file af \<and> af_old af' = af_old af \<and> af_dir af' = af_dir af \<and>
    (\<not> isl r \<longrightarrow> present (af_tmp af') \<and> contents (af_tmp af') = bs \<and> synced (af_tmp af') = length bs)"
proof -
  obtain r1 a1 where a1: "on_tmp sys_truncate_create af = (r1, a1)" by fastforce
  obtain r2 a2 where a2: "on_tmp (sys_write bs) a1 = (r2, a2)" by fastforce
  obtain r3 a3 where a3: "on_tmp sys_sync a2 = (r3, a3)" by fastforce
  note k = on_tmp_keeps [OF a1] on_tmp_keeps [OF a2] on_tmp_keeps [OF a3]
  show ?thesis
  proof (cases "isl r1 \<or> isl r2 \<or> isl r3")
    case True
    then show ?thesis using assms a1 a2 a3 k by (cases r1; cases r2; cases r3) auto
  next
    case False
    then obtain u1 u2 u3 where r: "r1 = Inr u1" "r2 = Inr u2" "r3 = Inr u3" by (metis isl_def sum.exhaust)
    obtain f1 where f1: "sys_truncate_create (af_tmp af) = (Inr u1, f1)" "a1 = af\<lparr>af_tmp := f1\<rparr>"
      using a1 r(1) by (auto elim: on_tmp_cases)
    obtain f2 where f2: "sys_write bs (af_tmp a1) = (Inr u2, f2)" "a2 = a1\<lparr>af_tmp := f2\<rparr>"
      using a2 r(2) by (auto elim: on_tmp_cases)
    obtain f3 where f3: "sys_sync (af_tmp a2) = (Inr u3, f3)" "a3 = a2\<lparr>af_tmp := f3\<rparr>"
      using a3 r(3) by (auto elim: on_tmp_cases)
    have "contents f1 = []" "present f1"
      using f1(1) by (auto simp: sys_truncate_create_def on_ok_def split: prod.splits sum.splits)
    then have "contents f2 = bs" "present f2"
      using sys_write_cases [OF f2(1)] f1(2) by (auto simp: extends_def grows_def)
    then have "contents f3 = bs" "synced f3 = length bs" "present f3"
      using sys_sync_Inr [OF f3(1)] f2(2) by simp_all
    moreover have "af' = a3" using assms a1 a2 a3 r by simp
    ultimately show ?thesis using f3(2) k by auto
  qed
qed

lemma atomic_write_split:
  "atomic_write bs af = on_ok (on_ok (on_tmp sys_truncate_create af) (\<lambda>_ af. on_ok (on_tmp (sys_write bs) af) (\<lambda>_ af. on_tmp sys_sync af)))
     (\<lambda>_ af. on_ok (af_rename af) (\<lambda>_ af. (Inr (), af_sync_dir af)))"
  by (auto simp: atomic_write_def on_ok_def split: prod.splits sum.splits)

text \<open>A write that fails anywhere leaves both slots alone; one that succeeds puts the new bytes
  into place, and the other slot still holds bytes that were there or the new ones.\<close>

lemma atomic_write_cases:
  assumes "atomic_write bs af = (r, af')"
  shows "if isl r then af_file af' = af_file af \<and> af_old af' = af_old af
    else present (af_file af') \<and> contents (af_file af') = bs \<and> synced (af_file af') = length bs \<and>
      (af_old af' = af_old af \<or> af_old af' = af_file af')"
proof -
  obtain q a where q: "on_ok (on_tmp sys_truncate_create af) (\<lambda>_ af. on_ok (on_tmp (sys_write bs) af) (\<lambda>_ af. on_tmp sys_sync af)) = (q, a)"
    by fastforce
  note t = write_tmp [OF q]
  show ?thesis
  proof (cases q)
    case (Inl e)
    then show ?thesis using assms q t by (auto simp: atomic_write_split)
  next
    case (Inr u)
    obtain q2 d where d: "sys_call (af_dir a) = (q2, d)" by fastforce
    show ?thesis
    proof (cases q2)
      case (Inl e)
      then show ?thesis using assms q t Inr d by (auto simp: atomic_write_split af_rename_def)
    next
      case r2: (Inr u2)
      let ?a = "a\<lparr>af_dir := d, af_file := af_tmp a, af_tmp := empty_file\<rparr>"
      have "r = Inr ()" "af' = af_sync_dir ?a" using assms q Inr d r2 by (auto simp: atomic_write_split af_rename_def)
      with t Inr af_sync_dir_slots [of ?a] show ?thesis by auto
    qed
  qed
qed

lemma atomic_write_holds:
  assumes "atomic_write bs af = (r, af')" "af_holds Q af" "Q bs"
  shows "af_holds Q af'"
  using atomic_write_cases [OF assms(1)] assms(2,3) by (auto simp: af_holds_def slot_holds_def split: if_splits)

lemma af_crash_holds: "af_holds Q af \<Longrightarrow> af_holds Q (af_crash b af) \<and> script (af_file (af_crash b af)) = []"
  by (cases b) (auto simp: af_holds_def slot_holds_def af_crash_def Let_def crash_def)

text \<open>Without faults the write succeeds and the directory is synced.\<close>

lemma atomic_write_ok:
  assumes "script (af_tmp af) = []" "script (af_dir af) = []"
  shows "\<exists>af'. atomic_write bs af = (Inr (), af') \<and> af_old af' = af_file af' \<and> script (af_file af') = [] \<and>
    script (af_tmp af') = [] \<and> script (af_dir af') = []"
  using assms
  by (simp add: atomic_write_def on_tmp_def sys_truncate_create_def sys_call_ok sys_write_ok sys_sync_ok af_rename_def
      af_sync_dir_def empty_file_def)

text \<open>Without faults on the directory a write that returns \<open>Ok\<close> is on stable storage.\<close>

lemma atomic_write_synced:
  assumes "atomic_write bs af = (Inr u, af')" "script (af_dir af) = []"
  shows "af_old af' = af_file af' \<and> script (af_dir af') = []"
proof -
  obtain q a where q: "on_ok (on_tmp sys_truncate_create af) (\<lambda>_ af. on_ok (on_tmp (sys_write bs) af) (\<lambda>_ af. on_tmp sys_sync af)) = (q, a)"
    by fastforce
  then have "af_dir a = af_dir af" using write_tmp by blast
  then have d: "sys_call (af_dir a) = (Inr (), af_dir a)" "script (af_dir a) = []" using assms(2) by (simp_all add: sys_call_ok)
  then show ?thesis using assms(1) q
    by (cases q) (auto simp: atomic_write_split af_rename_def af_sync_dir_def)
qed

end
