(* ===== verification/Hlc.thy ===== *)
theory Hlc
  imports QV_Prelude
begin

text \<open>
  The hybrid logical clock of \<open>qv-storage/src/hlc.rs\<close>: the timestamp type with its derived
  lexicographic order, its packed 64-bit form, and the clock generator (\<open>HlcClock\<close>) as a
  state machine whose only state is the last issued timestamp.  The system clock is an
  argument of each call.
\<close>

unbundle bit_operations_syntax

section \<open>The timestamp\<close>

datatype hlc = Hlc (wall_ms: u64) (counter: u16)

text \<open>\<open>derive(PartialOrd, Ord)\<close> compares the fields in declaration order.\<close>

instantiation hlc :: linorder
begin

definition less_eq_hlc :: "hlc \<Rightarrow> hlc \<Rightarrow> bool" where
  "less_eq_hlc a b \<longleftrightarrow> wall_ms a < wall_ms b \<or> wall_ms a = wall_ms b \<and> counter a \<le> counter b"

definition less_hlc :: "hlc \<Rightarrow> hlc \<Rightarrow> bool" where
  "less_hlc a b \<longleftrightarrow> wall_ms a < wall_ms b \<or> wall_ms a = wall_ms b \<and> counter a < counter b"

instance
  by standard (auto simp: less_eq_hlc_def less_hlc_def hlc.expand)

end

lemmas hlc_order = less_eq_hlc_def less_hlc_def

definition hlc_ZERO :: hlc where
  "hlc_ZERO = Hlc 0 0"

definition hlc_new :: "u64 \<Rightarrow> u16 \<Rightarrow> hlc" where
  "hlc_new wall c = Hlc (wall AND 0xFFFFFFFFFFFF) c"

definition hlc_pack :: "hlc \<Rightarrow> u64" where
  "hlc_pack h = push_bit 16 (wall_ms h AND 0xFFFFFFFFFFFF) OR ucast (counter h)"

definition hlc_unpack :: "u64 \<Rightarrow> hlc" where
  "hlc_unpack v = Hlc (drop_bit 16 v) (ucast (v AND 0xFFFF))"

text \<open>The invariant of every timestamp made by \<open>new\<close> or \<open>unpack\<close>: the wall part has 48 bits.\<close>

definition hlc_ok :: "hlc \<Rightarrow> bool" where
  "hlc_ok h \<longleftrightarrow> unat (wall_ms h) < 2 ^ 48"

definition hlc_MAX :: hlc where
  "hlc_MAX = Hlc 0xFFFFFFFFFFFF 0xFFFF"

lemma mask48: "(0xFFFFFFFFFFFF :: u64) = mask 48"
  by (simp add: mask_eq_exp_minus_1)

lemma mask16: "(0xFFFF :: u64) = mask 16"
  by (simp add: mask_eq_exp_minus_1)

lemma unat_and_mask48: "unat (w AND 0xFFFFFFFFFFFF :: u64) = unat w mod 2 ^ 48"
proof -
  have "unat (take_bit 48 w) = take_bit 48 (unat w)" by (simp add: unsigned_take_bit_eq)
  then show ?thesis
    by (simp only: mask48 take_bit_eq_mod [of 48 "unat w"] flip: take_bit_eq_mask)
qed

lemma and_mask48_id: "unat w < 2 ^ 48 \<Longrightarrow> (w AND 0xFFFFFFFFFFFF :: u64) = w"
  by (simp add: word_unat_eq_iff unat_and_mask48)

lemma unat_hlc_pack:
  assumes "hlc_ok h"
  shows "unat (hlc_pack h) = unat (wall_ms h) * 2 ^ 16 + unat (counter h)"
proof -
  have c: "unat (counter h) < 2 ^ 16"
    using unsigned_less [of "counter h", where 'a = nat] by simp
  have w: "unat (wall_ms h) < 2 ^ 48" using assms by (simp add: hlc_ok_def)
  have "hlc_pack h = push_bit 16 (wall_ms h) + ucast (counter h)"
    unfolding hlc_pack_def and_mask48_id [OF w]
    by (rule disjunctive_add [symmetric]) (auto simp: bit_simps dest: bit_imp_le_length)
  moreover have "unat (push_bit 16 (wall_ms h)) = unat (wall_ms h) * 2 ^ 16"
    using w by (simp add: push_bit_eq_mult unat_word_ariths)
  moreover have "unat (ucast (counter h) :: u64) = unat (counter h)"
    using c by (simp add: unsigned_ucast_eq take_bit_eq_mod)
  ultimately show ?thesis
    using c w by (simp add: unat_word_ariths)
qed


lemma hlc_ok_new [simp]: "hlc_ok (hlc_new w c)"
  by (simp add: hlc_ok_def hlc_new_def unat_and_mask48)

lemma hlc_ok_ZERO [simp]: "hlc_ok hlc_ZERO"
  by (simp add: hlc_ok_def hlc_ZERO_def)

lemma hlc_new_id: "unat w < 2 ^ 48 \<Longrightarrow> hlc_new w c = Hlc w c"
  by (simp add: hlc_new_def and_mask48_id)

lemma unat_drop16: "unat (drop_bit 16 v :: u64) = unat v div 2 ^ 16"
  by (simp add: drop_bit_eq_div unat_div_distrib)

lemma unat_low16: "unat (ucast (v AND 0xFFFF :: u64) :: u16) = unat v mod 2 ^ 16"
proof -
  have "(ucast (v AND mask 16) :: u16) = ucast v"
    by (rule bit_word_eqI) (simp add: bit_simps)
  moreover have "unat (ucast v :: u16) = take_bit 16 (unat v)"
    by (simp add: unsigned_ucast_eq)
  ultimately show ?thesis
    by (simp only: mask16 take_bit_eq_mod [of 16 "unat v"])
qed

lemma hlc_ok_unpack [simp]: "hlc_ok (hlc_unpack v)"
  using unsigned_less [of v, where 'a = nat]
  by (simp add: hlc_ok_def hlc_unpack_def unat_drop16)

lemma hlc_unpack_pack [codec]: "hlc_ok h \<Longrightarrow> hlc_unpack (hlc_pack h) = h"
  using unsigned_less [of "counter h", where 'a = nat]
  by (cases h) (simp add: hlc_unpack_def word_unat_eq_iff unat_drop16 unat_low16 unat_hlc_pack)

lemma hlc_pack_unpack [codec]: "hlc_pack (hlc_unpack v) = v"
proof -
  have "unat (hlc_pack (hlc_unpack v)) = unat v"
    unfolding unat_hlc_pack [OF hlc_ok_unpack]
    by (simp add: hlc_unpack_def unat_drop16 unat_low16)
  then show ?thesis by (simp add: word_unat_eq_iff)
qed

lemma hlc_less_lex:
  "a < b \<longleftrightarrow> unat (wall_ms a) < unat (wall_ms b) \<or>
     unat (wall_ms a) = unat (wall_ms b) \<and> unat (counter a) < unat (counter b)" for a b :: hlc
  by (auto simp: less_hlc_def word_less_nat_alt word_unat_eq_iff)

lemma mult_add_less_iff:
  "(x::nat) < n \<Longrightarrow> y < n \<Longrightarrow> a * n + x < b * n + y \<longleftrightarrow> a < b \<or> a = b \<and> x < y"
proof -
  assume x: "x < n" and y: "y < n"
  show ?thesis
  proof (cases a b rule: linorder_cases)
    case less
    then have "Suc a * n \<le> b * n" by (intro mult_le_mono1) simp
    with x less show ?thesis by simp
  next
    case greater
    then have "Suc b * n \<le> a * n" by (intro mult_le_mono1) simp
    with y greater show ?thesis by simp
  qed simp
qed

lemma hlc_pack_less: "hlc_ok a \<Longrightarrow> hlc_ok b \<Longrightarrow> hlc_pack a < hlc_pack b \<longleftrightarrow> a < b"
  unfolding word_less_nat_alt hlc_less_lex
  using unsigned_less [of "counter a", where 'a = nat] unsigned_less [of "counter b", where 'a = nat]
  by (simp add: unat_hlc_pack mult_add_less_iff)

section \<open>The clock\<close>

text \<open>
  \<open>SystemTime::now().duration_since(UNIX_EPOCH)\<close> is \<open>None\<close> before the epoch; otherwise its
  milliseconds, an unbounded number cut to \<open>u64\<close> and then to 48 bits.
\<close>

definition wall_now_ms :: "nat option \<Rightarrow> u64" where
  "wall_now_ms t = (case t of Some ms \<Rightarrow> of_nat ms | None \<Rightarrow> 0) AND 0xFFFFFFFFFFFF"

record hlc_clock =
  last_hlc :: hlc

definition clock_new :: hlc_clock where
  "clock_new = \<lparr>last_hlc = hlc_ZERO\<rparr>"

definition u16_checked_add1 :: "u16 \<Rightarrow> u16 option" where
  "u16_checked_add1 c = (if c = 0xFFFF then None else Some (c + 1))"

definition u16_saturating_add1 :: "u16 \<Rightarrow> u16" where
  "u16_saturating_add1 c = (if c = 0xFFFF then 0xFFFF else c + 1)"

definition clock_now :: "nat option \<Rightarrow> hlc_clock \<Rightarrow> hlc \<times> hlc_clock" where
  "clock_now t ck =
     (let last = last_hlc ck; wall = wall_now_ms t;
          nxt = (if wall > wall_ms last then hlc_new wall 0
                 else (case u16_checked_add1 (counter last) of
                         Some c \<Rightarrow> hlc_new (wall_ms last) c
                       | None \<Rightarrow> hlc_new (wall_ms last + 1) 0))
      in (nxt, ck\<lparr>last_hlc := nxt\<rparr>))"

definition clock_update :: "nat option \<Rightarrow> hlc \<Rightarrow> hlc_clock \<Rightarrow> hlc \<times> hlc_clock" where
  "clock_update t remote ck =
     (let last = last_hlc ck; wall = wall_now_ms t;
          max_wall = max (max wall (wall_ms last)) (wall_ms remote);
          nxt = (if max_wall = wall_ms last \<and> max_wall = wall_ms remote
                 then hlc_new max_wall (u16_saturating_add1 (max (counter last) (counter remote)))
                 else if max_wall = wall_ms last
                 then hlc_new max_wall (u16_saturating_add1 (counter last))
                 else if max_wall = wall_ms remote
                 then hlc_new max_wall (u16_saturating_add1 (counter remote))
                 else hlc_new max_wall 0)
      in (nxt, ck\<lparr>last_hlc := nxt\<rparr>))"

definition clock_ok :: "hlc_clock \<Rightarrow> bool" where
  "clock_ok ck \<longleftrightarrow> hlc_ok (last_hlc ck)"

lemma clock_ok_new [simp]: "clock_ok clock_new"
  by (simp add: clock_ok_def clock_new_def)

lemma wall_now_ms_bound: "unat (wall_now_ms t) < 2 ^ 48"
  by (simp add: wall_now_ms_def unat_and_mask48)

lemma clock_now_fst: "fst (clock_now t ck) = last_hlc (snd (clock_now t ck))"
  by (simp add: clock_now_def Let_def)

lemma clock_update_fst: "fst (clock_update t r ck) = last_hlc (snd (clock_update t r ck))"
  by (simp add: clock_update_def Let_def)

lemma clock_now_ok [simp]: "clock_ok (snd (clock_now t ck))"
  by (auto simp: clock_now_def clock_ok_def Let_def split: option.splits)

lemma clock_update_ok [simp]: "clock_ok (snd (clock_update t r ck))"
  by (auto simp: clock_update_def clock_ok_def Let_def)

lemma u16_succ_less: "c \<noteq> 0xFFFF \<Longrightarrow> (c :: u16) < c + 1"
proof -
  assume "c \<noteq> 0xFFFF"
  then have "unat c \<noteq> 0xFFFF" by (simp add: word_unat_eq_iff)
  with unsigned_less [of c, where 'a = nat] have "unat c + 1 < 2 ^ 16" by simp
  then show ?thesis by (simp add: word_less_nat_alt unat_word_ariths)
qed


lemma hlc_ok_succ_wall: "hlc_ok h \<Longrightarrow> wall_ms h \<noteq> 0xFFFFFFFFFFFF \<Longrightarrow>
    unat (wall_ms h + 1) = unat (wall_ms h) + 1 \<and> unat (wall_ms h) + 1 < 2 ^ 48"
  by (auto simp: hlc_ok_def word_unat_eq_iff unat_word_ariths)

lemma clock_now_greater:
  assumes "clock_ok ck" "last_hlc ck \<noteq> hlc_MAX"
  shows "last_hlc ck < fst (clock_now t ck)"
proof -
  let ?l = "last_hlc ck"
  have ok: "hlc_ok ?l" using assms(1) by (simp add: clock_ok_def)
  then have id: "hlc_new (wall_ms ?l) c = Hlc (wall_ms ?l) c" for c
    by (simp add: hlc_ok_def hlc_new_id)
  have wall: "hlc_new (wall_now_ms t) 0 = Hlc (wall_now_ms t) 0"
    by (rule hlc_new_id [OF wall_now_ms_bound])
  show ?thesis
  proof (cases "counter ?l = 0xFFFF")
    case True
    with assms(2) have "wall_ms ?l \<noteq> 0xFFFFFFFFFFFF"
      by (cases ?l) (auto simp: hlc_MAX_def)
    with hlc_ok_succ_wall [OF ok] have "hlc_new (wall_ms ?l + 1) 0 = Hlc (wall_ms ?l + 1) 0"
      and "wall_ms ?l < wall_ms ?l + 1"
      by (simp_all add: hlc_new_id word_less_nat_alt)
    with True show ?thesis
      by (simp add: clock_now_def Let_def u16_checked_add1_def wall less_hlc_def)
  next
    case False
    then show ?thesis
      by (simp add: clock_now_def Let_def u16_checked_add1_def wall id less_hlc_def u16_succ_less)
  qed
qed

lemma saturating_add1:
  "c \<le> u16_saturating_add1 c" "c \<noteq> 0xFFFF \<Longrightarrow> c < u16_saturating_add1 c"
  using u16_succ_less [of c] by (auto simp: u16_saturating_add1_def)

text \<open>The wall part of \<open>update\<close> is an upper bound, and where it equals a stamp's own wall part
  the counter moved past that stamp's counter.\<close>

lemma clock_update_bounds:
  assumes "clock_ok ck" "hlc_ok r"
  shows "\<exists>m c. fst (clock_update t r ck) = Hlc m c \<and>
    (\<forall>h \<in> {last_hlc ck, r}. wall_ms h \<le> m \<and> (wall_ms h = m \<longrightarrow> counter h \<le> c \<and>
      (counter (last_hlc ck) \<noteq> 0xFFFF \<and> counter r \<noteq> 0xFFFF \<longrightarrow> counter h < c)))"
proof -
  define m where "m = max (max (wall_now_ms t) (wall_ms (last_hlc ck))) (wall_ms r)"
  have "unat m < 2 ^ 48"
    using assms wall_now_ms_bound [of t] by (auto simp: m_def hlc_ok_def clock_ok_def max_def)
  then have id: "hlc_new m c = Hlc m c" for c by (rule hlc_new_id)
  have "wall_ms (last_hlc ck) \<le> m" "wall_ms r \<le> m" by (auto simp: m_def le_max_iff_disj)
  moreover have "x \<le> u16_saturating_add1 (max x y)" "x \<le> u16_saturating_add1 (max y x)" for x y
    using saturating_add1(1) [of "max x y"] by (auto simp: max.commute)
  moreover have "x < u16_saturating_add1 (max x y)" "x < u16_saturating_add1 (max y x)"
    if "x \<noteq> 0xFFFF" "y \<noteq> 0xFFFF" for x y
  proof -
    have "max x y \<noteq> 0xFFFF" using that by (simp add: max_def)
    then have "max x y < u16_saturating_add1 (max x y)" by (rule saturating_add1)
    then show "x < u16_saturating_add1 (max x y)" "x < u16_saturating_add1 (max y x)"
      by (simp_all add: max.commute)
  qed
  ultimately show ?thesis
    unfolding clock_update_def Let_def m_def [symmetric] id
    by (auto simp: saturating_add1)
qed

lemma clock_update_ge:
  assumes "clock_ok ck" "hlc_ok r"
  shows "last_hlc ck \<le> fst (clock_update t r ck) \<and> r \<le> fst (clock_update t r ck)"
  using clock_update_bounds [OF assms, of t] by (auto simp: less_eq_hlc_def)

lemma clock_update_greater:
  assumes "clock_ok ck" "hlc_ok r" "counter (last_hlc ck) \<noteq> 0xFFFF" "counter r \<noteq> 0xFFFF"
  shows "last_hlc ck < fst (clock_update t r ck) \<and> r < fst (clock_update t r ck)"
  using clock_update_bounds [OF assms(1,2), of t] assms(3,4) by (auto simp: less_hlc_def)

text \<open>The stamps a clock issues over a sequence of \<open>now\<close> calls.\<close>

fun clock_nows :: "nat option list \<Rightarrow> hlc_clock \<Rightarrow> hlc list" where
  "clock_nows [] ck = []"
| "clock_nows (t # ts) ck = (let (h, ck') = clock_now t ck in h # clock_nows ts ck')"

lemma clock_nows_sorted:
  "clock_ok ck \<Longrightarrow> hlc_MAX \<notin> set (last_hlc ck # clock_nows ts ck) \<Longrightarrow>
   sorted_wrt (<) (last_hlc ck # clock_nows ts ck)"
proof (induction ts arbitrary: ck)
  case Nil
  then show ?case by simp
next
  case (Cons t ts)
  obtain h ck' where hk: "clock_now t ck = (h, ck')" by fastforce
  have h: "h = last_hlc ck'" using clock_now_fst [of t ck] hk by simp
  have "clock_ok ck'" using clock_now_ok [of t ck] hk by simp
  moreover have "last_hlc ck < h"
    using clock_now_greater [of ck t] Cons.prems hk by auto
  ultimately show ?case
    using Cons.IH [of ck'] Cons.prems hk h by auto
qed

section \<open>Properties\<close>

text \<open>Packing is lossless on 48-bit timestamps, every packed value is the packing of its
  unpacking, and unpacking always yields a 48-bit timestamp: the packed form is a bijection
  between valid timestamps and \<open>u64\<close>.\<close>

theorem hlc_pack_bijection:
  "(hlc_ok h \<longrightarrow> hlc_unpack (hlc_pack h) = h) \<and> hlc_pack (hlc_unpack v) = v \<and> hlc_ok (hlc_unpack v)"
  by (simp add: hlc_unpack_pack hlc_pack_unpack)

theorem hlc_pack_bijection_witness:
  "hlc_ok (Hlc 0x123456789ABC 0xBEEF) \<and>
   hlc_unpack (hlc_pack (Hlc 0x123456789ABC 0xBEEF)) = Hlc 0x123456789ABC 0xBEEF"
  using hlc_pack_bijection [of "Hlc 0x123456789ABC 0xBEEF"] by (simp add: hlc_ok_def)

text \<open>Numeric order of packed stamps is the order of the timestamps, so replicas may compare
  either form.\<close>

theorem hlc_pack_order:
  assumes "hlc_ok a" "hlc_ok b"
  shows "(hlc_pack a < hlc_pack b \<longleftrightarrow> a < b) \<and> (hlc_pack a = hlc_pack b \<longleftrightarrow> a = b)"
  using assms by (metis hlc_pack_less hlc_unpack_pack)

theorem hlc_pack_order_witness:
  "hlc_ok (Hlc 100 6) \<and> hlc_ok (Hlc 101 0) \<and> hlc_pack (Hlc 100 6) < hlc_pack (Hlc 101 0)"
  using hlc_pack_order [of "Hlc 100 6" "Hlc 101 0"] by (simp add: hlc_ok_def less_hlc_def)

text \<open>C37. Whatever the system clock reads, consecutive \<open>now\<close> calls issue strictly increasing
  stamps, as long as the very last 64-bit stamp is not reached.\<close>

theorem clock_now_strictly_monotonic:
  assumes "clock_ok ck" "hlc_MAX \<notin> set (last_hlc ck # clock_nows ts ck)"
  shows "sorted_wrt (<) (last_hlc ck # clock_nows ts ck)"
  by (rule clock_nows_sorted [OF assms])

theorem clock_now_strictly_monotonic_witness:
  "sorted_wrt (<) (last_hlc clock_new # clock_nows [Some 7, Some 5, None] clock_new)"
  by (rule clock_now_strictly_monotonic)
    (simp_all add: clock_new_def clock_now_def Let_def clock_ok_def wall_now_ms_def hlc_new_def hlc_MAX_def
      hlc_ZERO_def u16_checked_add1_def hlc_ok_def)

text \<open>The receive rule: unless a counter is saturated, \<open>update\<close> issues a stamp greater than
  both the local and the remote one; in every case the result is no smaller than either.\<close>

theorem clock_update_dominates:
  assumes "clock_ok ck" "hlc_ok r"
  shows "last_hlc ck \<le> fst (clock_update t r ck) \<and> r \<le> fst (clock_update t r ck) \<and>
    (counter (last_hlc ck) \<noteq> 0xFFFF \<and> counter r \<noteq> 0xFFFF \<longrightarrow>
       last_hlc ck < fst (clock_update t r ck) \<and> r < fst (clock_update t r ck))"
  using clock_update_ge [OF assms] clock_update_greater [OF assms] by blast

theorem clock_update_dominates_witness:
  "Hlc 1007 50 < fst (clock_update (Some 7) (Hlc 1007 50) clock_new)"
  using clock_update_dominates [of clock_new "Hlc 1007 50" "Some 7"]
  by (simp add: hlc_ok_def clock_new_def hlc_ZERO_def clock_ok_def)

text \<open>When the dominating remote stamp has a saturated counter, \<open>update\<close> returns a stamp equal
  to it, not a greater one: \<open>saturating_add\<close> does not carry into the wall part.\<close>

theorem clock_update_saturates:
  assumes "hlc_ok r" "counter r = 0xFFFF" "wall_now_ms t < wall_ms r" "wall_ms (last_hlc ck) < wall_ms r"
  shows "fst (clock_update t r ck) = r"
  using assms
  by (cases r) (auto simp: clock_update_def Let_def hlc_new_id hlc_ok_def u16_saturating_add1_def max_def)

theorem clock_update_saturates_witness:
  "fst (clock_update (Some 7) (Hlc 9 0xFFFF) clock_new) = Hlc 9 0xFFFF"
  by (rule clock_update_saturates)
    (simp_all add: hlc_ok_def wall_now_ms_def clock_new_def hlc_ZERO_def)

end
