(* ===== verification/Log_Writer.thy ===== *)
theory Log_Writer
  imports Disk Framing
begin

text \<open>
  The writing half the shard log and the hint log have in common: a \<open>BufWriter\<close> and a
  \<open>dirty\<close> flag, the three \<open>write_all\<close> calls that put a frame into it, and \<open>flush\<close>.
  The lemmas describe both under arbitrary I/O faults.
\<close>

record log_writer =
  writer :: buf_writer
  dirty :: bool

definition on_writer ::
  "(buf_writer \<Rightarrow> (io_error + 'a) \<times> buf_writer) \<Rightarrow> 'l log_writer_scheme \<Rightarrow> (io_error + 'a) \<times> 'l log_writer_scheme" where
  "on_writer act lw = (case act (writer lw) of (r, bw) \<Rightarrow> (r, lw\<lparr>writer := bw\<rparr>))"

definition buf_sync :: "buf_writer \<Rightarrow> (io_error + unit) \<times> buf_writer" where
  "buf_sync bw = (case sys_sync (inner bw) of (r, f) \<Rightarrow> (r, bw\<lparr>inner := f\<rparr>))"

text \<open>The frame length is computed with \<open>as u32\<close>, that is modulo \<open>2 ^ 32\<close>.\<close>

definition write_frame ::
  "(bytes \<Rightarrow> u32) \<Rightarrow> bytes \<Rightarrow> 'l log_writer_scheme \<Rightarrow> (io_error + unit) \<times> 'l log_writer_scheme" where
  "write_frame crc body lw =
     on_ok (on_writer (buf_write_all (u32_to_le (of_nat (4 + length body)))) lw) (\<lambda>_ lw.
     on_ok (on_writer (buf_write_all (u32_to_le (crc body))) lw) (\<lambda>_ lw.
     on_writer (buf_write_all body) lw))"

definition log_flush :: "'l log_writer_scheme \<Rightarrow> (io_error + unit) \<times> 'l log_writer_scheme" where
  "log_flush lw =
     (if dirty lw then
        on_ok (on_writer flush_buf lw) (\<lambda>_ lw.
        on_ok (on_writer buf_sync lw) (\<lambda>_ lw.
        (Inr (), lw\<lparr>dirty := False\<rparr>)))
      else (Inr (), lw))"

text \<open>Dropping the writer: the \<open>Drop\<close> of the log (where it has one) flushes, then the
  \<open>BufWriter\<close> writes out what is left; errors are ignored.\<close>

definition log_drop :: "'l log_writer_scheme \<Rightarrow> os_file" where
  "log_drop lw = inner (snd (flush_buf (writer (snd (log_flush lw)))))"

abbreviation log_bytes :: "'l log_writer_scheme \<Rightarrow> bytes" where
  "log_bytes lw \<equiv> logical (writer lw)"

abbreviation log_file :: "'l log_writer_scheme \<Rightarrow> os_file" where
  "log_file lw \<equiv> inner (writer lw)"

text \<open>Every byte written is in the file and on stable storage.\<close>

definition durable :: "'l log_writer_scheme \<Rightarrow> bool" where
  "durable lw \<longleftrightarrow> buf (writer lw) = [] \<and> synced (log_file lw) = length (contents (log_file lw))"

section \<open>Lemmas\<close>

lemma on_writer_cases:
  assumes "on_writer act lw = (r, lw')"
  obtains bw where "act (writer lw) = (r, bw)" "lw' = lw\<lparr>writer := bw\<rparr>"
  using assms by (auto simp: on_writer_def split: prod.splits)

lemma extends_append:
  assumes "extends b a True xs" "extends c b q ys"
  shows "extends c a q (xs @ ys)"
proof -
  obtain k where "c = b @ take k ys" "q \<longrightarrow> take k ys = ys"
    using assms(2) by (auto simp: extends_def)
  moreover have "b = a @ xs" using assms(1) by (auto simp: extends_def)
  ultimately show ?thesis
    unfolding extends_def by (intro exI [of _ "length xs + k"]) auto
qed

lemma extends_weaken: "extends b a q xs \<Longrightarrow> extends b a False (xs @ ys)"
  unfolding extends_def
proof (elim exE conjE)
  fix k
  assume "b = a @ take k xs"
  then show "\<exists>k. b = a @ take k (xs @ ys) \<and> (False \<longrightarrow> take k (xs @ ys) = xs @ ys)"
    by (intro exI [of _ "min k (length xs)"]) (auto simp: min_def)
qed

text \<open>One buffered write of the log, under any faults.\<close>

lemma on_writer_write:
  assumes "on_writer (buf_write_all bs) lw = (r, lw')"
  shows "extends (log_bytes lw') (log_bytes lw) (\<not> isl r) bs \<and>
    lw' = lw\<lparr>writer := writer lw'\<rparr> \<and> grows (log_file lw) (log_file lw')"
  using assms by (auto elim!: on_writer_cases dest!: buf_write_all_cases)

lemma write_frame_cases:
  assumes "write_frame crc body lw = (r, lw')"
  shows "extends (log_bytes lw') (log_bytes lw) (\<not> isl r) (frame crc body) \<and>
    lw' = lw\<lparr>writer := writer lw'\<rparr> \<and> grows (log_file lw) (log_file lw')"
proof -
  let ?b1 = "u32_to_le (of_nat (4 + length body))" and ?b2 = "u32_to_le (crc body)"
  obtain r1 lw1 where w1: "on_writer (buf_write_all ?b1) lw = (r1, lw1)" by fastforce
  note c1 = on_writer_write [OF w1]
  show ?thesis
  proof (cases r1)
    case (Inl e)
    then show ?thesis using assms w1 c1 extends_weaken [of _ _ False ?b1 "?b2 @ body"]
      by (auto simp: write_frame_def frame_def)
  next
    case (Inr u)
    obtain r2 lw2 where w2: "on_writer (buf_write_all ?b2) lw1 = (r2, lw2)" by fastforce
    note c2 = on_writer_write [OF w2]
    have e2: "extends (log_bytes lw2) (log_bytes lw) (\<not> isl r2) (?b1 @ ?b2)"
      using c1 c2 Inr by (auto intro: extends_append)
    have g2: "grows (log_file lw) (log_file lw2)" using c1 c2 grows_trans by blast
    have u2: "lw2 = lw\<lparr>writer := writer lw2\<rparr>"
      by (metis c1 c2 log_writer.surjective log_writer.update_convs(1))
    show ?thesis
    proof (cases r2)
      case (Inl e)
      then show ?thesis using assms w1 w2 Inr e2 u2 g2 extends_weaken [of _ _ False "?b1 @ ?b2" body]
        by (auto simp: write_frame_def frame_def)
    next
      case Inr2: (Inr u')
      from assms w1 w2 Inr Inr2 have w3: "on_writer (buf_write_all body) lw2 = (r, lw')"
        by (simp add: write_frame_def)
      note c3 = on_writer_write [OF w3]
      have "lw' = lw\<lparr>writer := writer lw'\<rparr>"
        by (metis c3 u2 log_writer.surjective log_writer.update_convs(1))
      moreover have "extends (log_bytes lw') (log_bytes lw) (\<not> isl r) ((?b1 @ ?b2) @ body)"
        using c3 e2 Inr2 by (simp add: extends_append del: append_assoc)
      ultimately show ?thesis using c3 g2 grows_trans by (auto simp: frame_def)
    qed
  qed
qed

lemma buf_sync_cases:
  assumes "buf_sync bw = (r, bw')"
  shows "logical bw' = logical bw \<and> buf bw' = buf bw \<and> present (inner bw') = present (inner bw) \<and>
    contents (inner bw') = contents (inner bw) \<and>
    synced (inner bw') = (if isl r then synced (inner bw) else length (contents (inner bw)))"
proof -
  obtain q f where q: "sys_call (inner bw) = (q, f)" by fastforce
  show ?thesis using assms q sys_call_keeps [OF q]
    by (cases q) (auto simp: buf_sync_def sys_sync_def logical_def)
qed

lemma log_flush_cases:
  assumes "log_flush lw = (r, lw')" "synced (log_file lw) \<le> length (contents (log_file lw))"
  shows "log_bytes lw' = log_bytes lw \<and> present (log_file lw') = present (log_file lw) \<and>
    synced (log_file lw) \<le> synced (log_file lw') \<and>
    synced (log_file lw') \<le> length (contents (log_file lw')) \<and>
    lw' = lw\<lparr>writer := writer lw', dirty := dirty lw'\<rparr> \<and>
    (\<not> isl r \<and> dirty lw \<longrightarrow> durable lw') \<and> (\<not> isl r \<longrightarrow> \<not> dirty lw') \<and>
    (\<not> dirty lw \<longrightarrow> lw' = lw)"
proof (cases "dirty lw")
  case False
  then show ?thesis using assms by (simp add: log_flush_def)
next
  case True
  obtain r1 b1 where b1: "flush_buf (writer lw) = (r1, b1)" by fastforce
  note f1 = flush_buf_cases [OF b1, unfolded grows_def]
  show ?thesis
  proof (cases r1)
    case (Inl e)
    then show ?thesis using assms True b1 f1 by (auto simp: log_flush_def on_writer_def)
  next
    case (Inr u)
    obtain r2 b2 where b2: "buf_sync b1 = (r2, b2)" by fastforce
    show ?thesis using assms True b1 f1 Inr b2 buf_sync_cases [OF b2]
      by (cases r2) (auto simp: log_flush_def on_writer_def durable_def)
  qed
qed

lemma crash_durable: "durable lw \<Longrightarrow> contents (crash k (log_file lw)) = log_bytes lw"
  by (simp add: crash_def durable_def logical_def Let_def)

text \<open>Without faults every call succeeds.\<close>

abbreviation faultless :: "'l log_writer_scheme \<Rightarrow> bool" where
  "faultless lw \<equiv> script (log_file lw) = []"

lemma on_writer_write_ok:
  assumes "faultless lw"
  shows "\<exists>bw. on_writer (buf_write_all bs) lw = (Inr (), lw\<lparr>writer := bw\<rparr>) \<and> script (inner bw) = []"
  using buf_write_all_ok [OF assms, of bs] by (auto simp: on_writer_def)

lemma write_frame_ok:
  assumes "faultless lw"
  shows "\<exists>bw. write_frame crc body lw = (Inr (), lw\<lparr>writer := bw\<rparr>) \<and> script (inner bw) = []"
proof -
  let ?b1 = "u32_to_le (of_nat (4 + length body))" and ?b2 = "u32_to_le (crc body)"
  obtain b1 where b1: "on_writer (buf_write_all ?b1) lw = (Inr (), lw\<lparr>writer := b1\<rparr>)" "script (inner b1) = []"
    using on_writer_write_ok [OF assms] by blast
  obtain b2 where b2: "on_writer (buf_write_all ?b2) (lw\<lparr>writer := b1\<rparr>) = (Inr (), lw\<lparr>writer := b2\<rparr>)"
      "script (inner b2) = []"
    using on_writer_write_ok [of "lw\<lparr>writer := b1\<rparr>" ?b2] b1 by auto
  obtain b3 where "on_writer (buf_write_all body) (lw\<lparr>writer := b2\<rparr>) = (Inr (), lw\<lparr>writer := b3\<rparr>)"
      "script (inner b3) = []"
    using on_writer_write_ok [of "lw\<lparr>writer := b2\<rparr>" body] b2 by auto
  with b1 b2 show ?thesis by (auto simp: write_frame_def)
qed

lemma log_flush_ok:
  assumes "faultless lw"
  shows "\<exists>lw'. log_flush lw = (Inr (), lw') \<and> faultless lw'"
  using assms by (auto simp: log_flush_def on_writer_def flush_buf_ok buf_sync_def sys_sync_ok)

end
