(* ===== verification/Wal.thy ===== *)
theory Wal
  imports Hlc Log_Writer
begin

text \<open>
  The per-shard write-ahead log of \<open>qv-storage/src/wal.rs\<close>: the record codec, the writer
  (\<open>Wal\<close>: append, flush, open) over a buffered file, and crash recovery.  The checksum
  \<open>crc32fast::hash\<close> is a parameter.  Byte counts are unbounded naturals except the two 32-bit
  length fields, which are cut to 32 bits as the code does.
\<close>

section \<open>Records and their codec\<close>

datatype wal_op = Upsert | Delete

definition wal_op_to_u8 :: "wal_op \<Rightarrow> u8" where
  "wal_op_to_u8 p = (case p of Upsert \<Rightarrow> 0 | Delete \<Rightarrow> 1)"

definition wal_op_from_u8 :: "u8 \<Rightarrow> wal_op option" where
  "wal_op_from_u8 b = (if b = 0 then Some Upsert else if b = 1 then Some Delete else None)"

record wal_record =
  rec_op :: wal_op
  rec_hlc :: hlc
  rec_id :: u64
  rec_vector :: vec
  rec_payload :: bytes

definition wal_record_upsert :: "hlc \<Rightarrow> u64 \<Rightarrow> vec \<Rightarrow> bytes \<Rightarrow> wal_record" where
  "wal_record_upsert h i v pl =
     \<lparr>rec_op = Upsert, rec_hlc = h, rec_id = i, rec_vector = v, rec_payload = pl\<rparr>"

definition wal_record_delete :: "hlc \<Rightarrow> u64 \<Rightarrow> wal_record" where
  "wal_record_delete h i =
     \<lparr>rec_op = Delete, rec_hlc = h, rec_id = i, rec_vector = [], rec_payload = []\<rparr>"

definition encode_body :: "wal_record \<Rightarrow> bytes" where
  "encode_body r =
     [wal_op_to_u8 (rec_op r)]
     @ u64_to_le (hlc_pack (rec_hlc r))
     @ u64_to_le (rec_id r)
     @ u32_to_le (of_nat (length (rec_vector r)))
     @ concat (map u32_to_le (rec_vector r))
     @ u32_to_le (of_nat (length (rec_payload r)))
     @ rec_payload r"

definition need :: "bytes \<Rightarrow> nat \<Rightarrow> nat \<Rightarrow> bool" where
  "need body p n \<longleftrightarrow> p + n \<le> length body"

text \<open>The loop that reads \<open>dim\<close> floats from position \<open>p\<close> on; it returns the position after them.\<close>

fun read_f32s :: "bytes \<Rightarrow> nat \<Rightarrow> nat \<Rightarrow> vec \<times> nat" where
  "read_f32s body 0 p = ([], p)"
| "read_f32s body (Suc n) p =
     (let f = u32_from_le (bslice body p 4); (v, p') = read_f32s body n (p + 4) in (f # v, p'))"

definition decode_body :: "bytes \<Rightarrow> wal_record option" where
  "decode_body body =
     (let p = 0 in
      if \<not> need body p 1 then None else
      case wal_op_from_u8 (body ! p) of None \<Rightarrow> None | Some op \<Rightarrow>
      let p = p + 1 in
      if \<not> need body p 8 then None else
      let h = hlc_unpack (u64_from_le (bslice body p 8)); p = p + 8 in
      if \<not> need body p 8 then None else
      let i = u64_from_le (bslice body p 8); p = p + 8 in
      if \<not> need body p 4 then None else
      let dim = unat (u32_from_le (bslice body p 4)); p = p + 4 in
      if \<not> need body p (dim * 4) then None else
      let (v, p) = read_f32s body dim p in
      if \<not> need body p 4 then None else
      let plen = unat (u32_from_le (bslice body p 4)); p = p + 4 in
      if \<not> need body p plen then None else
      let pl = bslice body p plen; p = p + plen in
      if p \<noteq> length body then None else
      Some \<lparr>rec_op = op, rec_hlc = h, rec_id = i, rec_vector = v, rec_payload = pl\<rparr>)"

text \<open>A record the 32-bit count fields can represent, with a 48-bit wall clock.\<close>

definition rec_ok :: "wal_record \<Rightarrow> bool" where
  "rec_ok r \<longleftrightarrow> hlc_ok (rec_hlc r) \<and> length (rec_vector r) < 2 ^ 32 \<and> length (rec_payload r) < 2 ^ 32"

lemma length_concat_u32 [simp, codec]: "length (concat (map u32_to_le v)) = 4 * length v"
  by (induction v) auto

lemma length_encode_body [simp, codec]:
  "length (encode_body r) = 25 + 4 * length (rec_vector r) + length (rec_payload r)"
  by (simp add: encode_body_def)

lemma bslice_at: "length xs = p \<Longrightarrow> length ys = n \<Longrightarrow> bslice (xs @ ys @ zs) p n = ys"
  by (simp add: bslice_def)

lemma read_f32s_at:
  "length xs = p \<Longrightarrow>
   read_f32s (xs @ concat (map u32_to_le v) @ zs) (length v) p = (v, p + 4 * length v)"
proof (induction v arbitrary: xs p)
  case Nil
  then show ?case by simp
next
  case (Cons f v)
  from Cons.IH [of "xs @ u32_to_le f" "p + 4"] Cons.prems show ?case
    by (simp add: bslice_at)
qed

lemma read_f32s_slice:
  "p + 4 * n \<le> length body \<Longrightarrow> \<exists>v. read_f32s body n p = (v, p + 4 * n) \<and> length v = n \<and>
     concat (map u32_to_le v) = bslice body p (4 * n)"
proof (induction n arbitrary: p)
  case 0
  then show ?case by (simp add: bslice_def)
next
  case (Suc n)
  from Suc.prems have "p + 4 + 4 * n \<le> length body" by simp
  from Suc.IH [OF this] obtain v where v: "read_f32s body n (p + 4) = (v, p + 4 + 4 * n)"
      "length v = n" "concat (map u32_to_le v) = bslice body (p + 4) (4 * n)"
    by blast
  have "u32_to_le (u32_from_le (bslice body p 4)) = bslice body p 4"
    using Suc.prems by (simp add: u32_to_from_le bslice_def)
  moreover have "bslice body p (4 + 4 * n) = bslice body p 4 @ bslice body (p + 4) (4 * n)"
    by (simp add: bslice_def take_add add.commute)
  ultimately show ?case using v by simp
qed

lemma wal_op_u8 [simp]: "wal_op_from_u8 (wal_op_to_u8 p) = Some p"
  by (cases p) (simp_all add: wal_op_from_u8_def wal_op_to_u8_def)

lemma wal_op_u8_inv: "wal_op_from_u8 b = Some p \<longleftrightarrow> b = wal_op_to_u8 p"
  by (cases p) (auto simp: wal_op_from_u8_def wal_op_to_u8_def)

lemma decode_encode_body: "rec_ok r \<Longrightarrow> decode_body (encode_body r) = Some r"
proof -
  assume ok: "rec_ok r"
  let ?a = "[wal_op_to_u8 (rec_op r)]" and ?b = "u64_to_le (hlc_pack (rec_hlc r))"
    and ?c = "u64_to_le (rec_id r)" and ?d = "u32_to_le (of_nat (length (rec_vector r)))"
    and ?e = "concat (map u32_to_le (rec_vector r))"
    and ?f = "u32_to_le (of_nat (length (rec_payload r)))" and ?g = "rec_payload r"
    and ?x = "encode_body r"
  let ?n = "length (rec_vector r)"
  have x: "?x = ?a @ ?b @ ?c @ ?d @ ?e @ ?f @ ?g" by (simp add: encode_body_def)
  have "?x ! 0 = wal_op_to_u8 (rec_op r)" by (simp add: x)
  moreover have "bslice ?x 1 8 = ?b" unfolding x by (rule bslice_at) simp_all
  moreover have "bslice ?x 9 8 = ?c" using bslice_at [of "?a @ ?b" 9 ?c 8] by (simp add: x)
  moreover have "bslice ?x 17 4 = ?d" using bslice_at [of "?a @ ?b @ ?c" 17 ?d 4] by (simp add: x)
  moreover have "read_f32s ?x ?n 21 = (rec_vector r, 21 + 4 * ?n)"
    using read_f32s_at [of "?a @ ?b @ ?c @ ?d" 21] by (simp add: x)
  moreover have "bslice ?x (21 + 4 * ?n) 4 = ?f"
    using bslice_at [of "?a @ ?b @ ?c @ ?d @ ?e" "21 + 4 * ?n" ?f 4] by (simp add: x)
  moreover have "bslice ?x (25 + 4 * ?n) (length ?g) = ?g"
    using bslice_at [of "?a @ ?b @ ?c @ ?d @ ?e @ ?f" "25 + 4 * ?n" ?g "length ?g" "[]"]
    by (simp add: x)
  ultimately show ?thesis using ok
    by (simp add: decode_body_def Let_def need_def rec_ok_def unat_of_nat_u32 hlc_unpack_pack)
qed

lemma decode_body_sound: "decode_body b = Some r \<Longrightarrow> rec_ok r \<and> b = encode_body r"
proof -
  assume d: "decode_body b = Some r"
  define n where "n = unat (u32_from_le (bslice b 17 4))"
  define m where "m = unat (u32_from_le (bslice b (21 + 4 * n) 4))"
  have len: "21 + 4 * n \<le> length b"
    using d by (simp add: decode_body_def Let_def need_def n_def split: if_splits option.splits prod.splits)
  then obtain v where v: "read_f32s b n 21 = (v, 21 + 4 * n)" "length v = n"
      "concat (map u32_to_le v) = bslice b 21 (4 * n)"
    using read_f32s_slice by blast
  obtain p where p: "wal_op_from_u8 (b ! 0) = Some p"
    and l: "length b = 25 + 4 * n + m"
    and r: "r = \<lparr>rec_op = p, rec_hlc = hlc_unpack (u64_from_le (bslice b 1 8)),
        rec_id = u64_from_le (bslice b 9 8), rec_vector = v,
        rec_payload = bslice b (25 + 4 * n) m\<rparr>"
    using d v(1)
    by (simp add: decode_body_def Let_def need_def n_def m_def split: if_splits option.splits)
  have "n < 2 ^ 32" "m < 2 ^ 32"
    using unsigned_less [of "u32_from_le (bslice b 17 4)", where 'a = nat]
      unsigned_less [of "u32_from_le (bslice b (21 + 4 * n) 4)", where 'a = nat]
    by (simp_all add: n_def m_def)
  then have ok: "rec_ok r" using v(2) by (simp add: r rec_ok_def bslice_def)
  have a: "[wal_op_to_u8 p] = bslice b 0 1"
    using p l by (cases b) (simp_all add: wal_op_u8_inv bslice_def)
  have w: "of_nat n = u32_from_le (bslice b 17 4)" "of_nat m = u32_from_le (bslice b (21 + 4 * n) 4)"
    unfolding n_def m_def by simp_all
  have c: "u32_to_le (of_nat n) = bslice b 17 4" "u32_to_le (of_nat m) = bslice b (21 + 4 * n) 4"
    unfolding w using l by (simp_all add: u32_to_from_le length_bslice)
  have e: "u64_to_le (u64_from_le (bslice b 1 8)) = bslice b 1 8"
    "u64_to_le (u64_from_le (bslice b 9 8)) = bslice b 9 8"
    using l by (simp_all add: u64_to_from_le length_bslice)
  have "length (bslice b (25 + 4 * n) m) = m" using l by (simp add: bslice_def)
  then have "encode_body r = bslice b 0 1 @ bslice b 1 8 @ bslice b 9 8 @ bslice b 17 4 @
      bslice b 21 (4 * n) @ bslice b (21 + 4 * n) 4 @ bslice b (25 + 4 * n) m"
    using v e a by (simp add: r encode_body_def hlc_pack_unpack c)
  also have "\<dots> = b"
    using l bslice_append_drop [of b 0 1] bslice_append_drop [of b 1 8] bslice_append_drop [of b 9 8]
      bslice_append_drop [of b 17 4] bslice_append_drop [of b 21 "4 * n"]
      bslice_append_drop [of b "21 + 4 * n" 4]
    by (simp add: bslice_def)
  finally show ?thesis using ok by simp
qed

interpretation wal_codec: frame_codec crc encode_body decode_body rec_ok for crc
  by unfold_locales (use decode_encode_body decode_body_sound in blast)

section \<open>The writer\<close>

record wal = log_writer +
  wal_len :: nat
  batch_ms :: u64

definition wal_open :: "os_file \<Rightarrow> u64 \<Rightarrow> (io_error + wal) \<times> os_file" where
  "wal_open f batch =
     on_ok (sys_open_create f) (\<lambda>_ f.
     on_ok (sys_call f) (\<lambda>_ f.
     (Inr \<lparr>writer = buf_new f, dirty = False, wal_len = length (contents f), batch_ms = batch\<rparr>, f)))"

definition wal_flush :: "wal \<Rightarrow> (io_error + unit) \<times> wal" where
  "wal_flush w = log_flush w"

definition wal_append :: "(bytes \<Rightarrow> u32) \<Rightarrow> wal_record \<Rightarrow> wal \<Rightarrow> (io_error + nat) \<times> wal" where
  "wal_append crc r w =
     (let body = encode_body r; frame_len = (of_nat (4 + length body) :: u32) in
      on_ok (write_frame crc body w) (\<lambda>_ w.
      let w = w\<lparr>wal_len := wal_len w + 4 + unat frame_len, dirty := True\<rparr> in
      on_ok (if batch_ms w = 0 then wal_flush w else (Inr (), w)) (\<lambda>_ w.
      (Inr (wal_len w), w))))"

section \<open>Recovery\<close>

text \<open>\<open>path.exists()\<close> is false for an absent file; otherwise open, metadata, seek, read, the
  scan, and the truncation of everything after the last good record.\<close>

definition wal_recover ::
  "(bytes \<Rightarrow> u32) \<Rightarrow> os_file \<Rightarrow> (io_error + wal_record list \<times> nat) \<times> os_file" where
  "wal_recover crc f =
     (if \<not> present f then (Inr ([], 0), f) else
      on_ok (sys_call f) (\<lambda>_ f.
      on_ok (sys_call f) (\<lambda>_ f.
      let total = length (contents f) in
      on_ok (sys_call f) (\<lambda>_ f.
      on_ok (sys_call f) (\<lambda>_ f.
      let (records, good_end) = scan_frames crc decode_body (contents f) 0 [] 0 in
      on_ok (if good_end < total
             then on_ok (sys_set_len good_end f) (\<lambda>_ f. sys_sync f)
             else (Inr (), f)) (\<lambda>_ f.
      (Inr (records, good_end), f)))))))"

abbreviation wal_log :: "(bytes \<Rightarrow> u32) \<Rightarrow> wal_record list \<Rightarrow> bytes" where
  "wal_log crc \<equiv> log_of crc encode_body"

abbreviation wal_fits :: "wal_record \<Rightarrow> bool" where
  "wal_fits \<equiv> fits encode_body rec_ok"

abbreviation no_record :: "(bytes \<Rightarrow> u32) \<Rightarrow> bytes \<Rightarrow> bool" where
  "no_record crc \<equiv> no_frame crc encode_body rec_ok"

definition file_ok :: "os_file \<Rightarrow> bool" where
  "file_ok f \<longleftrightarrow> synced f \<le> length (contents f) \<and> (\<not> present f \<longrightarrow> contents f = [])"

text \<open>The log of a shard between two operations: the bytes written are the frames of \<open>rs\<close> and
  \<open>len\<close> is their length; in fsync mode all of it is on stable storage.\<close>

definition wal_inv :: "(bytes \<Rightarrow> u32) \<Rightarrow> wal_record list \<Rightarrow> wal \<Rightarrow> bool" where
  "wal_inv crc rs w \<longleftrightarrow>
     list_all wal_fits rs \<and> log_bytes w = wal_log crc rs \<and> wal_len w = length (wal_log crc rs) \<and>
     present (log_file w) \<and> synced (log_file w) \<le> length (contents (log_file w))"

section \<open>Lemmas on the writer\<close>

lemma wal_flush_inv:
  assumes "wal_inv crc rs w" "wal_flush w = (q, w')"
  shows "wal_inv crc rs w' \<and> batch_ms w' = batch_ms w \<and> synced (log_file w) \<le> synced (log_file w') \<and>
    (\<not> isl q \<and> dirty w \<longrightarrow> durable w')"
proof -
  have s: "synced (log_file w) \<le> length (contents (log_file w))" using assms(1) by (simp add: wal_inv_def)
  note c = log_flush_cases [OF assms(2) [unfolded wal_flush_def] s]
  moreover have "w' = w\<lparr>writer := writer w', dirty := dirty w'\<rparr>" using c by blast
  then have "wal_len w' = wal_len w" "batch_ms w' = batch_ms w"
    by (metis wal.select_convs log_writer.update_convs wal.surjective)+
  ultimately show ?thesis using assms(1) by (auto simp: wal_inv_def)
qed

lemma wal_append_Inr:
  assumes "wal_append crc r w = (Inr n, w')"
  obtains w1 w2 where "write_frame crc (encode_body r) w = (Inr (), w1)"
    "w2 = w1\<lparr>wal_len := wal_len w1 + 4 + unat (of_nat (4 + length (encode_body r)) :: u32), dirty := True\<rparr>"
    "(if batch_ms w2 = 0 then wal_flush w2 else (Inr (), w2)) = (Inr (), w')" "n = wal_len w'"
  using assms unfolding wal_append_def Let_def
  by (elim on_ok_InrE) (auto intro: that)

lemma wal_append_bytes:
  assumes "wal_append crc r w = (Inr n, w')" "synced (log_file w) \<le> length (contents (log_file w))"
  shows "log_bytes w' = log_bytes w @ frame crc (encode_body r) \<and>
    wal_len w' = wal_len w + 4 + unat (of_nat (4 + length (encode_body r)) :: u32) \<and> n = wal_len w' \<and>
    batch_ms w' = batch_ms w \<and> present (log_file w') = present (log_file w) \<and>
    synced (log_file w) \<le> synced (log_file w') \<and> synced (log_file w') \<le> length (contents (log_file w')) \<and>
    (if batch_ms w = 0 then durable w' else dirty w')"
proof -
  from wal_append_Inr [OF assms(1)] obtain w1 w2 where
    w1: "write_frame crc (encode_body r) w = (Inr (), w1)"
    and w2: "w2 = w1\<lparr>wal_len := wal_len w1 + 4 + unat (of_nat (4 + length (encode_body r)) :: u32), dirty := True\<rparr>"
    and fl: "(if batch_ms w2 = 0 then wal_flush w2 else (Inr (), w2)) = (Inr (), w')" and n: "n = wal_len w'" .
  note c = write_frame_cases [OF w1]
  have "w1 = w\<lparr>writer := writer w1\<rparr>" using c by blast
  then have k: "wal_len w1 = wal_len w" "batch_ms w1 = batch_ms w"
    by (metis wal.select_convs log_writer.update_convs wal.surjective)+
  have f2: "log_bytes w2 = log_bytes w @ frame crc (encode_body r)" "dirty w2"
    "batch_ms w2 = batch_ms w" "wal_len w2 = wal_len w + 4 + unat (of_nat (4 + length (encode_body r)) :: u32)"
    "present (log_file w2) = present (log_file w)" "synced (log_file w2) = synced (log_file w)"
    "synced (log_file w2) \<le> length (contents (log_file w2))"
    using c k assms(2) unfolding w2 by (auto simp: extends_def grows_def)
  show ?thesis
  proof (cases "batch_ms w2 = 0")
    case True
    with fl have f: "log_flush w2 = (Inr (), w')" by (simp add: wal_flush_def)
    note c' = log_flush_cases [OF f f2(7)]
    then have "w' = w2\<lparr>writer := writer w', dirty := dirty w'\<rparr>" by blast
    then have "wal_len w' = wal_len w2" "batch_ms w' = batch_ms w2"
      by (metis wal.select_convs log_writer.update_convs wal.surjective)+
    with c' f2 True n show ?thesis by simp
  next
    case False
    with fl f2 n show ?thesis by simp
  qed
qed

lemma wal_append_inv:
  assumes "wal_inv crc rs w" "wal_fits r" "wal_append crc r w = (Inr n, w')"
  shows "wal_inv crc (rs @ [r]) w' \<and> n = length (wal_log crc (rs @ [r])) \<and> batch_ms w' = batch_ms w \<and>
    synced (log_file w) \<le> synced (log_file w') \<and> (batch_ms w = 0 \<longrightarrow> durable w')"
proof -
  have s: "synced (log_file w) \<le> length (contents (log_file w))" using assms(1) by (simp add: wal_inv_def)
  have "unat (of_nat (4 + length (encode_body r)) :: u32) = 4 + length (encode_body r)"
    by (rule unat_of_nat_u32) (use assms(2) in \<open>simp add: fits_def\<close>)
  with wal_append_bytes [OF assms(3) s] assms(1,2) show ?thesis by (auto simp: wal_inv_def)
qed

lemma wal_append_faultless:
  assumes "faultless w"
  shows "\<exists>n w'. wal_append crc r w = (Inr n, w') \<and> faultless w'"
proof -
  obtain bw where bw: "write_frame crc (encode_body r) w = (Inr (), w\<lparr>writer := bw\<rparr>)" "script (inner bw) = []"
    using write_frame_ok [OF assms] by blast
  let ?w2 = "w\<lparr>writer := bw, wal_len := wal_len w + 4 + unat (of_nat (4 + length (encode_body r)) :: u32), dirty := True\<rparr>"
  obtain w3 where "log_flush ?w2 = (Inr (), w3)" "faultless w3"
    using log_flush_ok [of ?w2] bw by auto
  with bw show ?thesis by (simp add: wal_append_def wal_flush_def Let_def)
qed

lemma wal_open_inv:
  assumes "script f = []" "file_ok f" "contents f = wal_log crc rs" "list_all wal_fits rs"
  shows "\<exists>w f'. wal_open f b = (Inr w, f') \<and> wal_inv crc rs w \<and> batch_ms w = b \<and> faultless w \<and>
    log_file w = f\<lparr>present := True\<rparr> \<and> buf (writer w) = []"
  using assms
  by (auto simp: wal_open_def sys_open_create_ok sys_call_ok wal_inv_def buf_new_def logical_def file_ok_def)

fun wal_appends :: "(bytes \<Rightarrow> u32) \<Rightarrow> wal_record list \<Rightarrow> wal \<Rightarrow> (io_error + unit) \<times> wal" where
  "wal_appends crc [] w = (Inr (), w)"
| "wal_appends crc (r # rs) w = on_ok (wal_append crc r w) (\<lambda>_ w. wal_appends crc rs w)"

lemma wal_appends_inv:
  assumes "wal_inv crc rs w" "list_all wal_fits rs'" "wal_appends crc rs' w = (Inr u, w')"
  shows "wal_inv crc (rs @ rs') w' \<and> batch_ms w' = batch_ms w \<and> synced (log_file w) \<le> synced (log_file w') \<and>
    (batch_ms w = 0 \<and> (rs' \<noteq> [] \<or> durable w) \<longrightarrow> durable w')"
  using assms
proof (induction rs' arbitrary: rs w)
  case Nil
  then show ?case by simp
next
  case (Cons r rs')
  from Cons.prems(3) obtain n w1 where w1: "wal_append crc r w = (Inr n, w1)"
    and r: "wal_appends crc rs' w1 = (Inr u, w')" by (auto elim: on_ok_InrE)
  note a = wal_append_inv [OF Cons.prems(1) _ w1]
  from a Cons.prems(2) have i: "wal_inv crc (rs @ [r]) w1" by simp
  from Cons.IH [OF i _ r] a Cons.prems(2) show ?case by auto
qed

section \<open>Lemmas on recovery\<close>

lemma wal_recover_ok:
  assumes "script f = []" "present f" "scan_frames crc decode_body (contents f) 0 [] 0 = (rs, n)"
  shows "wal_recover crc f = (Inr (rs, n),
    if n < length (contents f) then f\<lparr>contents := take n (contents f), synced := n\<rparr> else f)"
  using assms by (simp add: wal_recover_def sys_call_ok sys_set_len_ok sys_sync_ok)

lemma wal_recover_log:
  assumes "script f = []" "present f" "contents f = wal_log crc rs @ torn" "list_all wal_fits rs" "no_record crc torn"
  shows "wal_recover crc f = (Inr (rs, length (wal_log crc rs)),
    if torn \<noteq> [] then f\<lparr>contents := wal_log crc rs, synced := length (wal_log crc rs)\<rparr> else f)"
  using wal_recover_ok [OF assms(1,2)] wal_codec.scan_log [OF assms(4,5)] assms(3) by simp

lemma wal_recover_absent: "\<not> present f \<Longrightarrow> wal_recover crc f = (Inr ([], 0), f)"
  by (simp add: wal_recover_def)

text \<open>From a prefix of the bytes of a log, recovery returns the records that are there completely.\<close>

definition recovers :: "(bytes \<Rightarrow> u32) \<Rightarrow> os_file \<Rightarrow> wal_record list \<Rightarrow> os_file \<Rightarrow> bool" where
  "recovers crc f rs f' \<longleftrightarrow> wal_recover crc f = (Inr (rs, length (wal_log crc rs)), f') \<and>
     contents f' = wal_log crc rs \<and> synced f' = length (contents f') \<and> script f' = [] \<and> present f'"

lemma wal_recover_take:
  assumes "present f" "script f = []" "contents f = take m (wal_log crc rs)" "synced f = length (contents f)" "list_all wal_fits rs"
  shows "\<exists>f'. recovers crc f (kept encode_body m rs) f'"
proof -
  obtain torn where t: "contents f = wal_log crc (kept encode_body m rs) @ torn" "no_record crc torn"
    using wal_codec.take_log [OF assms(5), of m crc] assms(3) by auto
  have "list_all wal_fits (kept encode_body m rs)" using assms(5) by (rule list_all_kept)
  from wal_recover_log [OF assms(2,1) t(1) this t(2)] show ?thesis
    using assms t by (auto simp: recovers_def)
qed

text \<open>What a power failure leaves of a log whose bytes are a prefix of \<open>bs\<close>.\<close>

lemma crash_take:
  assumes "log_bytes w = take j bs" "synced (log_file w) \<le> length (contents (log_file w))"
  shows "\<exists>m. synced (log_file w) \<le> m \<and> contents (crash k (log_file w)) = take m bs"
proof -
  let ?f = "log_file w"
  define m where "m = min (max k (synced ?f)) (length (contents ?f))"
  have "contents ?f = take (length (contents ?f)) (take j bs)" using assms(1) by (metis append_eq_conv_conj logical_def)
  then have pre: "contents ?f = take (length (contents ?f)) bs" by (metis length_take min.cobounded2 min_def take_take)
  have "contents (crash k ?f) = take (max k (synced ?f)) (contents ?f)" by (simp add: crash_def Let_def)
  also have "\<dots> = take m bs" by (subst pre) (simp add: m_def min.commute)
  finally show ?thesis using assms(2) by (intro exI [of _ m]) (simp add: m_def)
qed

lemma crash_fields [simp]:
  "present (crash k f) = present f" "script (crash k f) = []" "synced (crash k f) = length (contents (crash k f))"
  by (simp_all add: crash_def Let_def)

text \<open>After a crash at any point, recovery returns the records that were completely written.\<close>

lemma wal_inv_crash:
  assumes "wal_inv crc rs w"
  shows "\<exists>m. synced (log_file w) \<le> m \<and> contents (crash k (log_file w)) = take m (wal_log crc rs)"
  by (rule crash_take [of w "length (wal_log crc rs)"]) (use assms in \<open>simp_all add: wal_inv_def\<close>)

lemma wal_recover_crash:
  assumes "wal_inv crc rs w"
  shows "\<exists>m f'. synced (log_file w) \<le> m \<and> recovers crc (crash k (log_file w)) (kept encode_body m rs) f'"
proof -
  obtain m where m: "synced (log_file w) \<le> m" "contents (crash k (log_file w)) = take m (wal_log crc rs)"
    using wal_inv_crash [OF assms] by blast
  with wal_recover_take [of "crash k (log_file w)" m crc rs] assms show ?thesis by (auto simp: wal_inv_def)
qed

text \<open>Also when the process dies in the middle of an append.\<close>

lemma wal_append_torn:
  assumes "wal_inv crc rs w" "wal_append crc r w = (Inl e, w')"
  shows "present (log_file w') \<and>
    (\<exists>m. synced (log_file w) \<le> m \<and> contents (crash k (log_file w')) = take m (wal_log crc (rs @ [r])))"
proof -
  have I: "log_bytes w = wal_log crc rs" "present (log_file w)" "synced (log_file w) \<le> length (contents (log_file w))"
    using assms(1) by (simp_all add: wal_inv_def)
  obtain q1 w1 where w1: "write_frame crc (encode_body r) w = (q1, w1)" by fastforce
  note c1 = write_frame_cases [OF w1]
  obtain j where j: "log_bytes w1 = wal_log crc rs @ take j (frame crc (encode_body r))" using c1 I(1) by (auto simp: extends_def)
  have f1: "present (log_file w1)" "synced (log_file w1) = synced (log_file w)" "synced (log_file w1) \<le> length (contents (log_file w1))"
    using c1 I by (auto simp: grows_def)
  let ?w2 = "w1\<lparr>wal_len := wal_len w1 + 4 + unat (of_nat (4 + length (encode_body r)) :: u32), dirty := True\<rparr>"
  have "w' = w1 \<or> log_flush ?w2 = (Inl e, w')"
    using assms(2) w1 by (cases q1) (auto simp: wal_append_def wal_flush_def Let_def on_ok_def split: prod.splits sum.splits if_splits)
  then have w': "log_bytes w' = log_bytes w1" "present (log_file w')" "synced (log_file w) \<le> synced (log_file w')"
      "synced (log_file w') \<le> length (contents (log_file w'))"
    using f1 log_flush_cases [of ?w2 "Inl e" w'] by auto
  have "log_bytes w' = take (length (wal_log crc rs) + j) (wal_log crc (rs @ [r]))" using w'(1) j by simp
  from crash_take [OF this w'(4), of k] w'(2,3) show ?thesis by (meson le_trans)
qed

lemma wal_recover_durable:
  assumes "wal_inv crc rs w" "durable w"
  shows "fst (wal_recover crc (crash k (log_file w))) = Inr (rs, length (wal_log crc rs))"
proof -
  have "length (wal_log crc rs) \<le> synced (log_file w)"
    using assms by (auto simp: wal_inv_def durable_def logical_def)
  moreover obtain m f' where "synced (log_file w) \<le> m" "recovers crc (crash k (log_file w)) (kept encode_body m rs) f'"
    using wal_recover_crash [OF assms(1)] by blast
  ultimately show ?thesis using kept_all [of crc encode_body rs m] by (simp add: recovers_def)
qed

lemmas no_record_long = wal_codec.no_frame_long

lemma wal_append_clean:
  assumes "wal_append crc r w = (Inr n, w')" "wal_inv crc rs w"
  shows "dirty w' \<or> durable w'"
  using wal_append_bytes [OF assms(1)] assms(2) by (auto simp: wal_inv_def split: if_splits)

lemma wal_appends_clean:
  assumes "wal_inv crc rs w" "list_all wal_fits rs'" "wal_appends crc rs' w = (Inr u, w')" "dirty w \<or> durable w"
  shows "dirty w' \<or> durable w'"
  using assms
proof (induction rs' arbitrary: rs w)
  case Nil
  then show ?case by simp
next
  case (Cons r rs')
  from Cons.prems(3) obtain n w1 where w1: "wal_append crc r w = (Inr n, w1)"
    and r: "wal_appends crc rs' w1 = (Inr u, w')" by (auto elim: on_ok_InrE)
  have fit: "wal_fits r" "list_all wal_fits rs'" using Cons.prems(2) by simp_all
  from wal_append_inv [OF Cons.prems(1) fit(1) w1] have i: "wal_inv crc (rs @ [r]) w1" by simp
  from Cons.IH [OF i fit(2) r wal_append_clean [OF w1 Cons.prems(1)]] show ?case .
qed

lemma wal_flush_clean:
  assumes "wal_inv crc rs w" "dirty w \<or> durable w" "wal_flush w = (Inr u, w')"
  shows "durable w'"
  using wal_flush_inv [OF assms(1,3)] assms by (cases "dirty w") (auto simp: wal_flush_def log_flush_def)

lemma wal_flush_keeps_clean:
  assumes "wal_inv crc rs w" "dirty w \<or> durable w" "wal_flush w = (q, w')"
  shows "dirty w' \<or> durable w'"
proof (cases "dirty w")
  case False
  then show ?thesis using assms by (simp add: wal_flush_def log_flush_def)
next
  case True
  show ?thesis
  proof (cases q)
    case (Inl e)
    then have "dirty w'" using assms(3) True
      by (auto simp: wal_flush_def log_flush_def on_writer_def on_ok_def split: prod.splits sum.splits)
    then show ?thesis ..
  next
    case (Inr u)
    then show ?thesis using wal_flush_clean [OF assms(1,2)] assms(3) by simp
  qed
qed

lemma kept_with_prefix:
  assumes "length (log_of crc enc as) \<le> m"
  shows "\<exists>bs1 bs2. bs = bs1 @ bs2 \<and> kept enc m (as @ bs) = as @ bs1"
  using kept_append [OF assms, of bs] kept_prefix [of bs enc "m - length (log_of crc enc as)"] by metis

text \<open>A log just opened on an empty file whose system calls will behave as scripted.\<close>

definition wal_fresh :: "u64 \<Rightarrow> nat option list \<Rightarrow> wal" where
  "wal_fresh b sc = \<lparr>writer = buf_new \<lparr>present = True, contents = [], synced = 0, script = sc\<rparr>,
     dirty = False, wal_len = 0, batch_ms = b\<rparr>"

lemma wal_inv_fresh: "wal_inv crc [] (wal_fresh b sc)"
  by (simp add: wal_inv_def wal_fresh_def buf_new_def logical_def)

lemma faultless_fresh: "faultless (wal_fresh b [])"
  by (simp add: wal_fresh_def buf_new_def)

section \<open>Properties\<close>

text \<open>C34. The record codec is exact: a body decodes to a record if and only if it is the encoding
  of that record and the record is representable.  So no other byte string is accepted, nothing
  is lost, and every bit pattern of a float survives.\<close>

theorem wal_codec_exact: "decode_body b = Some r \<longleftrightarrow> rec_ok r \<and> b = encode_body r"
  using decode_encode_body decode_body_sound by blast



text \<open>C26. In batch mode a crash loses at most a suffix of the records appended since the last
  successful \<open>flush\<close>: recovery returns everything flushed, then a prefix of what followed, in
  order, never a damaged or reordered record.\<close>

theorem wal_batch_crash_prefix:
  assumes "wal_inv crc rs w" "dirty w \<or> durable w"
    and "list_all wal_fits as" "wal_appends crc as w = (Inr (), w1)"
    and "wal_flush w1 = (Inr (), w2)"
    and "list_all wal_fits bs" "wal_appends crc bs w2 = (Inr (), w3)"
  shows "\<exists>bs1 bs2 n. bs = bs1 @ bs2 \<and> fst (wal_recover crc (crash k (log_file w3))) = Inr (rs @ as @ bs1, n)"
proof -
  have i1: "wal_inv crc (rs @ as) w1" using wal_appends_inv [OF assms(1,3,4)] by simp
  have d2: "durable w2" by (rule wal_flush_clean [OF i1 wal_appends_clean [OF assms(1,3,4,2)] assms(5)])
  have i2: "wal_inv crc (rs @ as) w2" using wal_flush_inv [OF i1 assms(5)] by simp
  have i3: "wal_inv crc ((rs @ as) @ bs) w3" "synced (log_file w2) \<le> synced (log_file w3)"
    using wal_appends_inv [OF i2 assms(6,7)] by simp_all
  have "length (wal_log crc (rs @ as)) = synced (log_file w2)"
    using i2 d2 by (auto simp: wal_inv_def durable_def logical_def)
  with i3 wal_recover_crash [OF i3(1), of k] kept_with_prefix [of crc encode_body "rs @ as" _ bs]
  show ?thesis unfolding recovers_def by fastforce
qed

theorem wal_batch_crash_prefix_witness:
  "\<exists>w1 w2 w3. wal_appends (\<lambda>_. 3) [wal_record_delete (Hlc 1 0) 7] (wal_fresh 5 []) = (Inr (), w1) \<and>
     wal_flush w1 = (Inr (), w2) \<and> wal_appends (\<lambda>_. 3) [wal_record_delete (Hlc 2 0) 8] w2 = (Inr (), w3) \<and>
     (\<exists>bs1 bs2 n. [wal_record_delete (Hlc 2 0) 8] = bs1 @ bs2 \<and>
       fst (wal_recover (\<lambda>_. 3) (crash 0 (log_file w3))) = Inr ([wal_record_delete (Hlc 1 0) 7] @ bs1, n))"
proof -
  let ?c = "\<lambda>_::bytes. 3 :: u32" and ?r = "wal_record_delete (Hlc 1 0) 7" and ?q = "wal_record_delete (Hlc 2 0) 8"
  obtain n w1 where a: "wal_append ?c ?r (wal_fresh 5 []) = (Inr n, w1)" and f1: "faultless w1"
    using wal_append_faultless [OF faultless_fresh] by blast
  obtain w2 where b: "wal_flush w1 = (Inr (), w2)" and f2: "faultless w2"
    using log_flush_ok [OF f1] by (auto simp: wal_flush_def)
  obtain m w3 where c: "wal_append ?c ?q w2 = (Inr m, w3)"
    using wal_append_faultless [OF f2] by blast
  have fit: "list_all wal_fits [?r]" "list_all wal_fits [?q]"
    by (simp_all add: wal_record_delete_def fits_def rec_ok_def hlc_ok_def)
  have A: "wal_appends ?c [?r] (wal_fresh 5 []) = (Inr (), w1)" and C: "wal_appends ?c [?q] w2 = (Inr (), w3)"
    using a c by simp_all
  have D: "dirty (wal_fresh 5 []) \<or> durable (wal_fresh 5 [])" by (simp add: durable_def wal_fresh_def buf_new_def)
  from wal_batch_crash_prefix [OF wal_inv_fresh D fit(1) A b fit(2) C, of 0] A b C
  show ?thesis unfolding append_Nil by blast
qed

text \<open>C27. Recovery is total over arbitrary file contents, random bytes included: it returns the
  longest run of intact records from the start, leaves the file holding exactly these records
  (the remainder is cut off), and a second recovery finds the same records and changes nothing.\<close>

theorem wal_recover_any_contents:
  assumes "script f = []" "file_ok f"
  shows "\<exists>rs torn f'. contents f = wal_log crc rs @ torn \<and> list_all wal_fits rs \<and> no_record crc torn \<and>
    wal_recover crc f = (Inr (rs, length (wal_log crc rs)), f') \<and> contents f' = wal_log crc rs \<and>
    wal_recover crc f' = (Inr (rs, length (wal_log crc rs)), f')"
proof (cases "present f")
  case False
  then show ?thesis using assms
    by (intro exI [of _ "[]"]) (auto simp: wal_recover_absent file_ok_def)
next
  case True
  obtain rs torn where d: "contents f = wal_log crc rs @ torn" "list_all wal_fits rs" "no_record crc torn"
    using wal_codec.log_decomposition by blast
  note r = wal_recover_log [OF assms(1) True d]
  let ?f' = "snd (wal_recover crc f)"
  have f': "contents ?f' = wal_log crc rs @ []" "script ?f' = []" "present ?f'"
    using r d True assms by auto
  from wal_recover_log [OF f'(2,3,1) d(2) wal_codec.no_frame_Nil] r d f'(1) show ?thesis
    by (intro exI [of _ rs] exI [of _ torn] exI [of _ ?f']) simp
qed

theorem wal_recover_any_contents_witness:
  "\<exists>rs torn f'. [5, 0, 0, 0, 1] = wal_log (\<lambda>_. 0) rs @ torn \<and> no_record (\<lambda>_. 0) torn \<and>
    wal_recover (\<lambda>_. 0) \<lparr>present = True, contents = [5, 0, 0, 0, 1], synced = 0, script = []\<rparr> =
      (Inr (rs, length (wal_log (\<lambda>_. 0) rs)), f')"
  using wal_recover_any_contents
    [of "\<lparr>present = True, contents = [5, 0, 0, 0, 1], synced = 0, script = []\<rparr>" "\<lambda>_. 0"]
  by (simp add: file_ok_def) blast

text \<open>A frame whose stored checksum differs from that of its body is never returned: recovery
  stops in front of it, whatever follows.\<close>

theorem wal_recover_stops_at_bad_crc:
  assumes "script f = []" "present f" "list_all wal_fits rs" "4 + length b < 2 ^ 32" "c \<noteq> crc b"
    and "contents f = wal_log crc rs @ u32_to_le (of_nat (4 + length b)) @ u32_to_le c @ b @ rest"
  shows "fst (wal_recover crc f) = Inr (rs, length (wal_log crc rs))"
proof -
  have "no_record crc (u32_to_le (of_nat (4 + length b)) @ u32_to_le c @ b @ rest)"
    by (rule wal_codec.no_frame_bad_crc) (fact assms)+
  from wal_recover_log [OF assms(1,2,6,3) this] show ?thesis by simp
qed

theorem wal_recover_stops_at_bad_crc_witness:
  "fst (wal_recover (\<lambda>_. 0) \<lparr>present = True,
     contents = u32_to_le 5 @ u32_to_le 1 @ [9] @ [8, 8], synced = 0, script = []\<rparr>) = Inr ([], 0)"
  using wal_recover_stops_at_bad_crc [where rs = "[]" and b = "[9]" and c = 1 and crc = "\<lambda>_. 0" and rest = "[8, 8]"
      and f = "\<lparr>present = True, contents = u32_to_le 5 @ u32_to_le 1 @ [9] @ [8, 8], synced = 0, script = []\<rparr>"]
  by simp

text \<open>C38. A failed append that left part of a frame in the file hides later acknowledged records:
  if the next append is acknowledged in fsync mode but the log still ends before the end the torn
  frame declares, recovery returns neither record and truncates the acknowledged one.\<close>

theorem wal_torn_frame_hides_acked_record:
  assumes "wal_append crc r w = (Inl e, w1)" "wal_fits r" "list_all wal_fits rs" "4 \<le> k"
    and "log_bytes w1 = wal_log crc rs @ take k (frame crc (encode_body r))"
    and "present (log_file w1)" "synced (log_file w1) \<le> length (contents (log_file w1))" "batch_ms w1 = 0"
    and "wal_append crc r' w1 = (Inr n, w2)"
    and "k + length (frame crc (encode_body r')) < length (frame crc (encode_body r))"
  shows "fst (wal_recover crc (crash j (log_file w2))) = Inr (rs, length (wal_log crc rs))"
proof -
  let ?torn = "take k (frame crc (encode_body r)) @ frame crc (encode_body r')"
  note b = wal_append_bytes [OF assms(9,7)]
  have "log_bytes w2 = wal_log crc rs @ ?torn" using b assms(5) by simp
  moreover have "durable w2" using b assms(8) by simp
  ultimately have "contents (crash j (log_file w2)) = wal_log crc rs @ ?torn"
    by (simp add: crash_durable)
  moreover have "no_record crc ?torn" using assms(2,4,10) by (intro no_record_long)
  moreover have "script (crash j (log_file w2)) = []" "present (crash j (log_file w2))"
    using b assms(6) by (simp_all add: crash_def Let_def)
  ultimately show ?thesis
    using wal_recover_log [of "crash j (log_file w2)" crc rs ?torn] assms(3) by simp
qed

theorem wal_torn_frame_hides_acked_record_witness:
  "\<exists>w1 n w2. wal_append (\<lambda>_. 0) (wal_record_upsert (Hlc 1 0) 7 (replicate 3072 0) []) (wal_fresh 0 [None, Some 3]) = (Inl IoError, w1) \<and>
     wal_append (\<lambda>_. 0) (wal_record_delete (Hlc 2 0) 7) w1 = (Inr n, w2) \<and>
     fst (wal_recover (\<lambda>_. 0) (crash 0 (log_file w2))) = Inr ([], 0)"
proof -
  let ?c = "\<lambda>_::bytes. 0 :: u32" and ?r = "wal_record_upsert (Hlc 1 0) 7 (replicate 3072 0) []"
    and ?q = "wal_record_delete (Hlc 2 0) 7" and ?w = "wal_fresh 0 [None, Some 3]"
  let ?h = "u32_to_le (of_nat (4 + length (encode_body ?r))) @ u32_to_le 0"
  let ?w1 = "?w\<lparr>writer := buf_new \<lparr>present = True, contents = ?h @ take 3 (encode_body ?r), synced = 0, script = []\<rparr>\<rparr>"
  have a: "wal_append ?c ?r ?w = (Inl IoError, ?w1)"
    by (simp add: wal_append_def write_frame_def on_writer_def buf_write_all_def write_all_cold_def
        BUF_CAPACITY_def wal_fresh_def buf_new_def flush_buf_def sys_write_def Let_def wal_record_upsert_def)
  have f1: "faultless ?w1" by (simp add: buf_new_def)
  obtain n w2 where b: "wal_append ?c ?q ?w1 = (Inr n, w2)"
    using wal_append_faultless [OF f1] by blast
  have fit: "wal_fits ?r" by (simp add: wal_record_upsert_def fits_def rec_ok_def hlc_ok_def)
  have k: "log_bytes ?w1 = wal_log ?c [] @ take 11 (frame ?c (encode_body ?r))"
    by (simp add: logical_def buf_new_def frame_def)
  have "fst (wal_recover ?c (crash 0 (log_file w2))) = Inr ([], length (wal_log ?c []))"
    by (rule wal_torn_frame_hides_acked_record [OF a fit _ _ k _ _ _ b])
      (simp_all add: buf_new_def wal_fresh_def wal_record_upsert_def wal_record_delete_def)
  with a b show ?thesis by simp
qed

end
