(* ===== verification/Snapshot.thy ===== *)
theory Snapshot
  imports Atomic_File Wal Hnsw_Props
begin

text \<open>
  Shard snapshots (\<open>qv-storage/src/snapshot.rs\<close>): an index image, the versions and the log
  offset it covers, written to a temporary file, synced, and renamed over the destination.

  \<open>bincode\<close> is a pair of arguments, collected with the other external functions of the
  storage layer in the record \<open>env\<close>.
\<close>

record point_version =
  pv_hlc :: hlc
  pv_tombstone :: bool

text \<open>The version table is a \<open>HashMap\<close> the code iterates: an association list.\<close>

type_synonym versions = "(u64 \<times> point_version) list"

record snapshot =
  snap_wal_offset :: nat
  snap_index :: hnsw
  snap_versions :: versions

datatype bincode_error = BincodeError

record env =
  e_crc :: "bytes \<Rightarrow> u32"
  e_K :: kernel
  e_lv :: level_fn
  e_ser :: "snapshot \<Rightarrow> bincode_error + bytes"
  e_de :: "bytes \<Rightarrow> bincode_error + snapshot"

datatype snapshot_error = SnapIo io_error | SnapSerialize bincode_error

definition snapshot_write ::
  "env \<Rightarrow> nat \<Rightarrow> hnsw \<Rightarrow> versions \<Rightarrow> afile \<Rightarrow> (snapshot_error + unit) \<times> afile" where
  "snapshot_write E wal_offset index vs ss =
     (case e_ser E \<lparr>snap_wal_offset = wal_offset, snap_index = index, snap_versions = vs\<rparr> of
        Inl e \<Rightarrow> (Inl (SnapSerialize e), ss)
      | Inr bs \<Rightarrow> (case atomic_write bs ss of
           (Inl e, ss) \<Rightarrow> (Inl (SnapIo e), ss)
         | (Inr _, ss) \<Rightarrow> (Inr (), ss)))"

definition snapshot_load :: "env \<Rightarrow> afile \<Rightarrow> (snapshot_error + snapshot option) \<times> afile" where
  "snapshot_load E ss =
     (if \<not> present (af_file ss) then (Inr None, ss)
      else case sys_call (af_file ss) of
        (Inl e, f) \<Rightarrow> (Inl (SnapIo e), ss\<lparr>af_file := f\<rparr>)
      | (Inr _, f) \<Rightarrow> (case e_de E (contents f) of
           Inl e \<Rightarrow> (Inl (SnapSerialize e), ss\<lparr>af_file := f\<rparr>)
         | Inr s \<Rightarrow> (Inr (Some s), ss\<lparr>af_file := f\<rparr>)))"

section \<open>What a slot holds\<close>

definition bincode_ok :: "env \<Rightarrow> bool" where
  "bincode_ok E \<longleftrightarrow> (\<forall>s bs. e_ser E s = Inr bs \<longrightarrow> e_de E bs = Inr s)"

text \<open>Both slots are absent or hold the synced image of a snapshot for which \<open>P\<close> holds.\<close>

definition store_ok :: "env \<Rightarrow> (snapshot \<Rightarrow> bool) \<Rightarrow> afile \<Rightarrow> bool" where
  "store_ok E P ss \<longleftrightarrow> af_holds (\<lambda>bs. \<exists>s. e_de E bs = Inr s \<and> P s) ss"

lemma store_ok_mono: "store_ok E P ss \<Longrightarrow> (\<And>s. P s \<Longrightarrow> Q s) \<Longrightarrow> store_ok E Q ss"
  by (auto simp: store_ok_def elim!: af_holds_mono)

lemma snapshot_write_cases:
  assumes "snapshot_write E off ix vs ss = (r, ss')" "bincode_ok E" "store_ok E P ss"
    and "P \<lparr>snap_wal_offset = off, snap_index = ix, snap_versions = vs\<rparr>"
  shows "store_ok E P ss'"
proof (cases "e_ser E \<lparr>snap_wal_offset = off, snap_index = ix, snap_versions = vs\<rparr>")
  case (Inl e)
  then show ?thesis using assms(1,3) by (simp add: snapshot_write_def)
next
  case (Inr bs)
  obtain q where "atomic_write bs ss = (q, ss')"
    using assms(1) Inr by (auto simp: snapshot_write_def split: prod.splits sum.splits)
  moreover have "\<exists>s. e_de E bs = Inr s \<and> P s" using assms(2,4) Inr by (auto simp: bincode_ok_def)
  ultimately show ?thesis using atomic_write_holds assms(3) unfolding store_ok_def by blast
qed

lemma af_crash_ok: "store_ok E P ss \<Longrightarrow> store_ok E P (af_crash b ss) \<and> script (af_file (af_crash b ss)) = []"
  by (simp add: store_ok_def af_crash_holds)

lemma snapshot_load_ok:
  assumes "store_ok E P ss" "script (af_file ss) = []"
  shows "\<exists>r. snapshot_load E ss = (Inr r, ss) \<and> (\<forall>s. r = Some s \<longrightarrow> P s)"
  using assms by (auto simp: snapshot_load_def store_ok_def af_holds_def slot_holds_def sys_call_ok)

text \<open>Under faults: a load that returns read one of the images, or found none.\<close>

lemma snapshot_load_Inr:
  assumes "snapshot_load E ss = (Inr r, ss')" "store_ok E P ss"
  shows "store_ok E P ss' \<and> (\<forall>s. r = Some s \<longrightarrow> P s)"
proof (cases "present (af_file ss)")
  case False
  then show ?thesis using assms by (auto simp: snapshot_load_def)
next
  case True
  obtain q f where q: "sys_call (af_file ss) = (q, f)" by fastforce
  show ?thesis using assms True q sys_call_keeps [OF q]
    by (cases q) (auto simp: snapshot_load_def store_ok_def af_holds_def slot_holds_def split: sum.splits)
qed

end
