(* ===== verification/Shard.thy ===== *)
theory Shard
  imports Snapshot
begin

text \<open>
  A durable shard (\<open>qv-storage/src/shard.rs\<close>): the graph index with a version per id, a
  write-ahead log and snapshots.  Writes are appended to the log before they are applied;
  \<open>open\<close> loads the snapshot, recovers the log and replays the records beyond the snapshot's
  offset.  Writes compete per id by HLC, the last writer wins.

  Byte offsets are unbounded naturals.  The outer \<open>None\<close> is a panic (of the index).
\<close>

datatype shard_error =
    ShWal io_error
  | ShSnapshot snapshot_error
  | ShIo io_error
  | ShIndex index_error
  | ShDim nat nat

datatype write_outcome = Applied | Stale

record shard =
  sh_dim :: nat
  sh_metric :: metric
  sh_index :: hnsw
  sh_versions :: versions
  sh_wal :: wal
  sh_threshold :: nat
  sh_last_snapshot :: nat
  sh_snap :: afile

text \<open>What the shard's directory holds.\<close>

record shard_disk =
  sd_wal :: os_file
  sd_snap :: afile

section \<open>Replay\<close>

definition apply_record ::
  "env \<Rightarrow> wal_record \<Rightarrow> hnsw \<times> versions \<Rightarrow> ((index_error + unit) \<times> hnsw \<times> versions) option" where
  "apply_record E r st =
     (let (ix, vs) = st; i = rec_id r in
      if (case map_of vs i of Some v \<Rightarrow> rec_hlc r < pv_hlc v | None \<Rightarrow> False) then Some (Inr (), ix, vs)
      else case rec_op r of
        Upsert \<Rightarrow>
          (case hnsw_insert (e_K E) (e_lv E) i (rec_vector r) ix of
             None \<Rightarrow> None
           | Some (Inl e, ix) \<Rightarrow> Some (Inl e, ix, vs)
           | Some (Inr _, ix) \<Rightarrow>
               Some (Inr (), ix, AList.update i \<lparr>pv_hlc = rec_hlc r, pv_tombstone = False\<rparr> vs))
      | Delete \<Rightarrow>
          (case hnsw_delete i ix of
             None \<Rightarrow> None
           | Some (_, ix) \<Rightarrow>
               Some (Inr (), ix, AList.update i \<lparr>pv_hlc = rec_hlc r, pv_tombstone = True\<rparr> vs)))"

definition framed_len :: "wal_record \<Rightarrow> nat" where
  "framed_len r =
     (let body = 1 + 8 + 8 + 4 + length (rec_vector r) * 4 + 4 + length (rec_payload r) in 4 + 4 + body)"

fun replay :: "env \<Rightarrow> nat \<Rightarrow> nat \<Rightarrow> wal_record list \<Rightarrow> hnsw \<times> versions \<Rightarrow> ((index_error + unit) \<times> hnsw \<times> versions) option" where
  "replay E snap_offset pos [] st = Some (Inr (), st)"
| "replay E snap_offset pos (r # rs) st =
     (let rec_end = pos + framed_len r in
      if rec_end > snap_offset then
        (case apply_record E r st of
           None \<Rightarrow> None
         | Some (Inl e, st) \<Rightarrow> Some (Inl e, st)
         | Some (Inr _, st) \<Rightarrow> replay E snap_offset rec_end rs st)
      else replay E snap_offset rec_end rs st)"

section \<open>Open\<close>

definition saturating_mb :: "nat \<Rightarrow> nat" where
  "saturating_mb mb = min (mb * (1024 * 1024)) (2 ^ 64 - 1)"

text \<open>\<open>HnswIndex::new\<close> panics for dimension 0.\<close>

definition initial_image :: "nat \<Rightarrow> metric \<Rightarrow> snapshot option \<Rightarrow> (hnsw \<times> versions \<times> nat) option" where
  "initial_image dim m s = (case s of
     Some s \<Rightarrow> Some (snap_index s, snap_versions s, snap_wal_offset s)
   | None \<Rightarrow> map_option (\<lambda>ix. (ix, [], 0)) (hnsw_new dim m))"

definition shard_open ::
  "env \<Rightarrow> nat \<Rightarrow> metric \<Rightarrow> nat \<Rightarrow> u64 \<Rightarrow> shard_disk \<Rightarrow> ((shard_error + shard) \<times> shard_disk) option" where
  "shard_open E dim m snapshot_wal_mb batch disk =
     (case sys_call (af_dir (sd_snap disk)) of
        (Inl e, d) \<Rightarrow> Some (Inl (ShIo e), disk\<lparr>sd_snap := (sd_snap disk)\<lparr>af_dir := d\<rparr>\<rparr>)
      | (Inr _, d) \<Rightarrow>
     (case snapshot_load E ((sd_snap disk)\<lparr>af_dir := d\<rparr>) of
        (Inl e, ss) \<Rightarrow> Some (Inl (ShSnapshot e), disk\<lparr>sd_snap := ss\<rparr>)
      | (Inr snap, ss) \<Rightarrow>
     (case initial_image dim m snap of
        None \<Rightarrow> None
      | Some (ix, vs, snap_offset) \<Rightarrow>
     (case wal_recover (e_crc E) (sd_wal disk) of
        (Inl e, f) \<Rightarrow> Some (Inl (ShWal e), \<lparr>sd_wal = f, sd_snap = ss\<rparr>)
      | (Inr (records, wal_end), f) \<Rightarrow>
     (case replay E snap_offset 0 records (ix, vs) of
        None \<Rightarrow> None
      | Some (Inl e, _) \<Rightarrow> Some (Inl (ShIndex e), \<lparr>sd_wal = f, sd_snap = ss\<rparr>)
      | Some (Inr _, ix, vs) \<Rightarrow>
     (case wal_open f batch of
        (Inl e, f) \<Rightarrow> Some (Inl (ShWal e), \<lparr>sd_wal = f, sd_snap = ss\<rparr>)
      | (Inr w, f) \<Rightarrow>
          Some (Inr \<lparr>sh_dim = dim, sh_metric = m, sh_index = ix, sh_versions = vs, sh_wal = w,
                     sh_threshold = saturating_mb snapshot_wal_mb, sh_last_snapshot = snap_offset, sh_snap = ss\<rparr>,
                \<lparr>sd_wal = f, sd_snap = ss\<rparr>)))))))"

section \<open>Snapshots of a shard\<close>

definition snapshot_now :: "env \<Rightarrow> shard \<Rightarrow> (shard_error + unit) \<times> shard" where
  "snapshot_now E s =
     (case wal_flush (sh_wal s) of
        (Inl e, w) \<Rightarrow> (Inl (ShWal e), s\<lparr>sh_wal := w\<rparr>)
      | (Inr _, w) \<Rightarrow>
          let s = s\<lparr>sh_wal := w\<rparr>; offset = wal_len w in
          (case snapshot_write E offset (sh_index s) (sh_versions s) (sh_snap s) of
             (Inl e, ss) \<Rightarrow> (Inl (ShSnapshot e), s\<lparr>sh_snap := ss\<rparr>)
           | (Inr _, ss) \<Rightarrow> (Inr (), s\<lparr>sh_snap := ss, sh_last_snapshot := offset\<rparr>)))"

definition maybe_snapshot :: "env \<Rightarrow> shard \<Rightarrow> (shard_error + unit) \<times> shard" where
  "maybe_snapshot E s =
     (if sh_threshold s = 0 then (Inr (), s)
      else let grown = wal_len (sh_wal s) - sh_last_snapshot s in
           if grown \<ge> sh_threshold s then snapshot_now E s else (Inr (), s))"

section \<open>Writes\<close>

definition is_stale :: "shard \<Rightarrow> u64 \<Rightarrow> hlc \<Rightarrow> bool" where
  "is_stale s i h = (case map_of (sh_versions s) i of Some v \<Rightarrow> h \<le> pv_hlc v | None \<Rightarrow> False)"

text \<open>The common part of the writes: log, then index, then version, then a snapshot if due.\<close>

definition commit ::
  "env \<Rightarrow> wal_record \<Rightarrow> (hnsw \<Rightarrow> ((index_error + 'a) \<times> hnsw) option) \<Rightarrow> bool \<Rightarrow> shard \<Rightarrow>
   ((shard_error + 'a) \<times> shard) option" where
  "commit E r act tomb s =
     (case wal_append (e_crc E) r (sh_wal s) of
        (Inl e, w) \<Rightarrow> Some (Inl (ShWal e), s\<lparr>sh_wal := w\<rparr>)
      | (Inr _, w) \<Rightarrow>
     (case act (sh_index s) of
        None \<Rightarrow> None
      | Some (Inl e, ix) \<Rightarrow> Some (Inl (ShIndex e), s\<lparr>sh_wal := w, sh_index := ix\<rparr>)
      | Some (Inr a, ix) \<Rightarrow>
          let s = s\<lparr>sh_wal := w, sh_index := ix,
                    sh_versions := AList.update (rec_id r) \<lparr>pv_hlc = rec_hlc r, pv_tombstone = tomb\<rparr> (sh_versions s)\<rparr> in
          Some (on_ok (maybe_snapshot E s) (\<lambda>_ s. (Inr a, s)))))"

definition index_delete :: "u64 \<Rightarrow> hnsw \<Rightarrow> ((index_error + bool) \<times> hnsw) option" where
  "index_delete i ix = map_option (\<lambda>(b, ix). (Inr b, ix)) (hnsw_delete i ix)"

definition upsert_versioned ::
  "env \<Rightarrow> hlc \<Rightarrow> u64 \<Rightarrow> vec \<Rightarrow> bytes \<Rightarrow> shard \<Rightarrow> ((shard_error + write_outcome) \<times> shard) option" where
  "upsert_versioned E h i v pl s =
     (if length v \<noteq> sh_dim s then Some (Inl (ShDim (sh_dim s) (length v)), s)
      else if is_stale s i h then Some (Inr Stale, s)
      else map_option (\<lambda>r. on_ok r (\<lambda>_ s. (Inr Applied, s)))
             (commit E (wal_record_upsert h i v pl) (hnsw_insert (e_K E) (e_lv E) i v) False s))"

definition delete_versioned :: "env \<Rightarrow> hlc \<Rightarrow> u64 \<Rightarrow> shard \<Rightarrow> ((shard_error + write_outcome) \<times> shard) option" where
  "delete_versioned E h i s =
     (if is_stale s i h then Some (Inr Stale, s)
      else map_option (\<lambda>r. on_ok r (\<lambda>_ s. (Inr Applied, s)))
             (commit E (wal_record_delete h i) (index_delete i) True s))"

text \<open>The unconditional writes kept for single-node callers.\<close>

definition shard_upsert ::
  "env \<Rightarrow> hlc \<Rightarrow> u64 \<Rightarrow> vec \<Rightarrow> bytes \<Rightarrow> shard \<Rightarrow> ((shard_error + unit) \<times> shard) option" where
  "shard_upsert E h i v pl s =
     (if length v \<noteq> sh_dim s then Some (Inl (ShDim (sh_dim s) (length v)), s)
      else commit E (wal_record_upsert h i v pl) (hnsw_insert (e_K E) (e_lv E) i v) False s)"

definition shard_delete :: "env \<Rightarrow> hlc \<Rightarrow> u64 \<Rightarrow> shard \<Rightarrow> ((shard_error + bool) \<times> shard) option" where
  "shard_delete E h i s = commit E (wal_record_delete h i) (index_delete i) True s"

section \<open>Reads\<close>

definition shard_version :: "shard \<Rightarrow> u64 \<Rightarrow> point_version option" where
  "shard_version s i = map_of (sh_versions s) i"

definition shard_get :: "shard \<Rightarrow> u64 \<Rightarrow> vec option option" where
  "shard_get s i = hnsw_get_vector (sh_index s) i"

definition shard_search ::
  "env \<Rightarrow> shard \<Rightarrow> vec \<Rightarrow> nat \<Rightarrow> nat \<Rightarrow> (shard_error + (u64 \<times> f32) list) option" where
  "shard_search E s q k ef = map_option (map_sum ShIndex id) (hnsw_search (e_K E) (sh_index s) q k ef)"

definition shard_len :: "shard \<Rightarrow> nat" where
  "shard_len s = h_live (sh_index s)"

text \<open>\<open>records\<close>: every id ever seen, with its version and (if live) its vector.\<close>

fun rows_of :: "hnsw \<Rightarrow> versions \<Rightarrow> (u64 \<times> hlc \<times> bool \<times> vec) list option" where
  "rows_of ix [] = Some []"
| "rows_of ix ((i, v) # vs) =
     (case (if pv_tombstone v then Some [] else map_option (\<lambda>got. case got of Some x \<Rightarrow> x | None \<Rightarrow> []) (hnsw_get_vector ix i)) of
        None \<Rightarrow> None
      | Some x \<Rightarrow> map_option (\<lambda>rows. (i, pv_hlc v, pv_tombstone v, x) # rows) (rows_of ix vs))"

definition shard_records :: "shard \<Rightarrow> (u64 \<times> hlc \<times> bool \<times> vec) list option" where
  "shard_records s = rows_of (sh_index s) (sh_versions s)"

definition shard_flush :: "shard \<Rightarrow> (shard_error + unit) \<times> shard" where
  "shard_flush s = (case wal_flush (sh_wal s) of
     (Inl e, w) \<Rightarrow> (Inl (ShWal e), s\<lparr>sh_wal := w\<rparr>)
   | (Inr _, w) \<Rightarrow> (Inr (), s\<lparr>sh_wal := w\<rparr>))"

text \<open>A crash of the process or the machine: \<open>k\<close> bytes of the log and one of the two snapshots
  survive.\<close>

definition shard_crash :: "nat \<Rightarrow> bool \<Rightarrow> shard \<Rightarrow> shard_disk" where
  "shard_crash k b s = \<lparr>sd_wal = crash k (log_file (sh_wal s)), sd_snap = af_crash b (sh_snap s)\<rparr>"

end
