(* ===== verification/Shard_Correct.thy ===== *)
theory Shard_Correct
  imports Shard
begin

text \<open>
  The shard against its specification: a last-writer-wins register per id.  A log of
  records denotes a state of the specification; every operation keeps the shard's image equal
  to the state its log denotes, and \<open>open\<close> rebuilds it from what a crash left behind.
\<close>

section \<open>The specification\<close>

text \<open>Per id the winning stamp and its value, \<open>None\<close> for a tombstone.\<close>

type_synonym lww = "u64 \<rightharpoonup> hlc \<times> vec option"

definition rec_value :: "wal_record \<Rightarrow> vec option" where
  "rec_value r = (case rec_op r of Upsert \<Rightarrow> Some (rec_vector r) | Delete \<Rightarrow> None)"

definition lww_apply :: "lww \<Rightarrow> wal_record \<Rightarrow> lww" where
  "lww_apply m r =
     (if (case m (rec_id r) of Some (h, _) \<Rightarrow> rec_hlc r < h | None \<Rightarrow> False) then m
      else m(rec_id r \<mapsto> (rec_hlc r, rec_value r)))"

definition lww_log :: "wal_record list \<Rightarrow> lww" where
  "lww_log rs = foldl lww_apply Map.empty rs"

definition rec_dim :: "nat \<Rightarrow> wal_record \<Rightarrow> bool" where
  "rec_dim dim r \<longleftrightarrow> (rec_op r = Upsert \<longrightarrow> length (rec_vector r) = dim)"

lemma lww_log_snoc: "lww_log (rs @ [r]) = lww_apply (lww_log rs) r"
  by (simp add: lww_log_def)

lemma lww_log_Nil [simp]: "lww_log [] = Map.empty"
  by (simp add: lww_log_def)

section \<open>Images\<close>

text \<open>The state an index and a version table stand for.\<close>

definition image :: "hnsw \<Rightarrow> versions \<Rightarrow> lww" where
  "image ix vs i = (case map_of vs i of None \<Rightarrow> None
     | Some v \<Rightarrow> Some (pv_hlc v, if pv_tombstone v then None else hnsw_points ix i))"

text \<open>The index holds exactly the ids whose winning version is not a tombstone.\<close>

definition live_agree :: "hnsw \<Rightarrow> versions \<Rightarrow> bool" where
  "live_agree ix vs \<longleftrightarrow>
     (\<forall>i. hnsw_points ix i \<noteq> None \<longleftrightarrow> (\<exists>v. map_of vs i = Some v \<and> \<not> pv_tombstone v))"

definition image_ok :: "nat \<Rightarrow> wal_record list \<Rightarrow> hnsw \<Rightarrow> versions \<Rightarrow> bool" where
  "image_ok dim rs ix vs \<longleftrightarrow>
     hnsw_inv ix \<and> h_dim ix = dim \<and> nnodes ix \<le> length rs \<and> distinct (map fst vs) \<and>
     live_agree ix vs \<and> image ix vs = lww_log rs"

lemma image_okD:
  assumes "image_ok dim rs ix vs"
  shows "hnsw_inv ix" "h_dim ix = dim" "nnodes ix \<le> length rs" "distinct (map fst vs)" "live_agree ix vs"
    "image ix vs = lww_log rs"
  using assms by (simp_all add: image_ok_def)

lemma map_of_update [simp]: "map_of (AList.update k v al) = (map_of al)(k \<mapsto> v)"
  by (simp add: update_conv')

text \<open>Writing one id in the index and the version table.\<close>

lemma image_write:
  assumes "image_ok dim rs ix vs" "hnsw_inv ix'" "h_dim ix' = dim" "nnodes ix' \<le> length rs + 1"
    and "hnsw_points ix' = (hnsw_points ix)(rec_id r := rec_value r)"
    and "tomb = (rec_value r = None)"
    and "\<not> (case lww_log rs (rec_id r) of Some (h, _) \<Rightarrow> rec_hlc r < h | None \<Rightarrow> False)"
  shows "image_ok dim (rs @ [r]) ix' (AList.update (rec_id r) \<lparr>pv_hlc = rec_hlc r, pv_tombstone = tomb\<rparr> vs)"
proof -
  let ?i = "rec_id r" and ?vs' = "AList.update (rec_id r) \<lparr>pv_hlc = rec_hlc r, pv_tombstone = tomb\<rparr> vs"
  note D = image_okD [OF assms(1)]
  have "live_agree ix' ?vs'" using D(5) assms(5,6) by (auto simp: live_agree_def)
  moreover have "image ix' ?vs' = (image ix vs)(?i \<mapsto> (rec_hlc r, rec_value r))"
    using assms(5,6) by (auto simp: image_def fun_eq_iff split: option.splits)
  then have "image ix' ?vs' = lww_log (rs @ [r])"
    unfolding D(6) lww_log_snoc using assms(7) by (simp add: lww_apply_def)
  ultimately show ?thesis using assms(2-4) D(4) by (simp add: image_ok_def distinct_AList_update)
qed

lemma stale_image:
  assumes "image_ok dim rs ix vs"
  shows "(case map_of vs i of Some v \<Rightarrow> P (pv_hlc v) | None \<Rightarrow> False) \<longleftrightarrow>
    (case lww_log rs i of Some (h, _) \<Rightarrow> P h | None \<Rightarrow> False)"
  unfolding image_okD(6) [OF assms, symmetric] by (auto simp: image_def split: option.splits)

lemma apply_record_ok:
  assumes "image_ok dim rs ix vs" "rec_dim dim r" "length rs < 2 ^ 32"
  shows "\<exists>ix' vs'. apply_record E r (ix, vs) = Some (Inr (), ix', vs') \<and> image_ok dim (rs @ [r]) ix' vs'"
proof (cases "case lww_log rs (rec_id r) of Some (h, _) \<Rightarrow> rec_hlc r < h | None \<Rightarrow> False")
  case True
  then have "apply_record E r (ix, vs) = Some (Inr (), ix, vs)"
    using stale_image [where i = "rec_id r" and P = "\<lambda>h. rec_hlc r < h", OF assms(1)] by (simp add: apply_record_def)
  moreover have "lww_log (rs @ [r]) = lww_log rs" using True by (simp add: lww_log_snoc lww_apply_def)
  ultimately show ?thesis using assms(1) by (simp add: image_ok_def)
next
  case False
  note D = image_okD [OF assms(1)]
  have ns: "\<not> (case map_of vs (rec_id r) of Some v \<Rightarrow> rec_hlc r < pv_hlc v | None \<Rightarrow> False)"
    using False stale_image [where i = "rec_id r" and P = "\<lambda>h. rec_hlc r < h", OF assms(1)] by simp
  show ?thesis
  proof (cases "rec_op r")
    case Upsert
    then have "length (rec_vector r) = h_dim ix" "nnodes ix < 2 ^ 32" using assms(2,3) D(2,3) by (simp_all add: rec_dim_def)
    from hnsw_insert_ok [OF D(1) this] obtain ix' where
      ix': "hnsw_insert (e_K E) (e_lv E) (rec_id r) (rec_vector r) ix = Some (Inr (), ix')" "hnsw_inv ix'"
        "hnsw_points ix' = (hnsw_points ix)(rec_id r \<mapsto> rec_vector r)" "h_dim ix' = h_dim ix" "nnodes ix' \<le> nnodes ix + 1"
      by blast
    have "image_ok dim (rs @ [r]) ix' (AList.update (rec_id r) \<lparr>pv_hlc = rec_hlc r, pv_tombstone = False\<rparr> vs)"
      by (rule image_write [OF assms(1) ix'(2)]) (use ix' D(2,3) False Upsert in \<open>simp_all add: rec_value_def\<close>)
    with ix'(1) ns Upsert show ?thesis by (simp add: apply_record_def)
  next
    case Delete
    from hnsw_delete_ok [OF D(1)] obtain ix' where
      ix': "hnsw_delete (rec_id r) ix = Some (hnsw_points ix (rec_id r) \<noteq> None, ix')" "hnsw_inv ix'"
        "hnsw_points ix' = (hnsw_points ix)(rec_id r := None)" "h_dim ix' = h_dim ix" "nnodes ix' = nnodes ix"
      by blast
    have "image_ok dim (rs @ [r]) ix' (AList.update (rec_id r) \<lparr>pv_hlc = rec_hlc r, pv_tombstone = True\<rparr> vs)"
      by (rule image_write [OF assms(1) ix'(2)]) (use ix' D(2,3) False Delete in \<open>simp_all add: rec_value_def\<close>)
    with ix'(1) ns Delete show ?thesis by (simp add: apply_record_def)
  qed
qed

section \<open>Replay\<close>

lemma framed_len_frame: "framed_len r = length (frame crc (encode_body r))"
  by (simp add: framed_len_def)

lemma replay_skips:
  "pos + length (wal_log crc as) \<le> off \<Longrightarrow>
   replay E off pos (as @ bs) st = replay E off (pos + length (wal_log crc as)) bs st"
proof (induction as arbitrary: pos)
  case (Cons r as)
  then show ?case using Cons.IH [of "pos + framed_len r"]
    by (simp add: framed_len_frame [of r crc] Let_def add.assoc)
qed simp

lemma replay_applies:
  assumes "image_ok dim as ix vs" "list_all (rec_dim dim) bs" "off \<le> pos" "length as + length bs \<le> 2 ^ 32"
  shows "\<exists>ix' vs'. replay E off pos bs (ix, vs) = Some (Inr (), ix', vs') \<and> image_ok dim (as @ bs) ix' vs'"
  using assms
proof (induction bs arbitrary: as ix vs pos)
  case Nil
  then show ?case by simp
next
  case (Cons r bs)
  have "rec_dim dim r" "length as < 2 ^ 32" using Cons.prems by simp_all
  from apply_record_ok [OF Cons.prems(1) this] obtain ix1 vs1 where
    a: "apply_record E r (ix, vs) = Some (Inr (), ix1, vs1)" "image_ok dim (as @ [r]) ix1 vs1" by blast
  have "off < pos + framed_len r" using Cons.prems(3) by (simp add: framed_len_def)
  with a Cons.IH [OF a(2), of "pos + framed_len r"] Cons.prems(2,4) show ?case by simp
qed

section \<open>Snapshots cover a synced prefix of the log\<close>

definition snap_good :: "(bytes \<Rightarrow> u32) \<Rightarrow> nat \<Rightarrow> wal_record list \<Rightarrow> nat \<Rightarrow> snapshot \<Rightarrow> bool" where
  "snap_good crc dim rs sy sn \<longleftrightarrow>
     (\<exists>as bs. rs = as @ bs \<and> snap_wal_offset sn = length (wal_log crc as) \<and>
        length (wal_log crc as) \<le> sy \<and> image_ok dim as (snap_index sn) (snap_versions sn))"

lemma snap_good_mono: "snap_good crc dim rs sy sn \<Longrightarrow> sy \<le> sy' \<Longrightarrow> snap_good crc dim (rs @ rs') sy' sn"
  by (fastforce simp: snap_good_def)

section \<open>The invariant of an open shard\<close>

definition shard_inv :: "env \<Rightarrow> wal_record list \<Rightarrow> shard \<Rightarrow> bool" where
  "shard_inv E rs s \<longleftrightarrow>
     0 < sh_dim s \<and> length rs \<le> 2 ^ 32 \<and> list_all (rec_dim (sh_dim s)) rs \<and>
     image_ok (sh_dim s) rs (sh_index s) (sh_versions s) \<and> wal_inv (e_crc E) rs (sh_wal s) \<and>
     (dirty (sh_wal s) \<or> durable (sh_wal s)) \<and>
     store_ok E (snap_good (e_crc E) (sh_dim s) rs (synced (log_file (sh_wal s)))) (sh_snap s)"

lemma shard_invD:
  assumes "shard_inv E rs s"
  shows "0 < sh_dim s" "length rs \<le> 2 ^ 32" "list_all (rec_dim (sh_dim s)) rs"
    "image_ok (sh_dim s) rs (sh_index s) (sh_versions s)" "wal_inv (e_crc E) rs (sh_wal s)"
    "store_ok E (snap_good (e_crc E) (sh_dim s) rs (synced (log_file (sh_wal s)))) (sh_snap s)"
    "dirty (sh_wal s) \<or> durable (sh_wal s)"
  using assms by (simp_all add: shard_inv_def)

text \<open>Flushing the log and taking a snapshot keep it, whether they succeed or not.\<close>

lemma shard_inv_wal:
  assumes "shard_inv E rs s" "wal_inv (e_crc E) rs w" "synced (log_file (sh_wal s)) \<le> synced (log_file w)"
    and "dirty w \<or> durable w"
  shows "shard_inv E rs (s\<lparr>sh_wal := w\<rparr>)"
proof -
  have "store_ok E (snap_good (e_crc E) (sh_dim s) rs (synced (log_file w))) (sh_snap s)"
    using shard_invD(6) [OF assms(1)]
    by (rule store_ok_mono) (use snap_good_mono [OF _ assms(3), of _ _ _ _ "[]"] in simp)
  then show ?thesis using assms by (simp add: shard_inv_def)
qed

lemma shard_flush_inv:
  assumes "shard_inv E rs s" "wal_flush (sh_wal s) = (r, w)"
  shows "shard_inv E rs (s\<lparr>sh_wal := w\<rparr>)" "batch_ms w = batch_ms (sh_wal s)" "\<not> isl r \<Longrightarrow> durable w"
proof -
  note D = shard_invD [OF assms(1)]
  note f = wal_flush_inv [OF D(5) assms(2)]
  from f shard_inv_wal [OF assms(1)] wal_flush_keeps_clean [OF D(5,7) assms(2)]
  show "shard_inv E rs (s\<lparr>sh_wal := w\<rparr>)" "batch_ms w = batch_ms (sh_wal s)" by simp_all
  show "durable w" if "\<not> isl r" using wal_flush_clean [OF D(5,7)] assms(2) that by (cases r) auto
qed

lemma snapshot_now_inv:
  assumes "bincode_ok E" "shard_inv E rs s" "snapshot_now E s = (r, s')"
  shows "shard_inv E rs s' \<and> sh_index s' = sh_index s \<and> sh_versions s' = sh_versions s \<and> sh_dim s' = sh_dim s \<and>
    batch_ms (sh_wal s') = batch_ms (sh_wal s) \<and> (\<not> isl r \<longrightarrow> durable (sh_wal s'))"
proof -
  obtain q w where q: "wal_flush (sh_wal s) = (q, w)" by fastforce
  note f = shard_flush_inv [OF assms(2) q]
  show ?thesis
  proof (cases q)
    case (Inl e)
    then show ?thesis using assms(3) q f by (auto simp: snapshot_now_def)
  next
    case (Inr u)
    let ?s = "s\<lparr>sh_wal := w\<rparr>"
    let ?P = "snap_good (e_crc E) (sh_dim s) rs (synced (log_file w))"
    have dur: "durable w" using f(3) Inr by simp
    note D = shard_invD [OF f(1)]
    have len: "wal_len w = length (wal_log (e_crc E) rs)" "length (wal_log (e_crc E) rs) \<le> synced (log_file w)"
      using D(5) dur by (auto simp: wal_inv_def durable_def logical_def)
    obtain q2 ss where q2: "snapshot_write E (wal_len w) (sh_index s) (sh_versions s) (sh_snap s) = (q2, ss)" by fastforce
    have "?P \<lparr>snap_wal_offset = wal_len w, snap_index = sh_index s, snap_versions = sh_versions s\<rparr>"
      unfolding snap_good_def using D(4) len by (intro exI [of _ rs] exI [of _ "[]"]) simp
    then have "store_ok E ?P ss" using snapshot_write_cases [OF q2 assms(1)] D(6) by simp
    then have "shard_inv E rs (?s\<lparr>sh_snap := ss\<rparr>)" "shard_inv E rs (?s\<lparr>sh_snap := ss, sh_last_snapshot := wal_len w\<rparr>)"
      using f(1) by (simp_all add: shard_inv_def)
    moreover have "s' = ?s\<lparr>sh_snap := ss\<rparr> \<or> s' = ?s\<lparr>sh_snap := ss, sh_last_snapshot := wal_len w\<rparr>"
      using assms(3) q Inr q2 by (cases q2) (auto simp: snapshot_now_def Let_def)
    ultimately show ?thesis using dur f(2) by auto
  qed
qed

lemma maybe_snapshot_inv:
  assumes "bincode_ok E" "shard_inv E rs s" "maybe_snapshot E s = (r, s')"
  shows "shard_inv E rs s' \<and> sh_index s' = sh_index s \<and> sh_versions s' = sh_versions s \<and> sh_dim s' = sh_dim s \<and>
    batch_ms (sh_wal s') = batch_ms (sh_wal s) \<and> (\<not> isl r \<and> durable (sh_wal s) \<longrightarrow> durable (sh_wal s'))"
  using snapshot_now_inv [OF assms(1,2)] assms(2,3)
  by (auto simp: maybe_snapshot_def Let_def split: if_splits)

section \<open>Writes\<close>

lemma maybe_snapshot_synced:
  assumes "shard_inv E rs s" "maybe_snapshot E s = (r, s')"
  shows "synced (log_file (sh_wal s)) \<le> synced (log_file (sh_wal s'))"
proof -
  obtain q w where q: "wal_flush (sh_wal s) = (q, w)" by fastforce
  then have "synced (log_file (sh_wal s)) \<le> synced (log_file w)" using wal_flush_inv [OF shard_invD(5) [OF assms(1)]] by blast
  then show ?thesis using assms(2) q
    by (auto simp: maybe_snapshot_def snapshot_now_def Let_def split: if_splits sum.splits prod.splits)
qed

text \<open>A write fails in the log, or is logged and applied; a failed snapshot afterwards changes the
  result only.\<close>

lemma commit_cases:
  assumes "bincode_ok E" "shard_inv E rs s" "wal_fits r" "rec_dim (sh_dim s) r" "length rs < 2 ^ 32"
    and act: "act (sh_index s) = Some (Inr a, ix')"
    and img: "image_ok (sh_dim s) (rs @ [r]) ix' (AList.update (rec_id r) \<lparr>pv_hlc = rec_hlc r, pv_tombstone = tomb\<rparr> (sh_versions s))"
  shows "(\<exists>e w. wal_append (e_crc E) r (sh_wal s) = (Inl e, w) \<and> commit E r act tomb s = Some (Inl (ShWal e), s\<lparr>sh_wal := w\<rparr>)) \<or>
    (\<exists>(q :: shard_error + unit) s'. commit E r act tomb s = Some (map_sum id (\<lambda>_. a) q, s') \<and> shard_inv E (rs @ [r]) s' \<and>
       sh_index s' = ix' \<and> sh_dim s' = sh_dim s \<and>
       sh_versions s' = AList.update (rec_id r) \<lparr>pv_hlc = rec_hlc r, pv_tombstone = tomb\<rparr> (sh_versions s) \<and>
       batch_ms (sh_wal s') = batch_ms (sh_wal s) \<and> synced (log_file (sh_wal s)) \<le> synced (log_file (sh_wal s')) \<and>
       (\<not> isl q \<and> batch_ms (sh_wal s) = 0 \<longrightarrow> durable (sh_wal s')))"
proof -
  note D = shard_invD [OF assms(2)]
  obtain p w where w: "wal_append (e_crc E) r (sh_wal s) = (p, w)" by fastforce
  show ?thesis
  proof (cases p)
    case (Inl e)
    then show ?thesis using w by (simp add: commit_def)
  next
    case (Inr n)
    note wi = wal_append_inv [OF D(5) assms(3) w [unfolded Inr]]
    let ?vs = "AList.update (rec_id r) \<lparr>pv_hlc = rec_hlc r, pv_tombstone = tomb\<rparr> (sh_versions s)"
    let ?s = "s\<lparr>sh_wal := w, sh_index := ix', sh_versions := ?vs\<rparr>"
    have "store_ok E (snap_good (e_crc E) (sh_dim s) (rs @ [r]) (synced (log_file w))) (sh_snap s)"
      using D(6) by (rule store_ok_mono) (use wi snap_good_mono in blast)
    then have inv: "shard_inv E (rs @ [r]) ?s"
      using D assms(4,5) img wi wal_append_clean [OF w [unfolded Inr] D(5)] by (simp add: shard_inv_def)
    obtain q s1 where q: "maybe_snapshot E ?s = (q, s1)" by fastforce
    have "commit E r act tomb s = Some (map_sum id (\<lambda>_. a) q, s1)"
      using w Inr act q by (simp add: commit_def Let_def on_ok_def split: sum.split)
    moreover have "sh_index s1 = ix'" "sh_dim s1 = sh_dim s" "sh_versions s1 = ?vs" "batch_ms (sh_wal s1) = batch_ms (sh_wal s)"
        "shard_inv E (rs @ [r]) s1" "\<not> isl q \<and> batch_ms (sh_wal s) = 0 \<longrightarrow> durable (sh_wal s1)"
      using maybe_snapshot_inv [OF assms(1) inv q] wi by simp_all
    moreover have "synced (log_file (sh_wal s)) \<le> synced (log_file (sh_wal s1))" using maybe_snapshot_synced [OF inv q] wi by simp
    ultimately show ?thesis by (intro disjI2 exI [of _ q] exI [of _ s1] conjI)
  qed
qed

lemma commit_inv:
  assumes "bincode_ok E" "shard_inv E rs s" "wal_fits r" "rec_dim (sh_dim s) r" "length rs < 2 ^ 32"
    and act: "act (sh_index s) = Some (Inr a, ix')"
    and img: "image_ok (sh_dim s) (rs @ [r]) ix' (AList.update (rec_id r) \<lparr>pv_hlc = rec_hlc r, pv_tombstone = tomb\<rparr> (sh_versions s))"
    and res: "commit E r act tomb s = Some (Inr a', s')"
  shows "shard_inv E (rs @ [r]) s' \<and> a' = a \<and> sh_index s' = ix' \<and> sh_dim s' = sh_dim s \<and>
    sh_versions s' = AList.update (rec_id r) \<lparr>pv_hlc = rec_hlc r, pv_tombstone = tomb\<rparr> (sh_versions s) \<and>
    batch_ms (sh_wal s') = batch_ms (sh_wal s) \<and> (batch_ms (sh_wal s) = 0 \<longrightarrow> durable (sh_wal s'))"
  using commit_cases [where act = act, OF assms(1-7)]
proof (elim disjE exE conjE)
  fix q s1
  assume "commit E r act tomb s = Some (map_sum id (\<lambda>_. a) q, s1)"
  with res have "s1 = s'" "map_sum id (\<lambda>_. a) q = Inr a'" by simp_all
  then have "s1 = s'" "a' = a" "\<not> isl q" by (cases q, simp_all)+
  moreover assume "shard_inv E (rs @ [r]) s1" "sh_index s1 = ix'" "sh_dim s1 = sh_dim s" "batch_ms (sh_wal s1) = batch_ms (sh_wal s)"
    "sh_versions s1 = AList.update (rec_id r) \<lparr>pv_hlc = rec_hlc r, pv_tombstone = tomb\<rparr> (sh_versions s)"
    "\<not> isl q \<and> batch_ms (sh_wal s) = 0 \<longrightarrow> durable (sh_wal s1)"
  ultimately show ?thesis by simp
qed (use res in simp)

lemma not_stale_image:
  assumes "image_ok (sh_dim s) rs (sh_index s) (sh_versions s)" "\<not> is_stale s i h"
  shows "\<not> (case lww_log rs i of Some (g, _) \<Rightarrow> h < g | None \<Rightarrow> False)"
  using stale_image [where i = i and P = "\<lambda>g. h \<le> g", OF assms(1)] assms(2)
  by (auto simp: is_stale_def split: option.splits)

text \<open>Inserting or deleting in the index realises the record.\<close>

lemma upsert_image:
  assumes "image_ok (sh_dim s) rs (sh_index s) (sh_versions s)" "\<not> is_stale s i h" "length v = sh_dim s" "length rs < 2 ^ 32"
  shows "\<exists>ix'. hnsw_insert K lv i v (sh_index s) = Some (Inr (), ix') \<and> hnsw_points ix' = (hnsw_points (sh_index s))(i \<mapsto> v) \<and>
    image_ok (sh_dim s) (rs @ [wal_record_upsert h i v pl]) ix' (AList.update i \<lparr>pv_hlc = h, pv_tombstone = False\<rparr> (sh_versions s))"
proof -
  note D = image_okD [OF assms(1)]
  have "length v = h_dim (sh_index s)" "nnodes (sh_index s) < 2 ^ 32" using assms(3,4) D(2,3) by simp_all
  from hnsw_insert_ok [OF D(1) this] obtain ix' where
    ix': "hnsw_insert K lv i v (sh_index s) = Some (Inr (), ix')" "hnsw_inv ix'"
      "hnsw_points ix' = (hnsw_points (sh_index s))(i \<mapsto> v)" "h_dim ix' = h_dim (sh_index s)" "nnodes ix' \<le> nnodes (sh_index s) + 1"
    by blast
  let ?r = "wal_record_upsert h i v pl"
  have r: "rec_id ?r = i" "rec_hlc ?r = h" "rec_value ?r = Some v" by (simp_all add: wal_record_upsert_def rec_value_def)
  have "image_ok (sh_dim s) (rs @ [?r]) ix' (AList.update (rec_id ?r) \<lparr>pv_hlc = rec_hlc ?r, pv_tombstone = False\<rparr> (sh_versions s))"
    by (rule image_write [OF assms(1) ix'(2)]) (use ix' D(2,3) r not_stale_image [OF assms(1,2)] in \<open>auto split: option.splits prod.splits\<close>)
  with ix' r show ?thesis by auto
qed

lemma delete_image:
  assumes "image_ok (sh_dim s) rs (sh_index s) (sh_versions s)" "\<not> is_stale s i h"
  shows "\<exists>ix' b. index_delete i (sh_index s) = Some (Inr b, ix') \<and> hnsw_points ix' = (hnsw_points (sh_index s))(i := None) \<and>
    image_ok (sh_dim s) (rs @ [wal_record_delete h i]) ix' (AList.update i \<lparr>pv_hlc = h, pv_tombstone = True\<rparr> (sh_versions s))"
proof -
  note D = image_okD [OF assms(1)]
  from hnsw_delete_ok [OF D(1), of i] obtain ix' where
    ix': "hnsw_delete i (sh_index s) = Some (hnsw_points (sh_index s) i \<noteq> None, ix')" "hnsw_inv ix'"
      "hnsw_points ix' = (hnsw_points (sh_index s))(i := None)" "h_dim ix' = h_dim (sh_index s)" "nnodes ix' = nnodes (sh_index s)"
    by blast
  let ?r = "wal_record_delete h i"
  have r: "rec_id ?r = i" "rec_hlc ?r = h" "rec_value ?r = None" by (simp_all add: wal_record_delete_def rec_value_def)
  have "image_ok (sh_dim s) (rs @ [?r]) ix' (AList.update (rec_id ?r) \<lparr>pv_hlc = rec_hlc ?r, pv_tombstone = True\<rparr> (sh_versions s))"
    by (rule image_write [OF assms(1) ix'(2)]) (use ix' D(2,3) r not_stale_image [OF assms(1,2)] in \<open>auto split: option.splits prod.splits\<close>)
  with ix' r show ?thesis by (simp add: index_delete_def)
qed

lemma upsert_versioned_cases:
  assumes "bincode_ok E" "shard_inv E rs s" "length rs < 2 ^ 32" "wal_fits (wal_record_upsert h i v pl)"
    and "upsert_versioned E h i v pl s = Some (Inr oc, s')"
  shows "oc = Stale \<and> is_stale s i h \<and> s' = s \<or>
    oc = Applied \<and> \<not> is_stale s i h \<and> shard_inv E (rs @ [wal_record_upsert h i v pl]) s' \<and>
      hnsw_points (sh_index s') = (hnsw_points (sh_index s))(i \<mapsto> v) \<and>
      sh_versions s' = AList.update i \<lparr>pv_hlc = h, pv_tombstone = False\<rparr> (sh_versions s) \<and>
      sh_dim s' = sh_dim s \<and> batch_ms (sh_wal s') = batch_ms (sh_wal s) \<and>
      (batch_ms (sh_wal s) = 0 \<longrightarrow> durable (sh_wal s'))"
proof (cases "is_stale s i h")
  case True
  then show ?thesis using assms(5) by (auto simp: upsert_versioned_def split: if_splits)
next
  case False
  let ?r = "wal_record_upsert h i v pl"
  have r: "rec_id ?r = i" "rec_hlc ?r = h" "rec_dim (sh_dim s) ?r \<longleftrightarrow> length v = sh_dim s"
    by (simp_all add: wal_record_upsert_def rec_dim_def)
  have v: "length v = sh_dim s" using assms(5) by (auto simp: upsert_versioned_def split: if_splits)
  obtain ix' where ix': "hnsw_insert (e_K E) (e_lv E) i v (sh_index s) = Some (Inr (), ix')"
      "hnsw_points ix' = (hnsw_points (sh_index s))(i \<mapsto> v)"
      "image_ok (sh_dim s) (rs @ [?r]) ix' (AList.update i \<lparr>pv_hlc = h, pv_tombstone = False\<rparr> (sh_versions s))"
    using upsert_image [OF shard_invD(4) [OF assms(2)] False v assms(3)] by blast
  have "oc = Applied" "commit E ?r (hnsw_insert (e_K E) (e_lv E) i v) False s = Some (Inr (), s')"
    using assms(5) False v by (auto simp: upsert_versioned_def elim: on_ok_InrE)
  with commit_inv [where act = "hnsw_insert (e_K E) (e_lv E) i v", OF assms(1,2,4) _ assms(3) ix'(1), of False "()" s'] r v ix'(2,3) False
  show ?thesis by simp
qed

lemma delete_versioned_cases:
  assumes "bincode_ok E" "shard_inv E rs s" "length rs < 2 ^ 32" "wal_fits (wal_record_delete h i)"
    and "delete_versioned E h i s = Some (Inr oc, s')"
  shows "oc = Stale \<and> is_stale s i h \<and> s' = s \<or>
    oc = Applied \<and> \<not> is_stale s i h \<and> shard_inv E (rs @ [wal_record_delete h i]) s' \<and>
      hnsw_points (sh_index s') = (hnsw_points (sh_index s))(i := None) \<and>
      sh_versions s' = AList.update i \<lparr>pv_hlc = h, pv_tombstone = True\<rparr> (sh_versions s) \<and>
      sh_dim s' = sh_dim s \<and> batch_ms (sh_wal s') = batch_ms (sh_wal s) \<and>
      (batch_ms (sh_wal s) = 0 \<longrightarrow> durable (sh_wal s'))"
proof (cases "is_stale s i h")
  case True
  then show ?thesis using assms(5) by (auto simp: delete_versioned_def)
next
  case False
  let ?r = "wal_record_delete h i"
  have r: "rec_id ?r = i" "rec_hlc ?r = h" "rec_dim (sh_dim s) ?r"
    by (simp_all add: wal_record_delete_def rec_dim_def)
  obtain ix' b where ix': "index_delete i (sh_index s) = Some (Inr b, ix')"
      "hnsw_points ix' = (hnsw_points (sh_index s))(i := None)"
      "image_ok (sh_dim s) (rs @ [?r]) ix' (AList.update i \<lparr>pv_hlc = h, pv_tombstone = True\<rparr> (sh_versions s))"
    using delete_image [OF shard_invD(4) [OF assms(2)] False] by blast
  obtain b' where "oc = Applied" "commit E ?r (index_delete i) True s = Some (Inr b', s')"
    using assms(5) False by (auto simp: delete_versioned_def elim: on_ok_InrE)
  with commit_inv [where act = "index_delete i", OF assms(1,2,4) r(3) assms(3) ix'(1), of True b' s'] r ix'(2,3) False
  show ?thesis by simp
qed

section \<open>Opening after a crash\<close>

lemma image_ok_new: "hnsw_new dim m = Some ix \<Longrightarrow> image_ok dim [] ix []"
  using hnsw_new_inv [of dim m ix] by (auto simp: image_ok_def live_agree_def image_def)

text \<open>The image \<open>open\<close> starts from covers a prefix of the records that survived.\<close>

lemma initial_image_ok:
  assumes "0 < dim" "\<forall>sn. snap = Some sn \<longrightarrow> snap_good crc dim rs sy sn"
  shows "\<exists>ix vs off as bs. initial_image dim m snap = Some (ix, vs, off) \<and> rs = as @ bs \<and>
    off = length (wal_log crc as) \<and> off \<le> sy \<and> image_ok dim as ix vs"
proof (cases snap)
  case None
  obtain ix where "hnsw_new dim m = Some ix" using hnsw_new_ok [OF assms(1)] by blast
  with None image_ok_new [OF this] show ?thesis
    by (intro exI [of _ ix] exI [of _ "[]"] exI [of _ 0] exI [of _ "[]"] exI [of _ rs]) (simp add: initial_image_def)
next
  case (Some sn)
  with assms(2) show ?thesis by (auto simp: initial_image_def snap_good_def)
qed

lemma snap_good_kept:
  assumes "snap_good crc dim rs sy sn" "sy \<le> n"
  shows "snap_good crc dim (kept encode_body n rs) (length (wal_log crc (kept encode_body n rs))) sn"
proof -
  from assms(1) obtain as bs where a: "rs = as @ bs" "snap_wal_offset sn = length (wal_log crc as)"
      "length (wal_log crc as) \<le> sy" "image_ok dim as (snap_index sn) (snap_versions sn)"
    by (auto simp: snap_good_def)
  then obtain bs1 where "kept encode_body n rs = as @ bs1"
    using kept_with_prefix [of crc encode_body as n bs] assms(2) by auto
  with a show ?thesis by (auto simp: snap_good_def)
qed

text \<open>Loading the snapshot and replaying the rest of the log gives the image of the whole log.\<close>

lemma replay_from_snapshot:
  assumes "0 < dim" "\<forall>sn. snap = Some sn \<longrightarrow> snap_good crc dim rs sy sn" "list_all (rec_dim dim) rs" "length rs \<le> 2 ^ 32"
  shows "\<exists>ix vs off ix' vs'. initial_image dim m snap = Some (ix, vs, off) \<and>
    replay E off 0 rs (ix, vs) = Some (Inr (), ix', vs') \<and> image_ok dim rs ix' vs'"
proof -
  obtain ix vs off as bs where im: "initial_image dim m snap = Some (ix, vs, off)" "rs = as @ bs"
      "off = length (wal_log crc as)" "image_ok dim as ix vs"
    using initial_image_ok [OF assms(1,2)] by blast
  have "replay E off 0 rs (ix, vs) = replay E off off bs (ix, vs)"
    unfolding im(2) using replay_skips [of 0 crc as off E bs] im(3) by simp
  moreover obtain ix' vs' where "replay E off off bs (ix, vs) = Some (Inr (), ix', vs')" "image_ok dim rs ix' vs'"
    using replay_applies [OF im(4), of bs off off E] assms(3,4) im(2) by auto
  ultimately show ?thesis using im(1) by auto
qed

text \<open>Opening a directory whose log is cut somewhere behind what the snapshots cover.\<close>

lemma shard_open_kept:
  assumes "0 < dim" "length rs \<le> 2 ^ 32" "list_all (rec_dim dim) rs" "list_all wal_fits rs" "sy \<le> n"
    and ss: "store_ok E (snap_good (e_crc E) dim rs sy) ss" "script (af_file ss) = []" "script (af_dir ss) = []"
    and f: "present f" "script f = []" "synced f = length (contents f)" "contents f = take n (wal_log (e_crc E) rs)"
  shows "\<exists>t d. shard_open E dim m mb batch \<lparr>sd_wal = f, sd_snap = ss\<rparr> = Some (Inr t, d) \<and>
    shard_inv E (kept encode_body n rs) t \<and> sh_dim t = dim \<and> durable (sh_wal t) \<and> batch_ms (sh_wal t) = batch"
proof -
  let ?crc = "e_crc E"
  define rs1 where "rs1 = kept encode_body n rs"
  obtain snap where load: "snapshot_load E ss = (Inr snap, ss)" "\<forall>sn. snap = Some sn \<longrightarrow> snap_good ?crc dim rs sy sn"
    using snapshot_load_ok [OF ss(1,2)] by blast
  obtain f1 where f1: "recovers ?crc f rs1 f1" using wal_recover_take [OF f(1,2,4,3) assms(4)] rs1_def by blast
  have pre: "list_all (rec_dim dim) rs1" "length rs1 \<le> 2 ^ 32" "list_all wal_fits rs1"
  proof -
    obtain rest where "rs = rs1 @ rest" using kept_prefix [of rs encode_body n] by (auto simp: rs1_def)
    then show "list_all (rec_dim dim) rs1" "length rs1 \<le> 2 ^ 32" "list_all wal_fits rs1" using assms(2-4) by simp_all
  qed
  have good: "snap_good ?crc dim rs1 (length (wal_log ?crc rs1)) sn" if "snap_good ?crc dim rs sy sn" for sn
    using snap_good_kept [OF that assms(5)] by (simp add: rs1_def)
  obtain ix vs off ix' vs' where im: "initial_image dim m snap = Some (ix, vs, off)"
      "replay E off 0 rs1 (ix, vs) = Some (Inr (), ix', vs')" "image_ok dim rs1 ix' vs'"
    using replay_from_snapshot [OF assms(1) _ pre(1,2), of snap ?crc "length (wal_log ?crc rs1)" m E] load(2) good by blast
  have "file_ok f1" using f1 by (simp add: file_ok_def recovers_def)
  then obtain w f2 where w: "wal_open f1 batch = (Inr w, f2)" "wal_inv ?crc rs1 w" "batch_ms w = batch"
      "log_file w = f1\<lparr>present := True\<rparr>" "buf (writer w) = []"
    using wal_open_inv [OF _ _ _ pre(3), of f1 ?crc batch] f1 by (auto simp: recovers_def)
  let ?t = "\<lparr>sh_dim = dim, sh_metric = m, sh_index = ix', sh_versions = vs', sh_wal = w,
     sh_threshold = saturating_mb mb, sh_last_snapshot = off, sh_snap = ss\<rparr>"
  have w': "durable w" "synced (log_file w) = length (wal_log ?crc rs1)" using w(4,5) f1 by (simp_all add: durable_def recovers_def)
  have "store_ok E (snap_good ?crc dim rs1 (synced (log_file w))) ss" unfolding w'(2) using ss(1) good by (rule store_ok_mono)
  then have "shard_inv E rs1 ?t" using assms(1) pre im(3) w(2) w'(1) by (simp add: shard_inv_def)
  moreover have "shard_open E dim m mb batch \<lparr>sd_wal = f, sd_snap = ss\<rparr> = Some (Inr ?t, \<lparr>sd_wal = f2, sd_snap = ss\<rparr>)"
    using sys_call_ok [OF ss(3)] load(1) im(1,2) f1 w(1) by (simp add: shard_open_def recovers_def)
  ultimately show ?thesis unfolding rs1_def using w(3) w'(1) by (intro exI [of _ ?t]) auto
qed

lemma crashed_snapshots:
  assumes "shard_inv E rs s"
  shows "store_ok E (snap_good (e_crc E) (sh_dim s) rs (synced (log_file (sh_wal s)))) (af_crash b (sh_snap s))"
    "script (af_file (af_crash b (sh_snap s))) = []" "script (af_dir (af_crash b (sh_snap s))) = []"
  using af_crash_ok [OF shard_invD(6) [OF assms]] by (simp_all add: af_crash_def Let_def)

lemma shard_open_crashed:
  assumes "shard_inv E rs s"
  shows "\<exists>rs1 rs2 s' d. shard_open E (sh_dim s) m mb batch (shard_crash k b s) = Some (Inr s', d) \<and>
    rs = rs1 @ rs2 \<and> shard_inv E rs1 s' \<and> sh_dim s' = sh_dim s \<and> durable (sh_wal s') \<and> batch_ms (sh_wal s') = batch \<and>
    (durable (sh_wal s) \<longrightarrow> rs2 = []) \<and>
    fst (wal_recover (e_crc E) (sd_wal (shard_crash k b s))) = Inr (rs1, length (wal_log (e_crc E) rs1)) \<and>
    (\<forall>as bs. rs = as @ bs \<longrightarrow> length (wal_log (e_crc E) as) \<le> synced (log_file (sh_wal s)) \<longrightarrow> (\<exists>cs. rs1 = as @ cs))"
proof -
  note D = shard_invD [OF assms]
  let ?crc = "e_crc E" and ?f = "crash k (log_file (sh_wal s))"
  obtain n where n: "synced (log_file (sh_wal s)) \<le> n" "contents ?f = take n (wal_log ?crc rs)" using wal_inv_crash [OF D(5)] by blast
  have W: "list_all wal_fits rs" "present ?f" using D(5) by (simp_all add: wal_inv_def)
  define rs1 where "rs1 = kept encode_body n rs"
  obtain rs2 where rs2: "rs = rs1 @ rs2" using kept_prefix [of rs encode_body n] by (auto simp: rs1_def)
  from shard_open_kept [OF D(1,2,3) W(1) n(1) crashed_snapshots [OF assms] W(2) _ _ n(2), of m mb batch b] obtain t d where
    t: "shard_open E (sh_dim s) m mb batch (shard_crash k b s) = Some (Inr t, d)" "shard_inv E rs1 t" "sh_dim t = sh_dim s"
      "durable (sh_wal t)" "batch_ms (sh_wal t) = batch"
    by (auto simp: shard_crash_def rs1_def)
  obtain f' where "recovers ?crc ?f rs1 f'" using wal_recover_take [OF W(2) _ n(2) _ W(1)] rs1_def by auto
  then have rec: "fst (wal_recover ?crc (sd_wal (shard_crash k b s))) = Inr (rs1, length (wal_log ?crc rs1))"
    by (simp add: recovers_def shard_crash_def)
  have "rs2 = []" if "durable (sh_wal s)"
  proof -
    have "length (wal_log ?crc rs) \<le> n" using that D(5) n(1) by (auto simp: wal_inv_def durable_def logical_def)
    then have "rs1 = rs" unfolding rs1_def by (rule kept_all)
    with rs2 show ?thesis by (metis append_self_conv)
  qed
  moreover have "\<exists>cs. rs1 = as @ cs" if "rs = as @ bs" "length (wal_log ?crc as) \<le> synced (log_file (sh_wal s))" for as bs
    using kept_with_prefix [of ?crc encode_body as n bs] that n(1) by (auto simp: rs1_def)
  ultimately show ?thesis using t rs2 rec by blast
qed

text \<open>The process may also die in the middle of a write: what had been synced is there, and the record
  of the write is there completely or not at all.\<close>

lemma shard_open_torn:
  assumes "shard_inv E rs s" "wal_fits r" "rec_dim (sh_dim s) r" "length rs < 2 ^ 32"
    and "wal_append (e_crc E) r (sh_wal s) = (Inl e, w)"
  shows "\<exists>rs1 t d. shard_open E (sh_dim s) m mb batch (shard_crash k b (s\<lparr>sh_wal := w\<rparr>)) = Some (Inr t, d) \<and>
    shard_inv E rs1 t \<and> sh_dim t = sh_dim s \<and> durable (sh_wal t) \<and> batch_ms (sh_wal t) = batch \<and>
    (\<exists>n. rs1 = kept encode_body n (rs @ [r]) \<and> synced (log_file (sh_wal s)) \<le> n)"
proof -
  note D = shard_invD [OF assms(1)]
  let ?f = "crash k (log_file w)"
  obtain n where n: "present (log_file w)" "synced (log_file (sh_wal s)) \<le> n" "contents ?f = take n (wal_log (e_crc E) (rs @ [r]))"
    using wal_append_torn [OF D(5) assms(5)] by blast
  have rs: "length (rs @ [r]) \<le> 2 ^ 32" "list_all (rec_dim (sh_dim s)) (rs @ [r])" "list_all wal_fits (rs @ [r])"
    using assms(2-4) D(3,5) by (simp_all add: wal_inv_def)
  have "store_ok E (snap_good (e_crc E) (sh_dim s) (rs @ [r]) (synced (log_file (sh_wal s)))) (af_crash b (sh_snap s))"
    using crashed_snapshots(1) [OF assms(1)] by (rule store_ok_mono) (rule snap_good_mono [OF _ order_refl])
  from shard_open_kept [OF D(1) rs n(2) this crashed_snapshots(2,3) [OF assms(1)] _ _ _ n(3), of m mb batch] n(1,2)
  show ?thesis by (auto simp: shard_crash_def)
qed

section \<open>Reachable shards\<close>

text \<open>A new directory; the calls on its files may be scripted to fail.\<close>

definition fresh_disk :: "nat option list \<Rightarrow> nat option list \<Rightarrow> nat option list \<Rightarrow> shard_disk" where
  "fresh_disk sw st sd = \<lparr>sd_wal = empty_file\<lparr>script := sw\<rparr>,
     sd_snap = afile_new\<lparr>af_tmp := empty_file\<lparr>script := st\<rparr>, af_dir := empty_file\<lparr>script := sd\<rparr>\<rparr>\<rparr>"

text \<open>The shards a node can hold, with the records in their log: opened on a new directory,
  written through the versioned operations, flushed, snapshotted, and reopened after a power
  failure at any point.  A write that returns an I/O error ends the history.\<close>

inductive shard_reach :: "env \<Rightarrow> shard \<Rightarrow> wal_record list \<Rightarrow> bool" for E where
  reach_open: "0 < dim \<Longrightarrow> shard_open E dim m mb batch (fresh_disk sw st sd) = Some (Inr s, d) \<Longrightarrow> shard_reach E s []"
| reach_upsert: "shard_reach E s rs \<Longrightarrow> length rs < 2 ^ 32 \<Longrightarrow> wal_fits (wal_record_upsert h i v pl) \<Longrightarrow>
    upsert_versioned E h i v pl s = Some (Inr oc, s') \<Longrightarrow>
    shard_reach E s' (if oc = Applied then rs @ [wal_record_upsert h i v pl] else rs)"
| reach_delete: "shard_reach E s rs \<Longrightarrow> length rs < 2 ^ 32 \<Longrightarrow> wal_fits (wal_record_delete h i) \<Longrightarrow>
    delete_versioned E h i s = Some (Inr oc, s') \<Longrightarrow>
    shard_reach E s' (if oc = Applied then rs @ [wal_record_delete h i] else rs)"
| reach_flush: "shard_reach E s rs \<Longrightarrow> shard_flush s = (r, s') \<Longrightarrow> shard_reach E s' rs"
| reach_snapshot: "shard_reach E s rs \<Longrightarrow> snapshot_now E s = (r, s') \<Longrightarrow> shard_reach E s' rs"
| reach_restart: "shard_reach E s rs \<Longrightarrow>
    shard_open E (sh_dim s) m mb batch (shard_crash k b s) = Some (Inr s', d) \<Longrightarrow>
    fst (wal_recover (e_crc E) (sd_wal (shard_crash k b s))) = Inr (rs', n) \<Longrightarrow> shard_reach E s' rs'"

lemma wal_open_fresh:
  assumes "wal_open (empty_file\<lparr>script := sc\<rparr>) batch = (Inr w, f)"
  shows "wal_inv crc [] w" "durable w" "batch_ms w = batch"
proof -
  obtain q1 f1 where q1: "sys_call (empty_file\<lparr>script := sc\<rparr>) = (q1, f1)" by fastforce
  obtain q2 f2 where q2: "sys_call (f1\<lparr>present := True\<rparr>) = (q2, f2)" by fastforce
  have w: "w = \<lparr>writer = buf_new f2, dirty = False, wal_len = length (contents f2), batch_ms = batch\<rparr>"
    using assms q1 q2 by (cases q1; cases q2) (auto simp: wal_open_def sys_open_create_def)
  have "contents f2 = []" "synced f2 = 0" "present f2"
    using sys_call_keeps [OF q1] sys_call_keeps [OF q2] by (simp_all add: empty_file_def)
  then show "wal_inv crc [] w" "durable w" "batch_ms w = batch"
    by (simp_all add: w wal_inv_def durable_def buf_new_def logical_def)
qed

lemma shard_open_fresh:
  assumes "0 < dim" "shard_open E dim m mb batch (fresh_disk sw st sd) = Some (Inr s, d)"
  shows "shard_inv E [] s" "durable (sh_wal s)" "sh_dim s = dim" "batch_ms (sh_wal s) = batch"
proof -
  let ?ss = "sd_snap (fresh_disk sw st sd)"
  obtain q dd where q: "sys_call (af_dir ?ss) = (q, dd)" by fastforce
  obtain ix where ix: "hnsw_new dim m = Some ix" using hnsw_new_ok [OF assms(1)] by blast
  have slots: "af_file ?ss = empty_file" "af_old ?ss = empty_file" "sd_wal (fresh_disk sw st sd) = empty_file\<lparr>script := sw\<rparr>"
    by (simp_all add: fresh_disk_def afile_new_def)
  have load: "snapshot_load E (?ss\<lparr>af_dir := dd\<rparr>) = (Inr None, ?ss\<lparr>af_dir := dd\<rparr>)"
    using slots by (simp add: snapshot_load_def empty_file_def)
  have rec: "wal_recover (e_crc E) (empty_file\<lparr>script := sw\<rparr>) = (Inr ([], 0), empty_file\<lparr>script := sw\<rparr>)"
    by (simp add: wal_recover_def empty_file_def)
  obtain q2 f2 where q2: "wal_open (empty_file\<lparr>script := sw\<rparr>) batch = (q2, f2)" by fastforce
  obtain w where w: "q2 = Inr w" "s = \<lparr>sh_dim = dim, sh_metric = m, sh_index = ix, sh_versions = [], sh_wal = w,
      sh_threshold = saturating_mb mb, sh_last_snapshot = 0, sh_snap = ?ss\<lparr>af_dir := dd\<rparr>\<rparr>"
    using assms(2) q load ix slots rec q2
    by (cases q; cases q2) (auto simp: shard_open_def initial_image_def)
  note o = wal_open_fresh [OF q2 [unfolded w(1)]]
  have "store_ok E P (?ss\<lparr>af_dir := dd\<rparr>)" for P using slots by (simp add: store_ok_def af_holds_def slot_holds_def empty_file_def)
  then show "shard_inv E [] s" "durable (sh_wal s)" "sh_dim s = dim" "batch_ms (sh_wal s) = batch"
    using w(2) o assms(1) image_ok_new [OF ix] by (simp_all add: shard_inv_def)
qed

lemma shard_reach_inv: "shard_reach E s rs \<Longrightarrow> bincode_ok E \<Longrightarrow> shard_inv E rs s"
proof (induction rule: shard_reach.induct)
  case (reach_open dim m mb batch sw st sd s d)
  then show ?case using shard_open_fresh by blast
next
  case (reach_upsert s rs h i v pl oc s')
  then show ?case using upsert_versioned_cases [of E rs s h i v pl oc s'] by auto
next
  case (reach_delete s rs h i oc s')
  then show ?case using delete_versioned_cases [of E rs s h i oc s'] by auto
next
  case (reach_flush s rs r s')
  obtain q w where q: "wal_flush (sh_wal s) = (q, w)" by fastforce
  with reach_flush have "s' = s\<lparr>sh_wal := w\<rparr>" by (cases q) (auto simp: shard_flush_def)
  then show ?case using shard_flush_inv [OF _ q] reach_flush by simp
next
  case (reach_snapshot s rs r s')
  then show ?case using snapshot_now_inv by blast
next
  case (reach_restart s rs m mb batch k b s' d rs' n)
  from shard_open_crashed [OF reach_restart.IH [OF reach_restart.prems], of m mb batch k b] reach_restart.hyps(2,3)
  show ?case by auto
qed

end
