(* ===== verification/Shard_Props.thy ===== *)
theory Shard_Props
  imports Shard_Correct
begin

text \<open>
  The properties of a durable shard: what an acknowledged write means after a crash, the
  last-writer-wins contract, convergence of replicas, completeness of the record stream, and
  where the code departs from its own contract.
\<close>

section \<open>Reading an image\<close>

lemma image_ok_reads:
  assumes "image_ok dim rs (sh_index s) (sh_versions s)"
  shows "shard_version s i = map_option (\<lambda>(h, v). \<lparr>pv_hlc = h, pv_tombstone = (v = None)\<rparr>) (lww_log rs i)"
    "shard_get s i = Some (case lww_log rs i of None \<Rightarrow> None | Some (_, v) \<Rightarrow> v)"
proof -
  note I = image_okD [OF assms]
  have live: "hnsw_points (sh_index s) i \<noteq> None \<longleftrightarrow> (\<exists>v. map_of (sh_versions s) i = Some v \<and> \<not> pv_tombstone v)"
    using I(5) by (simp add: live_agree_def)
  have log: "lww_log rs i = image (sh_index s) (sh_versions s) i" using I(6) by simp
  show "shard_version s i = map_option (\<lambda>(h, v). \<lparr>pv_hlc = h, pv_tombstone = (v = None)\<rparr>) (lww_log rs i)"
    unfolding log using live
    by (cases "map_of (sh_versions s) i") (auto simp: shard_version_def image_def)
  show "shard_get s i = Some (case lww_log rs i of None \<Rightarrow> None | Some (_, v) \<Rightarrow> v)"
    unfolding log using live hnsw_get_vector_ok [OF I(1), of i]
    by (cases "map_of (sh_versions s) i") (auto simp: shard_get_def image_def)
qed

lemmas image_reads = image_ok_reads [OF shard_invD(4)]

definition same_contents :: "shard \<Rightarrow> shard \<Rightarrow> bool" where
  "same_contents s t \<longleftrightarrow> (\<forall>i. shard_version s i = shard_version t i \<and> shard_get s i = shard_get t i)"

lemma same_log_same_contents: "shard_inv E rs s \<Longrightarrow> shard_inv F rs t \<Longrightarrow> same_contents s t"
  by (simp add: same_contents_def image_reads)

lemma reopen_durable:
  assumes "shard_inv E rs s" "durable (sh_wal s)"
  shows "\<exists>t d. shard_open E (sh_dim s) m mb batch (shard_crash k b s) = Some (Inr t, d) \<and> same_contents t s \<and> shard_inv E rs t"
proof -
  from shard_open_crashed [OF assms(1), of m mb batch k b] assms(2) obtain t d rs1 rs2 where
    t: "shard_open E (sh_dim s) m mb batch (shard_crash k b s) = Some (Inr t, d)" "rs = rs1 @ rs2" "shard_inv E rs1 t" "rs2 = []"
    by blast
  then have "shard_inv E rs t" by simp
  with t(1) same_log_same_contents [OF this assms(1)] show ?thesis by blast
qed

section \<open>Progress without faults\<close>

lemma commit_faultless:
  assumes "faultless (sh_wal s)" "sh_threshold s = 0" "act (sh_index s) = Some (Inr a, ix')"
  shows "\<exists>s'. commit E r act tomb s = Some (Inr a, s') \<and> faultless (sh_wal s') \<and> sh_threshold s' = 0"
proof -
  obtain n w where "wal_append (e_crc E) r (sh_wal s) = (Inr n, w)" "faultless w"
    using wal_append_faultless [OF assms(1)] by blast
  with assms show ?thesis by (simp add: commit_def maybe_snapshot_def)
qed

lemma upsert_faultless:
  assumes "shard_inv E rs s" "faultless (sh_wal s)" "sh_threshold s = 0" "length v = sh_dim s" "length rs < 2 ^ 32"
    and "\<not> is_stale s i h"
  shows "\<exists>s'. upsert_versioned E h i v pl s = Some (Inr Applied, s') \<and> faultless (sh_wal s') \<and> sh_threshold s' = 0"
proof -
  obtain ix' where ix': "hnsw_insert (e_K E) (e_lv E) i v (sh_index s) = Some (Inr (), ix')"
    using upsert_image [OF shard_invD(4) [OF assms(1)] assms(6,4,5)] by blast
  from commit_faultless [where act = "hnsw_insert (e_K E) (e_lv E) i v", OF assms(2,3) ix'] assms(4,6) show ?thesis
    by (fastforce simp: upsert_versioned_def)
qed

lemma shard_open_fresh_mb:
  assumes "0 < dim"
  shows "\<exists>s d. shard_open E dim m mb batch (fresh_disk [] [] []) = Some (Inr s, d) \<and> faultless (sh_wal s) \<and> sh_threshold s = saturating_mb mb"
proof -
  obtain ix where ix: "hnsw_new dim m = Some ix" using hnsw_new_ok [OF assms] by blast
  then show ?thesis
    by (simp add: shard_open_def fresh_disk_def afile_new_def empty_file_def sys_call_ok snapshot_load_def
        initial_image_def wal_recover_def wal_open_def sys_open_create_ok buf_new_def)
qed

lemma shard_open_fresh_ok:
  assumes "0 < dim"
  shows "\<exists>s d. shard_open E dim m 0 batch (fresh_disk [] [] []) = Some (Inr s, d) \<and> faultless (sh_wal s) \<and> sh_threshold s = 0"
  using shard_open_fresh_mb [OF assms, of E m 0 batch] by (simp add: saturating_mb_def)

text \<open>An instance of the environment for concrete runs: one snapshot can be stored.\<close>

definition demo_env :: env where
  "demo_env = \<lparr>e_crc = (\<lambda>b. of_nat (length b)), e_K = (\<lambda>_ a b. hd a), e_lv = (\<lambda>_ _. 1),
     e_ser = (\<lambda>s. if snap_wal_offset s = 0 \<and> snap_versions s = [] \<and> Some (snap_index s) = hnsw_new 1 L2 then Inr [7] else Inl BincodeError),
     e_de = (\<lambda>bs. if bs = [7] then Inr \<lparr>snap_wal_offset = 0, snap_index = the (hnsw_new 1 L2), snap_versions = []\<rparr> else Inl BincodeError)\<rparr>"

lemma bincode_demo: "bincode_ok demo_env"
  unfolding bincode_ok_def
proof (intro allI impI)
  fix s bs
  assume "e_ser demo_env s = Inr bs"
  then have "snap_wal_offset s = 0" "snap_versions s = []" "hnsw_new 1 L2 = Some (snap_index s)" "bs = [7]"
    by (auto simp: demo_env_def split: if_splits)
  then show "e_de demo_env bs = Inr s" by (cases s) (simp add: demo_env_def)
qed

text \<open>A shard of dimension 1 in fsync mode with one point.\<close>

lemma demo_shard_at:
  "\<exists>s s'. shard_reach demo_env s [] \<and> faultless (sh_wal s) \<and> sh_threshold s = 0 \<and> batch_ms (sh_wal s) = 0 \<and> sh_dim s = 1 \<and>
     upsert_versioned demo_env (Hlc 5 0) 7 [x] [] s = Some (Inr Applied, s') \<and> faultless (sh_wal s') \<and> sh_threshold s' = 0 \<and>
     wal_fits (wal_record_upsert (Hlc 5 0) 7 [x] [])"
proof -
  obtain s d where s: "shard_open demo_env 1 L2 0 0 (fresh_disk [] [] []) = Some (Inr s, d)" "faultless (sh_wal s)" "sh_threshold s = 0"
    using shard_open_fresh_ok [OF zero_less_one] by blast
  note o = shard_open_fresh [OF _ s(1)]
  have inv: "shard_inv demo_env [] s" "batch_ms (sh_wal s) = 0" "sh_dim s = 1" using o by simp_all
  have "\<not> is_stale s 7 (Hlc 5 0)"
    using stale_image [where i = 7 and P = "\<lambda>g. Hlc 5 0 \<le> g", OF shard_invD(4) [OF inv(1)]] by (simp add: is_stale_def)
  from upsert_faultless [OF inv(1) s(2,3) _ _ this, of "[x]" "[]"] inv(3) obtain s' where
    "upsert_versioned demo_env (Hlc 5 0) 7 [x] [] s = Some (Inr Applied, s')" "faultless (sh_wal s')" "sh_threshold s' = 0" by auto
  moreover have "wal_fits (wal_record_upsert (Hlc 5 0) 7 [x] [])"
    by (simp add: wal_record_upsert_def fits_def rec_ok_def hlc_ok_def)
  moreover have "shard_reach demo_env s []" by (rule reach_open [OF _ s(1)]) simp
  ultimately show ?thesis using s(2,3) inv(2,3) by blast
qed

lemmas demo_shard = demo_shard_at [of 3]

section \<open>Offering writes in any order\<close>

text \<open>A replica receives writes (live, replayed from hints, repaired or transferred) and applies
  each through the versioned operations.\<close>

definition offer :: "env \<Rightarrow> wal_record \<Rightarrow> shard \<Rightarrow> ((shard_error + write_outcome) \<times> shard) option" where
  "offer E r s = (case rec_op r of
     Upsert \<Rightarrow> upsert_versioned E (rec_hlc r) (rec_id r) (rec_vector r) (rec_payload r) s
   | Delete \<Rightarrow> delete_versioned E (rec_hlc r) (rec_id r) s)"

fun offers :: "env \<Rightarrow> wal_record list \<Rightarrow> shard \<Rightarrow> shard option" where
  "offers E [] s = Some s"
| "offers E (r # rs) s = (case offer E r s of Some (Inr _, s') \<Rightarrow> offers E rs s' | _ \<Rightarrow> None)"

text \<open>The state after the write: the second offer of an equal stamp is stale.\<close>

lemma demo_twice:
  "\<exists>s s'. shard_reach demo_env s [] \<and> sh_dim s = 1 \<and>
     offers demo_env [wal_record_upsert (Hlc 5 0) 7 [x] [], wal_record_upsert (Hlc 5 0) 7 [y] []] s = Some s'"
proof -
  obtain s s' where s: "shard_reach demo_env s []" "sh_dim s = 1" "wal_fits (wal_record_upsert (Hlc 5 0) 7 [x] [])"
      "upsert_versioned demo_env (Hlc 5 0) 7 [x] [] s = Some (Inr Applied, s')"
    using demo_shard_at [of x] by blast
  note c = upsert_versioned_cases [OF bincode_demo shard_reach_inv [OF s(1) bincode_demo] _ s(3,4)]
  have "sh_dim s' = 1" "is_stale s' 7 (Hlc 5 0)" using c s(2) by (auto simp: is_stale_def)
  then have "upsert_versioned demo_env (Hlc 5 0) 7 [y] [] s' = Some (Inr Stale, s')"
    by (simp add: upsert_versioned_def)
  with s show ?thesis by (auto simp: offer_def wal_record_upsert_def)
qed

text \<open>A write that may be offered: representable, a delete without a vector or payload.\<close>

definition write_ok :: "wal_record \<Rightarrow> bool" where
  "write_ok r \<longleftrightarrow> wal_fits r \<and> (rec_op r = Delete \<longrightarrow> rec_vector r = [] \<and> rec_payload r = [])"

definition lww_offer :: "lww \<Rightarrow> wal_record \<Rightarrow> lww" where
  "lww_offer m r =
     (if (case m (rec_id r) of Some (h, _) \<Rightarrow> rec_hlc r \<le> h | None \<Rightarrow> False) then m
      else m(rec_id r \<mapsto> (rec_hlc r, rec_value r)))"

lemma offer_step:
  assumes "bincode_ok E" "shard_inv E rs s" "length rs < 2 ^ 32" "write_ok r" "offer E r s = Some (Inr oc, s')"
  shows "\<exists>rs'. shard_inv E rs' s' \<and> length rs' \<le> length rs + 1 \<and> lww_log rs' = lww_offer (lww_log rs) r"
proof -
  let ?st = "case lww_log rs (rec_id r) of Some (h, _) \<Rightarrow> rec_hlc r \<le> h | None \<Rightarrow> False"
  have stale: "is_stale s (rec_id r) (rec_hlc r) \<longleftrightarrow> ?st"
    unfolding is_stale_def by (rule stale_image [OF shard_invD(4) [OF assms(2)]])
  have lt: "\<not> (case lww_log rs (rec_id r) of Some (h, _) \<Rightarrow> rec_hlc r < h | None \<Rightarrow> False)" if "\<not> ?st"
    using that by (auto split: option.splits)
  have "is_stale s (rec_id r) (rec_hlc r) \<and> s' = s \<or> \<not> is_stale s (rec_id r) (rec_hlc r) \<and> shard_inv E (rs @ [r]) s'"
  proof (cases "rec_op r")
    case Upsert
    then have "r = wal_record_upsert (rec_hlc r) (rec_id r) (rec_vector r) (rec_payload r)"
      by (simp add: wal_record_upsert_def)
    then show ?thesis
      using upsert_versioned_cases [OF assms(1-3), of "rec_hlc r" "rec_id r" "rec_vector r" "rec_payload r" oc s'] assms(4,5) Upsert
      by (auto simp: write_ok_def offer_def)
  next
    case Delete
    then have "r = wal_record_delete (rec_hlc r) (rec_id r)"
      using assms(4) by (simp add: wal_record_delete_def write_ok_def)
    then show ?thesis
      using delete_versioned_cases [OF assms(1-3), of "rec_hlc r" "rec_id r" oc s'] assms(4,5) Delete
      by (auto simp: write_ok_def offer_def)
  qed
  then show ?thesis
  proof
    assume "is_stale s (rec_id r) (rec_hlc r) \<and> s' = s"
    with assms(2) stale show ?thesis by (intro exI [of _ rs]) (simp add: lww_offer_def)
  next
    assume "\<not> is_stale s (rec_id r) (rec_hlc r) \<and> shard_inv E (rs @ [r]) s'"
    with stale lt show ?thesis
      by (intro exI [of _ "rs @ [r]"]) (simp add: lww_offer_def lww_log_snoc lww_apply_def)
  qed
qed

lemma offers_log:
  assumes "bincode_ok E" "shard_inv E rs s" "length rs + length ws < 2 ^ 32" "list_all write_ok ws" "offers E ws s = Some t"
  shows "\<exists>rs'. shard_inv E rs' t \<and> lww_log rs' = foldl lww_offer (lww_log rs) ws"
  using assms(2-5)
proof (induction ws arbitrary: rs s)
  case Nil
  then show ?case by auto
next
  case (Cons r ws)
  then obtain oc s1 where o: "offer E r s = Some (Inr oc, s1)" "offers E ws s1 = Some t"
    by (auto split: option.splits prod.splits sum.splits)
  have "length rs < 2 ^ 32" "write_ok r" using Cons.prems(2,3) by simp_all
  from offer_step [OF assms(1) Cons.prems(1) this o(1)] obtain rs1 where
    rs1: "shard_inv E rs1 s1" "length rs1 \<le> length rs + 1" "lww_log rs1 = lww_offer (lww_log rs) r" by blast
  with Cons.IH [OF rs1(1) _ _ o(2)] Cons.prems show ?case by simp
qed

definition lww_offers :: "wal_record list \<Rightarrow> lww" where
  "lww_offers ws = foldl lww_offer Map.empty ws"

lemma lww_offers_simps [simp]:
  "lww_offers [] = Map.empty" "lww_offers (ws @ [r]) = lww_offer (lww_offers ws) r"
  by (simp_all add: lww_offers_def)

lemma lww_offer_at:
  "lww_offer m r i = (if rec_id r = i then
     (case m i of Some (h, u) \<Rightarrow> if rec_hlc r \<le> h then Some (h, u) else Some (rec_hlc r, rec_value r)
      | None \<Rightarrow> Some (rec_hlc r, rec_value r)) else m i)"
  by (auto simp: lww_offer_def split: option.splits)

lemma lww_none:
  assumes "lww_offers ws i = None" "r \<in> set ws"
  shows "rec_id r \<noteq> i"
  using assms
proof (induction ws arbitrary: r rule: rev_induct)
  case (snoc x ws)
  have "lww_offers ws i = None"
    using snoc.prems(1) by (auto simp: lww_offer_at split: if_splits option.splits)
  with snoc show ?case by (auto simp: lww_offer_at split: if_splits option.splits)
qed simp

text \<open>Distinct stamps per id: the state is the set of maxima, whatever the order.\<close>

lemma lww_offers_max:
  assumes "distinct (map (\<lambda>r. (rec_id r, rec_hlc r)) ws)"
  shows "lww_offers ws i = Some (h, v) \<longleftrightarrow>
    (\<exists>r \<in> set ws. rec_id r = i \<and> rec_hlc r = h \<and> rec_value r = v \<and> (\<forall>r' \<in> set ws. rec_id r' = i \<longrightarrow> rec_hlc r' \<le> h))"
  using assms
proof (induction ws arbitrary: h v rule: rev_induct)
  case Nil
  then show ?case by simp
next
  case (snoc r ws)
  have d: "distinct (map (\<lambda>r. (rec_id r, rec_hlc r)) ws)" and new: "\<forall>r' \<in> set ws. rec_id r' = rec_id r \<longrightarrow> rec_hlc r' \<noteq> rec_hlc r"
    using snoc.prems by (auto simp: image_iff)
  let ?m = "lww_offers ws"
  note IH = snoc.IH [OF d]
  show ?case
  proof (cases "rec_id r = i")
    case False
    then have "lww_offers (ws @ [r]) i = ?m i" by (auto simp: lww_offer_at)
    with False IH show ?thesis by auto
  next
    case True
    show ?thesis
    proof (cases "?m i")
      case None
      have "rec_id r' \<noteq> i" if "r' \<in> set ws" for r' by (rule lww_none [OF None that])
      with None True show ?thesis by (auto simp: lww_offer_at)
    next
      case (Some p)
      obtain g u where p: "p = (g, u)" by fastforce
      from IH [of g u] Some p obtain r0 where r0: "r0 \<in> set ws" "rec_id r0 = i" "rec_hlc r0 = g" "rec_value r0 = u"
        "\<forall>r' \<in> set ws. rec_id r' = i \<longrightarrow> rec_hlc r' \<le> g" by auto
      show ?thesis
      proof (cases "rec_hlc r \<le> g")
        case le: True
        then have "lww_offers (ws @ [r]) i = Some (g, u)" using Some p True by (simp add: lww_offer_at)
        then have eq: "lww_offers (ws @ [r]) i = lww_offers ws i" using Some p by simp
        have lt: "rec_hlc r < g" using le new r0 True by force
        show ?thesis unfolding eq IH
        proof
          assume "\<exists>x \<in> set ws. rec_id x = i \<and> rec_hlc x = h \<and> rec_value x = v \<and> (\<forall>r' \<in> set ws. rec_id r' = i \<longrightarrow> rec_hlc r' \<le> h)"
          moreover from this have "g \<le> h" using r0 by blast
          ultimately show "\<exists>x \<in> set (ws @ [r]). rec_id x = i \<and> rec_hlc x = h \<and> rec_value x = v \<and>
              (\<forall>r' \<in> set (ws @ [r]). rec_id r' = i \<longrightarrow> rec_hlc r' \<le> h)"
            using lt by force
        next
          assume "\<exists>x \<in> set (ws @ [r]). rec_id x = i \<and> rec_hlc x = h \<and> rec_value x = v \<and>
              (\<forall>r' \<in> set (ws @ [r]). rec_id r' = i \<longrightarrow> rec_hlc r' \<le> h)"
          then obtain x where x: "x \<in> set (ws @ [r])" "rec_id x = i" "rec_hlc x = h" "rec_value x = v"
            "\<forall>r' \<in> set (ws @ [r]). rec_id r' = i \<longrightarrow> rec_hlc r' \<le> h" by blast
          have "g \<le> h" using x(5) r0 by auto
          then have "x \<noteq> r" using x(3) lt by auto
          with x show "\<exists>x \<in> set ws. rec_id x = i \<and> rec_hlc x = h \<and> rec_value x = v \<and> (\<forall>r' \<in> set ws. rec_id r' = i \<longrightarrow> rec_hlc r' \<le> h)"
            by auto
        qed
      next
        case gt: False
        then have "lww_offers (ws @ [r]) i = Some (rec_hlc r, rec_value r)" using Some p True by (simp add: lww_offer_at)
        moreover have "\<forall>r' \<in> set ws. rec_id r' = i \<longrightarrow> rec_hlc r' < rec_hlc r" using r0(5) gt by force
        ultimately show ?thesis using True by force
      qed
    qed
  qed
qed

lemma lww_offers_perm:
  assumes "mset ws = mset ws'" "distinct (map (\<lambda>r. (rec_id r, rec_hlc r)) ws)"
  shows "lww_offers ws = lww_offers ws'"
proof
  fix i
  have d': "distinct (map (\<lambda>r. (rec_id r, rec_hlc r)) ws')"
    using assms by (metis mset_map mset_eq_imp_distinct_iff)
  have "set ws = set ws'" using assms(1) by (rule mset_eq_setD)
  then have "lww_offers ws i = Some p \<longleftrightarrow> lww_offers ws' i = Some p" for p
    using lww_offers_max [OF assms(2), of i "fst p" "snd p"] lww_offers_max [OF d', of i "fst p" "snd p"] by simp
  then show "lww_offers ws i = lww_offers ws' i" by (metis option.exhaust)
qed

section \<open>The record stream\<close>

lemma rows_of_ok:
  assumes "hnsw_inv ix"
  shows "rows_of ix vs = Some (map (\<lambda>(i, v). (i, pv_hlc v, pv_tombstone v,
    if pv_tombstone v then [] else case hnsw_points ix i of Some x \<Rightarrow> x | None \<Rightarrow> [])) vs)"
  using hnsw_get_vector_ok [OF assms] by (induction vs) (auto split: option.splits)

lemma keyed_rows:
  assumes "\<And>i v. fst (f (i, v)) = i" "distinct (map fst vs)"
  shows "(i, y) \<in> set (map f vs) \<longleftrightarrow> (\<exists>v. map_of vs i = Some v \<and> f (i, v) = (i, y))"
proof -
  have "(i, y) \<in> set (map f vs) \<longleftrightarrow> (\<exists>j v. (j, v) \<in> set vs \<and> f (j, v) = (i, y))" by force
  also have "\<dots> \<longleftrightarrow> (\<exists>v. (i, v) \<in> set vs \<and> f (i, v) = (i, y))" using assms(1) by (metis fst_conv)
  finally show ?thesis using assms(2) by simp
qed

text \<open>The rows of an image.\<close>

lemma image_ok_records:
  assumes "image_ok dim rs (sh_index s) (sh_versions s)"
  shows "\<exists>rows. shard_records s = Some rows \<and> distinct (map fst rows) \<and>
    (\<forall>i h tomb x. (i, h, tomb, x) \<in> set rows \<longleftrightarrow>
       (\<exists>v. lww_log rs i = Some (h, v) \<and> tomb = (v = None) \<and> x = (case v of None \<Rightarrow> [] | Some x \<Rightarrow> x)))"
proof -
  note I = image_okD [OF assms]
  let ?f = "\<lambda>(i, v). (i, pv_hlc v, pv_tombstone v,
    if pv_tombstone v then [] else case hnsw_points (sh_index s) i of Some x \<Rightarrow> x | None \<Rightarrow> [])"
  have rows: "shard_records s = Some (map ?f (sh_versions s))"
    unfolding shard_records_def by (rule rows_of_ok [OF I(1)])
  have fsts: "map fst (map ?f (sh_versions s)) = map fst (sh_versions s)" by (simp add: split_def comp_def)
  have d: "distinct (map fst (map ?f (sh_versions s)))" unfolding fsts by (rule I(4))
  have "(i, h, tomb, x) \<in> set (map ?f (sh_versions s)) \<longleftrightarrow>
      (\<exists>v. lww_log rs i = Some (h, v) \<and> tomb = (v = None) \<and> x = (case v of None \<Rightarrow> [] | Some x \<Rightarrow> x))" for i h tomb x
  proof -
    have live: "hnsw_points (sh_index s) i \<noteq> None \<longleftrightarrow> (\<exists>v. map_of (sh_versions s) i = Some v \<and> \<not> pv_tombstone v)"
      using I(5) by (simp add: live_agree_def)
    have "(i, h, tomb, x) \<in> set (map ?f (sh_versions s)) \<longleftrightarrow> (\<exists>v. map_of (sh_versions s) i = Some v \<and> (i, h, tomb, x) = ?f (i, v))"
      by (subst keyed_rows [OF _ I(4)]) (auto simp: eq_commute)
    also have "\<dots> \<longleftrightarrow> (\<exists>v. image (sh_index s) (sh_versions s) i = Some (h, v) \<and> tomb = (v = None) \<and> x = (case v of None \<Rightarrow> [] | Some x \<Rightarrow> x))"
      using live by (cases "map_of (sh_versions s) i"; cases "hnsw_points (sh_index s) i") (auto simp: image_def)
    finally show ?thesis using I(6) by simp
  qed
  with rows d show ?thesis by blast
qed

section \<open>Properties\<close>

text \<open>In fsync mode an acknowledged upsert survives any later power failure: reopening the
  shard succeeds, whichever snapshot the directory still names, and every id has the version
  and the vector it had when the write returned; in particular the new write is there.\<close>

theorem shard_acked_upsert_survives_crash:
  assumes "bincode_ok E" "shard_reach E s rs" "length rs < 2 ^ 32" "batch_ms (sh_wal s) = 0"
    and "wal_fits (wal_record_upsert h i v pl)" "upsert_versioned E h i v pl s = Some (Inr Applied, s')"
  shows "\<exists>t d. shard_open E (sh_dim s') m mb batch (shard_crash k b s') = Some (Inr t, d) \<and> same_contents t s' \<and>
    shard_version t i = Some \<lparr>pv_hlc = h, pv_tombstone = False\<rparr> \<and> shard_get t i = Some (Some v)"
proof -
  note c = upsert_versioned_cases [OF assms(1) shard_reach_inv [OF assms(2,1)] assms(3,5,6)]
  then have inv: "shard_inv E (rs @ [wal_record_upsert h i v pl]) s'" and dur: "durable (sh_wal s')"
    and st: "hnsw_points (sh_index s') i = Some v" "shard_version s' i = Some \<lparr>pv_hlc = h, pv_tombstone = False\<rparr>"
    using assms(4) by (auto simp: shard_version_def)
  have "shard_get s' i = Some (Some v)"
    using hnsw_get_vector_ok [OF image_okD(1) [OF shard_invD(4) [OF inv]]] st(1) by (simp add: shard_get_def)
  with reopen_durable [OF inv dur, of m mb batch k b] st(2) show ?thesis by (auto simp: same_contents_def)
qed

theorem shard_acked_upsert_survives_crash_witness:
  "\<exists>s s' t d. shard_reach demo_env s [] \<and> upsert_versioned demo_env (Hlc 5 0) 7 [3] [] s = Some (Inr Applied, s') \<and>
     shard_open demo_env (sh_dim s') L2 0 0 (shard_crash 0 False s') = Some (Inr t, d) \<and> shard_get t 7 = Some (Some [3])"
proof -
  obtain s s' where s: "shard_reach demo_env s []" "batch_ms (sh_wal s) = 0"
      "upsert_versioned demo_env (Hlc 5 0) 7 [3] [] s = Some (Inr Applied, s')" "wal_fits (wal_record_upsert (Hlc 5 0) 7 [3] [])"
    using demo_shard by blast
  from shard_acked_upsert_survives_crash [OF bincode_demo s(1) _ s(2,4,3), of L2 0 0 0 False] s(1,3) show ?thesis
    by auto
qed

text \<open>The same for an acknowledged delete: after any crash the id is still deleted.\<close>

theorem shard_acked_delete_survives_crash:
  assumes "bincode_ok E" "shard_reach E s rs" "length rs < 2 ^ 32" "batch_ms (sh_wal s) = 0"
    and "wal_fits (wal_record_delete h i)" "delete_versioned E h i s = Some (Inr Applied, s')"
  shows "\<exists>t d. shard_open E (sh_dim s') m mb batch (shard_crash k b s') = Some (Inr t, d) \<and> same_contents t s' \<and>
    shard_version t i = Some \<lparr>pv_hlc = h, pv_tombstone = True\<rparr> \<and> shard_get t i = Some None"
proof -
  note c = delete_versioned_cases [OF assms(1) shard_reach_inv [OF assms(2,1)] assms(3,5,6)]
  then have inv: "shard_inv E (rs @ [wal_record_delete h i]) s'" and dur: "durable (sh_wal s')"
    and st: "hnsw_points (sh_index s') i = None" "shard_version s' i = Some \<lparr>pv_hlc = h, pv_tombstone = True\<rparr>"
    using assms(4) by (auto simp: shard_version_def)
  have "shard_get s' i = Some None"
    using hnsw_get_vector_ok [OF image_okD(1) [OF shard_invD(4) [OF inv]]] st(1) by (simp add: shard_get_def)
  with reopen_durable [OF inv dur, of m mb batch k b] st(2) show ?thesis by (auto simp: same_contents_def)
qed

theorem shard_acked_delete_survives_crash_witness:
  "\<exists>s s' t d. shard_reach demo_env s [wal_record_upsert (Hlc 5 0) 7 [3] []] \<and>
     delete_versioned demo_env (Hlc 6 0) 7 s = Some (Inr Applied, s') \<and>
     shard_open demo_env (sh_dim s') L2 0 0 (shard_crash 0 True s') = Some (Inr t, d) \<and> shard_get t 7 = Some None"
proof -
  let ?r = "wal_record_upsert (Hlc 5 0) 7 [3] []"
  obtain s0 s where s: "shard_reach demo_env s0 []" "upsert_versioned demo_env (Hlc 5 0) 7 [3] [] s0 = Some (Inr Applied, s)"
      "wal_fits ?r" "batch_ms (sh_wal s0) = 0" "faultless (sh_wal s)" "sh_threshold s = 0"
    using demo_shard by blast
  have r: "shard_reach demo_env s [?r]" using reach_upsert [OF s(1) _ s(3,2)] by simp
  note c = upsert_versioned_cases [OF bincode_demo shard_reach_inv [OF s(1) bincode_demo] _ s(3,2)]
  have ns: "\<not> is_stale s 7 (Hlc 6 0)" and bm: "batch_ms (sh_wal s) = 0"
    using c s(4) by (auto simp: is_stale_def less_eq_hlc_def)
  obtain b ix where "index_delete 7 (sh_index s) = Some (Inr b, ix)"
    using delete_image [OF shard_invD(4) [OF shard_reach_inv [OF r bincode_demo]] ns] by blast
  from commit_faultless [where act = "index_delete 7", OF s(5,6) this, of demo_env "wal_record_delete (Hlc 6 0) 7" True]
  obtain s' where s': "delete_versioned demo_env (Hlc 6 0) 7 s = Some (Inr Applied, s')"
    using ns by (auto simp: delete_versioned_def)
  have "wal_fits (wal_record_delete (Hlc 6 0) 7)" by (simp add: wal_record_delete_def fits_def rec_ok_def hlc_ok_def)
  from shard_acked_delete_survives_crash [OF bincode_demo r _ bm this s', of L2 0 0 0 True] r s' show ?thesis by auto
qed

text \<open>C7. In any mode reopening after a power failure succeeds and yields the last-writer-wins
  state of a prefix of the logged records, one that contains every record whose bytes had been
  synced.\<close>

theorem shard_reopen_is_logged_prefix:
  assumes "bincode_ok E" "shard_reach E s rs"
  shows "\<exists>rs1 rs2 t d. shard_open E (sh_dim s) m mb batch (shard_crash k b s) = Some (Inr t, d) \<and> rs = rs1 @ rs2 \<and>
    (\<forall>as bs. rs = as @ bs \<longrightarrow> length (wal_log (e_crc E) as) \<le> synced (log_file (sh_wal s)) \<longrightarrow> (\<exists>cs. rs1 = as @ cs)) \<and>
    (\<forall>i. shard_version t i = map_option (\<lambda>(h, v). \<lparr>pv_hlc = h, pv_tombstone = (v = None)\<rparr>) (lww_log rs1 i) \<and>
         shard_get t i = Some (case lww_log rs1 i of None \<Rightarrow> None | Some (_, v) \<Rightarrow> v))"
proof -
  from shard_open_crashed [OF shard_reach_inv [OF assms(2,1)], of m mb batch k b] obtain rs1 rs2 t d where
    "shard_open E (sh_dim s) m mb batch (shard_crash k b s) = Some (Inr t, d)" "rs = rs1 @ rs2" "shard_inv E rs1 t"
    "\<forall>as bs. rs = as @ bs \<longrightarrow> length (wal_log (e_crc E) as) \<le> synced (log_file (sh_wal s)) \<longrightarrow> (\<exists>cs. rs1 = as @ cs)"
    by blast
  with image_reads [OF this(3)] show ?thesis by blast
qed

theorem shard_reopen_is_logged_prefix_witness:
  "\<exists>s rs1 rs2 t d. shard_reach demo_env s [wal_record_upsert (Hlc 5 0) 7 [3] []] \<and>
     shard_open demo_env (sh_dim s) L2 0 9 (shard_crash 0 True s) = Some (Inr t, d) \<and>
     [wal_record_upsert (Hlc 5 0) 7 [3] []] = rs1 @ rs2"
proof -
  obtain s0 s where s: "shard_reach demo_env s0 []" "upsert_versioned demo_env (Hlc 5 0) 7 [3] [] s0 = Some (Inr Applied, s)"
      "wal_fits (wal_record_upsert (Hlc 5 0) 7 [3] [])" using demo_shard by blast
  have "shard_reach demo_env s [wal_record_upsert (Hlc 5 0) 7 [3] []]" using reach_upsert [OF s(1) _ s(3,2)] by simp
  with shard_reopen_is_logged_prefix [OF bincode_demo this, of L2 0 9 0 True] show ?thesis by blast
qed

text \<open>The contract of a versioned upsert on a reachable shard, on every branch: a wrong
  dimension is refused and changes nothing; otherwise the call never panics, and if it returns
  \<open>Ok\<close> it is stale exactly when a version with an equal or greater stamp is stored (and then
  changes nothing), and else the id has the new vector and stamp and all other ids keep theirs.\<close>

theorem upsert_versioned_contract:
  assumes "bincode_ok E" "shard_reach E s rs" "length rs < 2 ^ 32" "wal_fits (wal_record_upsert h i v pl)"
  shows "(length v \<noteq> sh_dim s \<longrightarrow> upsert_versioned E h i v pl s = Some (Inl (ShDim (sh_dim s) (length v)), s)) \<and>
    upsert_versioned E h i v pl s \<noteq> None \<and>
    (\<forall>oc s'. upsert_versioned E h i v pl s = Some (Inr oc, s') \<longrightarrow>
       (oc = Stale \<longleftrightarrow> (\<exists>w. shard_version s i = Some w \<and> h \<le> pv_hlc w)) \<and>
       (oc = Stale \<longrightarrow> s' = s) \<and>
       (oc = Applied \<longrightarrow> (\<forall>j. shard_version s' j = (if j = i then Some \<lparr>pv_hlc = h, pv_tombstone = False\<rparr> else shard_version s j) \<and>
          shard_get s' j = (if j = i then Some (Some v) else shard_get s j))))"
proof -
  note inv = shard_reach_inv [OF assms(2,1)]
  note I = image_okD [OF shard_invD(4) [OF inv]]
  have stale: "is_stale s i h \<longleftrightarrow> (\<exists>w. shard_version s i = Some w \<and> h \<le> pv_hlc w)"
    by (auto simp: is_stale_def shard_version_def split: option.splits)
  have nopanic: "upsert_versioned E h i v pl s \<noteq> None"
  proof (cases "length v = sh_dim s \<and> \<not> is_stale s i h")
    case True
    then obtain ix' where "hnsw_insert (e_K E) (e_lv E) i v (sh_index s) = Some (Inr (), ix')"
      using upsert_image [OF shard_invD(4) [OF inv] _ _ assms(3)] by blast
    then obtain r where "commit E (wal_record_upsert h i v pl) (hnsw_insert (e_K E) (e_lv E) i v) False s = Some r"
      by (cases "wal_append (e_crc E) (wal_record_upsert h i v pl) (sh_wal s)"; cases "fst (wal_append (e_crc E) (wal_record_upsert h i v pl) (sh_wal s))")
        (simp_all add: commit_def Let_def)
    then show ?thesis using True by (simp add: upsert_versioned_def)
  qed (auto simp: upsert_versioned_def)
  have applied: "shard_version s' j = (if j = i then Some \<lparr>pv_hlc = h, pv_tombstone = False\<rparr> else shard_version s j) \<and>
      shard_get s' j = (if j = i then Some (Some v) else shard_get s j)"
    if "upsert_versioned E h i v pl s = Some (Inr Applied, s')" for s' j
  proof -
    note c = upsert_versioned_cases [OF assms(1) inv assms(3,4) that]
    then have "hnsw_inv (sh_index s')" using image_okD(1) [OF shard_invD(4)] by blast
    then show ?thesis using c hnsw_get_vector_ok [of "sh_index s'" j] hnsw_get_vector_ok [OF I(1), of j]
      by (auto simp: shard_version_def shard_get_def)
  qed
  have "oc = Stale \<longleftrightarrow> is_stale s i h" "oc = Stale \<longrightarrow> s' = s"
    if "upsert_versioned E h i v pl s = Some (Inr oc, s')" for oc s'
    using upsert_versioned_cases [OF assms(1) inv assms(3,4) that] by auto
  with nopanic applied stale show ?thesis by (auto simp: upsert_versioned_def)
qed

theorem upsert_versioned_contract_witness:
  "\<exists>s s'. shard_reach demo_env s [] \<and> upsert_versioned demo_env (Hlc 5 0) 7 [3] [] s = Some (Inr Applied, s') \<and>
     shard_get s' 7 = Some (Some [3]) \<and> shard_get s' 8 = shard_get s 8"
proof -
  obtain s s' where s: "shard_reach demo_env s []" "upsert_versioned demo_env (Hlc 5 0) 7 [3] [] s = Some (Inr Applied, s')"
      "wal_fits (wal_record_upsert (Hlc 5 0) 7 [3] [])" using demo_shard by blast
  from upsert_versioned_contract [OF bincode_demo s(1) _ s(3)] s(2) have
    "\<forall>j. shard_get s' j = (if j = 7 then Some (Some [3]) else shard_get s j)" by simp
  with s(1,2) show ?thesis by auto
qed

text \<open>C12. Replicas converge: two shards that start empty and are offered the same writes in
  any two orders end with the same version and vector for every id, provided no two writes of
  one id carry the same stamp.\<close>

theorem replicas_converge:
  assumes "bincode_ok E" "bincode_ok F" "shard_reach E s []" "shard_reach F t []"
    and "mset ws = mset ws'" "distinct (map (\<lambda>r. (rec_id r, rec_hlc r)) ws)" "list_all write_ok ws" "length ws < 2 ^ 32"
    and "offers E ws s = Some s'" "offers F ws' t = Some t'"
  shows "same_contents s' t'"
proof -
  have len: "length ws' = length ws" and ok': "list_all write_ok ws'"
    using assms(5,7) by (metis mset_eq_length, metis list_all_iff mset_eq_setD)
  obtain rs1 where rs1: "shard_inv E rs1 s'" "lww_log rs1 = lww_offers ws"
    using offers_log [OF assms(1) shard_reach_inv [OF assms(3,1)] _ assms(7,9)] assms(8) by (auto simp: lww_offers_def)
  obtain rs2 where rs2: "shard_inv F rs2 t'" "lww_log rs2 = lww_offers ws'"
    using offers_log [OF assms(2) shard_reach_inv [OF assms(4,2)] _ ok' assms(10)] assms(8) len by (auto simp: lww_offers_def)
  have "lww_log rs1 = lww_log rs2" using rs1(2) rs2(2) lww_offers_perm [OF assms(5,6)] by simp
  then show ?thesis using image_reads [OF rs1(1)] image_reads [OF rs2(1)] by (simp add: same_contents_def)
qed

theorem replicas_converge_witness:
  "\<exists>s s'. shard_reach demo_env s [] \<and> offers demo_env [wal_record_upsert (Hlc 5 0) 7 [3] []] s = Some s' \<and> same_contents s' s'"
proof -
  obtain s s' where s: "shard_reach demo_env s []" "upsert_versioned demo_env (Hlc 5 0) 7 [3] [] s = Some (Inr Applied, s')"
      "wal_fits (wal_record_upsert (Hlc 5 0) 7 [3] [])" using demo_shard by blast
  have o: "offers demo_env [wal_record_upsert (Hlc 5 0) 7 [3] []] s = Some s'"
    using s(2) by (simp add: offer_def wal_record_upsert_def)
  have "list_all write_ok [wal_record_upsert (Hlc 5 0) 7 [3] []]"
    using s(3) by (simp add: write_ok_def wal_record_upsert_def)
  with replicas_converge [OF bincode_demo bincode_demo s(1) s(1) refl _ _ _ o o] o s(1) show ?thesis by auto
qed

text \<open>With equal stamps they need not: of two writes of one id with the same stamp each
  replica keeps the one it saw first, and the other is stale for good.\<close>

theorem equal_stamps_diverge:
  assumes "bincode_ok E" "shard_reach E s []" "shard_reach E t []" "sh_dim t = sh_dim s"
    and "write_ok (wal_record_upsert h i v pl)" "write_ok (wal_record_upsert h i w pl)" "v \<noteq> w"
    and "offers E [wal_record_upsert h i v pl, wal_record_upsert h i w pl] s = Some s'"
    and "offers E [wal_record_upsert h i w pl, wal_record_upsert h i v pl] t = Some t'"
  shows "shard_get s' i = Some (Some v) \<and> shard_get t' i = Some (Some w) \<and> shard_version s' i = shard_version t' i"
proof -
  have ok: "list_all write_ok [wal_record_upsert h i v pl, wal_record_upsert h i w pl]"
    "list_all write_ok [wal_record_upsert h i w pl, wal_record_upsert h i v pl]" using assms(5,6) by simp_all
  obtain rs1 where rs1: "shard_inv E rs1 s'" "lww_log rs1 = foldl lww_offer (lww_log []) [wal_record_upsert h i v pl, wal_record_upsert h i w pl]"
    using offers_log [OF assms(1) shard_reach_inv [OF assms(2,1)] _ ok(1) assms(8)] by auto
  obtain rs2 where rs2: "shard_inv E rs2 t'" "lww_log rs2 = foldl lww_offer (lww_log []) [wal_record_upsert h i w pl, wal_record_upsert h i v pl]"
    using offers_log [OF assms(1) shard_reach_inv [OF assms(3,1)] _ ok(2) assms(9)] by auto
  have "lww_log rs1 i = Some (h, Some v)" "lww_log rs2 i = Some (h, Some w)"
    unfolding rs1(2) rs2(2) by (simp_all add: lww_offer_def wal_record_upsert_def rec_value_def)
  then show ?thesis using image_reads [OF rs1(1), of i] image_reads [OF rs2(1), of i] by simp
qed

theorem equal_stamps_diverge_witness:
  "\<exists>s t. shard_get s 7 = Some (Some [3]) \<and> shard_get t 7 = Some (Some [4]) \<and> shard_version s 7 = shard_version t 7"
proof -
  let ?a = "wal_record_upsert (Hlc 5 0) 7 [3] []" and ?b = "wal_record_upsert (Hlc 5 0) 7 [4] []"
  obtain s s' where s: "shard_reach demo_env s []" "sh_dim s = 1" "offers demo_env [?a, ?b] s = Some s'"
    using demo_twice [of 3 4] by blast
  obtain t t' where t: "shard_reach demo_env t []" "sh_dim t = 1" "offers demo_env [?b, ?a] t = Some t'"
    using demo_twice [of 4 3] by blast
  have "write_ok ?a" "write_ok ?b" by (simp_all add: write_ok_def wal_record_upsert_def fits_def rec_ok_def hlc_ok_def)
  from equal_stamps_diverge [OF bincode_demo s(1) t(1) _ this _ s(3) t(3)] s(2) t(2) show ?thesis by auto
qed

text \<open>The record stream of a reachable shard lists every id ever written exactly once, with
  its stamp, its tombstone flag and (for a live id) its vector.\<close>

theorem shard_records_complete:
  assumes "bincode_ok E" "shard_reach E s rs"
  shows "\<exists>rows. shard_records s = Some rows \<and> distinct (map fst rows) \<and>
    (\<forall>i h tomb x. (i, h, tomb, x) \<in> set rows \<longleftrightarrow>
       (\<exists>v. lww_log rs i = Some (h, v) \<and> tomb = (v = None) \<and> x = (case v of None \<Rightarrow> [] | Some x \<Rightarrow> x)))"
  using image_ok_records [OF shard_invD(4) [OF shard_reach_inv [OF assms(2,1)]]] .

theorem shard_records_complete_witness:
  "\<exists>s rows. shard_reach demo_env s [wal_record_upsert (Hlc 5 0) 7 [3] []] \<and> shard_records s = Some rows \<and>
     (7, Hlc 5 0, False, [3]) \<in> set rows"
proof -
  obtain s0 s where s: "shard_reach demo_env s0 []" "upsert_versioned demo_env (Hlc 5 0) 7 [3] [] s0 = Some (Inr Applied, s)"
      "wal_fits (wal_record_upsert (Hlc 5 0) 7 [3] [])" using demo_shard by blast
  have r: "shard_reach demo_env s [wal_record_upsert (Hlc 5 0) 7 [3] []]" using reach_upsert [OF s(1) _ s(3,2)] by simp
  have "lww_log [wal_record_upsert (Hlc 5 0) 7 [3] []] 7 = Some (Hlc 5 0, Some [3])"
    by (simp add: lww_log_def lww_apply_def wal_record_upsert_def rec_value_def)
  with shard_records_complete [OF bincode_demo r] r show ?thesis by auto
qed

text \<open>The unconditional upsert is not last-writer-wins, the replay of its record is: with a
  stamp below the stored one the running shard returns the new vector, and after a restart the
  acknowledged write is gone and the old version is back.\<close>

theorem legacy_upsert_undone_by_replay:
  assumes "bincode_ok E" "shard_reach E s rs" "length rs < 2 ^ 32" "batch_ms (sh_wal s) = 0" "sh_threshold s = 0"
    and "shard_version s i = Some w" "h < pv_hlc w" "wal_fits (wal_record_upsert h i v pl)"
    and "shard_upsert E h i v pl s = Some (Inr (), s')"
  shows "shard_get s' i = Some (Some v) \<and>
    (\<exists>t d. shard_open E (sh_dim s') m mb batch (shard_crash k b s') = Some (Inr t, d) \<and>
       shard_version t i = Some w \<and> shard_get t i = shard_get s i)"
proof -
  let ?r = "wal_record_upsert h i v pl"
  note inv = shard_reach_inv [OF assms(2,1)]
  note D = shard_invD [OF inv] and I = image_okD [OF shard_invD(4) [OF inv]]
  have v: "length v = sh_dim s" using assms(9) by (auto simp: shard_upsert_def split: if_splits)
  from hnsw_insert_ok [OF I(1), of v "e_K E" "e_lv E" i] v I(2,3) assms(3) obtain ix' where
    ix': "hnsw_insert (e_K E) (e_lv E) i v (sh_index s) = Some (Inr (), ix')" "hnsw_inv ix'" "hnsw_points ix' i = Some v"
    by auto
  obtain n wl where wl: "wal_append (e_crc E) ?r (sh_wal s) = (Inr n, wl)"
    using assms(9) v by (auto simp: shard_upsert_def commit_def split: prod.splits sum.splits)
  have s': "s' = s\<lparr>sh_wal := wl, sh_index := ix', sh_versions := AList.update i \<lparr>pv_hlc = h, pv_tombstone = False\<rparr> (sh_versions s)\<rparr>"
    using assms(5,9) v wl ix'(1)
    by (simp add: shard_upsert_def commit_def maybe_snapshot_def on_ok_def Let_def wal_record_upsert_def)
  have old: "lww_log (rs @ [?r]) = lww_log rs"
    using image_reads(1) [OF inv, of i] assms(6,7)
    by (auto simp: lww_log_snoc lww_apply_def wal_record_upsert_def split: option.splits)
  note wi = wal_append_inv [OF D(5) assms(8) wl]
  let ?s = "s\<lparr>sh_wal := wl\<rparr>"
  have "store_ok E (snap_good (e_crc E) (sh_dim s) (rs @ [?r]) (synced (log_file wl))) (sh_snap s)"
    using D(6) by (rule store_ok_mono) (use wi snap_good_mono in blast)
  moreover have "image_ok (sh_dim s) (rs @ [?r]) (sh_index s) (sh_versions s)"
    using D(4) old by (simp add: image_ok_def)
  moreover have "rec_dim (sh_dim s) ?r" using v by (simp add: rec_dim_def wal_record_upsert_def)
  ultimately have inv': "shard_inv E (rs @ [?r]) ?s"
    using D assms(3) wi wal_append_clean [OF wl D(5)] by (simp add: shard_inv_def)
  moreover have "durable (sh_wal ?s)" using wi assms(4) by simp
  ultimately obtain t d where t: "shard_open E (sh_dim ?s) m mb batch (shard_crash k b ?s) = Some (Inr t, d)" "same_contents t ?s"
    using reopen_durable by blast
  have "shard_crash k b ?s = shard_crash k b s'" "sh_dim ?s = sh_dim s'" by (simp_all add: s' shard_crash_def)
  moreover have "shard_get s' i = Some (Some v)" using hnsw_get_vector_ok [OF ix'(2)] ix'(3) by (simp add: s' shard_get_def)
  moreover have "shard_version ?s i = Some w" "shard_get ?s i = shard_get s i"
    using assms(6) by (simp_all add: shard_version_def shard_get_def)
  ultimately show ?thesis using t by (auto simp: same_contents_def)
qed

theorem legacy_upsert_undone_by_replay_witness:
  "\<exists>s s' t d. shard_upsert demo_env (Hlc 4 0) 7 [9] [] s = Some (Inr (), s') \<and> shard_get s' 7 = Some (Some [9]) \<and>
     shard_open demo_env (sh_dim s') L2 0 0 (shard_crash 0 False s') = Some (Inr t, d) \<and> shard_get t 7 = Some (Some [3])"
proof -
  let ?r = "wal_record_upsert (Hlc 5 0) 7 [3] []"
  obtain s0 s where s: "shard_reach demo_env s0 []" "upsert_versioned demo_env (Hlc 5 0) 7 [3] [] s0 = Some (Inr Applied, s)"
      "wal_fits ?r" "batch_ms (sh_wal s0) = 0" "faultless (sh_wal s)" "sh_threshold s = 0" "sh_dim s0 = 1"
    using demo_shard by blast
  have r: "shard_reach demo_env s [?r]" using reach_upsert [OF s(1) _ s(3,2)] by simp
  note c = upsert_versioned_cases [OF bincode_demo shard_reach_inv [OF s(1) bincode_demo] _ s(3,2)]
  have bm: "batch_ms (sh_wal s) = 0" "sh_dim s = 1" "shard_version s 7 = Some \<lparr>pv_hlc = Hlc 5 0, pv_tombstone = False\<rparr>"
    "hnsw_points (sh_index s) 7 = Some [3]"
    using c s(4,7) by (auto simp: shard_version_def)
  note inv = shard_reach_inv [OF r bincode_demo]
  note I = image_okD [OF shard_invD(4) [OF inv]]
  have get: "shard_get s 7 = Some (Some [3])" using hnsw_get_vector_ok [OF I(1)] bm(4) by (simp add: shard_get_def)
  obtain ix where "hnsw_insert (e_K demo_env) (e_lv demo_env) 7 [9] (sh_index s) = Some (Inr (), ix)"
    using hnsw_insert_ok [OF I(1), of "[9]" "e_K demo_env" "e_lv demo_env" 7] I(2,3) bm(2) by auto
  from commit_faultless [where act = "hnsw_insert (e_K demo_env) (e_lv demo_env) 7 [9]", OF s(5,6) this,
      of demo_env "wal_record_upsert (Hlc 4 0) 7 [9] []" False] bm(2)
  obtain s' where s': "shard_upsert demo_env (Hlc 4 0) 7 [9] [] s = Some (Inr (), s')" by (auto simp: shard_upsert_def)
  have "wal_fits (wal_record_upsert (Hlc 4 0) 7 [9] [])" by (simp add: wal_record_upsert_def fits_def rec_ok_def hlc_ok_def)
  from legacy_upsert_undone_by_replay [OF bincode_demo r _ bm(1) s(6) bm(3) _ this s', of L2 0 0 0 False] s' get
  show ?thesis by (auto simp: less_hlc_def)
qed

end
