(* ===== verification/BTree_Map.thy ===== *)
theory BTree_Map
  imports QV_Prelude "HOL-Library.List_Lexorder" "HOL-Library.Product_Lexorder"
begin

text \<open>
  \<open>BTreeMap\<close> and \<open>BTreeSet\<close> of the standard library as the code uses them: a map that is
  iterated in key order is the list of its entries with strictly increasing keys.  Strings are
  their UTF-8 bytes, ordered as Rust orders them (lexicographically by bytes).
\<close>

type_synonym str = bytes

fun bt_insert :: "'k::linorder \<Rightarrow> 'v \<Rightarrow> ('k \<times> 'v) list \<Rightarrow> ('k \<times> 'v) list" where
  "bt_insert k v [] = [(k, v)]"
| "bt_insert k v ((k', v') # m) =
     (if k < k' then (k, v) # (k', v') # m
      else if k = k' then (k, v) # m
      else (k', v') # bt_insert k v m)"

definition bt_retain :: "('k \<Rightarrow> 'v \<Rightarrow> bool) \<Rightarrow> ('k \<times> 'v) list \<Rightarrow> ('k \<times> 'v) list" where
  "bt_retain P m = filter (\<lambda>(k, v). P k v) m"

definition bt_remove :: "'k \<Rightarrow> ('k \<times> 'v) list \<Rightarrow> ('k \<times> 'v) list" where
  "bt_remove k m = bt_retain (\<lambda>k' _. k' \<noteq> k) m"

definition bt_keys :: "('k \<times> 'v) list \<Rightarrow> 'k list" where
  "bt_keys m = map fst m"

definition bt_ok :: "('k::linorder \<times> 'v) list \<Rightarrow> bool" where
  "bt_ok m \<longleftrightarrow> sorted_wrt (<) (bt_keys m)"

lemma bt_ok_Nil [simp]: "bt_ok []"
  by (simp add: bt_ok_def bt_keys_def)

lemma bt_ok_distinct: "bt_ok m \<Longrightarrow> distinct (map fst m)"
  by (metis bt_ok_def bt_keys_def strict_sorted_iff)

lemma fst_bt_insert: "fst ` set (bt_insert k v m) = insert k (fst ` set m)"
  by (induction k v m rule: bt_insert.induct) auto

lemma bt_ok_insert [simp]: "bt_ok m \<Longrightarrow> bt_ok (bt_insert k v m)"
proof (induction k v m rule: bt_insert.induct)
  case (1 k v)
  then show ?case by (simp add: bt_ok_def bt_keys_def)
next
  case (2 k v k' v' m)
  have below: "\<forall>x \<in> fst ` set m. k' < x" and m: "bt_ok m" using "2.prems" by (auto simp: bt_ok_def bt_keys_def)
  show ?case
  proof (cases "k < k' \<or> k = k'")
    case True
    then show ?thesis using "2.prems" below by (auto simp: bt_ok_def bt_keys_def)
  next
    case False
    then have "bt_ok (bt_insert k v m)" "\<forall>x \<in> fst ` set (bt_insert k v m). k' < x"
      using "2.IH" m below fst_bt_insert [of k v m] by auto
    with False show ?thesis by (auto simp: bt_ok_def bt_keys_def)
  qed
qed

lemma map_of_bt_insert [simp]: "map_of (bt_insert k v m) = (map_of m)(k \<mapsto> v)"
  by (induction k v m rule: bt_insert.induct) (auto simp: fun_upd_def fun_eq_iff)

lemma bt_ok_retain [simp]: "bt_ok m \<Longrightarrow> bt_ok (bt_retain P m)"
  by (induction m) (auto simp: bt_ok_def bt_keys_def bt_retain_def)

lemma bt_ok_remove [simp]: "bt_ok m \<Longrightarrow> bt_ok (bt_remove k m)"
  by (simp add: bt_remove_def)

lemma map_of_bt_retain:
  "bt_ok m \<Longrightarrow> map_of (bt_retain P m) k = (case map_of m k of Some v \<Rightarrow> if P k v then Some v else None | None \<Rightarrow> None)"
proof (induction m)
  case Nil
  then show ?case by (simp add: bt_retain_def)
next
  case (Cons e m)
  obtain k' v' where e: "e = (k', v')" by fastforce
  have m: "bt_ok m" "map_of m k' = None"
    using Cons.prems e by (auto simp: bt_ok_def bt_keys_def map_of_eq_None_iff)
  with Cons.IH e show ?case by (auto simp: bt_retain_def split: option.splits)
qed

lemma map_of_bt_remove [simp]: "map_of (bt_remove k m) = (map_of m)(k := None)"
  by (induction m) (auto simp: bt_remove_def bt_retain_def)

lemma bt_keys_sorted: "bt_ok m \<Longrightarrow> sorted_wrt (<) (bt_keys m)"
  by (simp add: bt_ok_def)

lemma bt_keys_iff: "k \<in> set (bt_keys m) \<longleftrightarrow> map_of m k \<noteq> None"
  by (simp add: bt_keys_def map_of_eq_None_iff)

lemma bt_entry: "bt_ok m \<Longrightarrow> (k, v) \<in> set m \<longleftrightarrow> map_of m k = Some v"
  by (rule map_of_eq_alookup [OF bt_ok_distinct])

text \<open>Two maps with the same lookups are the same list.\<close>

lemma bt_ext:
  assumes "bt_ok m" "bt_ok n" "map_of m = map_of n"
  shows "m = n"
  using assms
proof (induction m arbitrary: n)
  case Nil
  then have "map_of n = Map.empty" by simp
  then show ?case by (simp only: map_of_eq_empty_iff)
next
  case (Cons e m)
  obtain k v where e: "e = (k, v)" by fastforce
  obtain k' v' n' where n: "n = (k', v') # n'"
    using Cons.prems(3) e by (cases n) (auto dest: fun_cong [of _ _ k])
  have low: "\<forall>x \<in> fst ` set m. k < x" "\<forall>x \<in> fst ` set n'. k' < x" and ok: "bt_ok m" "bt_ok n'"
    using Cons.prems(1,2) e n by (auto simp: bt_ok_def bt_keys_def)
  have "fst ` set (e # m) = fst ` set n"
    using Cons.prems(3) by (metis dom_map_of_conv_image_fst)
  then have "k' \<in> fst ` set (e # m)" "k \<in> fst ` set n" using e n by auto
  then have "k' = k \<or> k < k'" "k = k' \<or> k' < k" using low e n by auto
  then have k: "k = k'" by auto
  then have "v = v'" using fun_cong [OF Cons.prems(3), of k] e n by simp
  moreover have "map_of m = map_of n'"
  proof
    fix x
    have "map_of m k = None" "map_of n' k = None" using low k by (auto simp: map_of_eq_None_iff)
    then show "map_of m x = map_of n' x" using fun_cong [OF Cons.prems(3), of x] e n k by (cases "x = k") auto
  qed
  ultimately show ?case using Cons.IH [OF ok] e n k by simp
qed

text \<open>A \<open>BTreeSet\<close> is its strictly increasing list of elements.\<close>

fun bs_insert :: "'k::linorder \<Rightarrow> 'k list \<Rightarrow> 'k list" where
  "bs_insert k [] = [k]"
| "bs_insert k (k' # s) = (if k < k' then k # k' # s else if k = k' then k' # s else k' # bs_insert k s)"

lemma set_bs_insert [simp]: "set (bs_insert k s) = insert k (set s)"
  by (induction k s rule: bs_insert.induct) auto

lemma sorted_bs_insert [simp]: "sorted_wrt (<) s \<Longrightarrow> sorted_wrt (<) (bs_insert k s)"
  by (induction k s rule: bs_insert.induct) auto

lemma strict_sorted_distinct: "sorted_wrt (<) (xs :: 'a::linorder list) \<Longrightarrow> distinct xs"
  by (simp add: strict_sorted_iff)

text \<open>\<open>collect\<close> of entries in key order is the map they are the entries of.\<close>

lemma bt_insert_last: "bt_ok (m @ [(k, v)]) \<Longrightarrow> bt_insert k v m = m @ [(k, v)]"
  by (induction m) (auto simp: bt_ok_def bt_keys_def)

lemma bt_collect: "bt_ok (m @ m') \<Longrightarrow> foldl (\<lambda>m (k, v). bt_insert k v m) m m' = m @ m'"
proof (induction m' arbitrary: m)
  case (Cons e m')
  obtain k v where e: "e = (k, v)" by fastforce
  have "bt_ok (m @ [(k, v)])" "bt_ok ((m @ [(k, v)]) @ m')" using Cons.prems e by (simp_all add: bt_ok_def bt_keys_def sorted_wrt_append)
  then show ?case using Cons.IH [of "m @ [(k, v)]"] bt_insert_last [of m k v] e by simp
qed simp

end
