(* ===== verification/Placement.thy ===== *)
theory Placement
  imports BTree_Map
begin

text \<open>
  Two-layer placement (\<open>qv-cluster/src/placement.rs\<close>): a point's shard is a hash of its id,
  a shard's replicas are the first distinct nodes clockwise from the shard's position on a
  consistent-hash ring.  The hash \<open>xxh64\<close> (bytes, seed) is a parameter \<open>X\<close>, about which
  nothing is assumed.

  Node ids are \<open>u64\<close>; a membership set is its strictly increasing list.
\<close>

type_synonym node_id = u64
type_synonym hash_fn = "bytes \<Rightarrow> u64 \<Rightarrow> u64"

definition DEFAULT_VNODES :: nat where
  "DEFAULT_VNODES = 64"

definition RING_SEED :: u64 where
  "RING_SEED = 0"

text \<open>Layer 1.  A remainder by zero panics.\<close>

definition shard_for_id :: "hash_fn \<Rightarrow> u64 \<Rightarrow> u32 \<Rightarrow> u32 option" where
  "shard_for_id X i shard_count =
     (if shard_count = 0 then None
      else Some (of_nat (unat (X (u64_to_le i) RING_SEED) mod unat shard_count)))"

record ring =
  ring_vnodes :: "(u64 \<times> node_id) list"
  ring_node_count :: nat

text \<open>The comparator of \<open>sort_unstable_by\<close>: by position, then node id.\<close>

definition vnode_le :: "u64 \<times> node_id \<Rightarrow> u64 \<times> node_id \<Rightarrow> bool" where
  "vnode_le a b \<longleftrightarrow> fst a < fst b \<or> fst a = fst b \<and> snd a \<le> snd b"

definition vnodes_of :: "hash_fn \<Rightarrow> nat \<Rightarrow> node_id \<Rightarrow> (u64 \<times> node_id) list" where
  "vnodes_of X vnodes node =
     map (\<lambda>vi. (X (u64_to_le node @ u32_to_le (of_nat vi)) RING_SEED, node)) [0..<vnodes]"

definition ring_new :: "hash_fn \<Rightarrow> node_id list \<Rightarrow> nat \<Rightarrow> ring" where
  "ring_new X nodes vnodes =
     \<lparr>ring_vnodes = sort_by vnode_le (concat (map (vnodes_of X vnodes) nodes)),
      ring_node_count = length nodes\<rparr>"

definition home_position :: "hash_fn \<Rightarrow> str \<Rightarrow> u32 \<Rightarrow> u64" where
  "home_position X collection shard_idx = X (collection @ u32_to_le shard_idx) RING_SEED"

text \<open>The first index whose position is not below \<open>home\<close> (\<open>partition_point\<close> on a sorted
  vector).\<close>

definition partition_point :: "u64 \<Rightarrow> (u64 \<times> node_id) list \<Rightarrow> nat" where
  "partition_point home vs = length (takeWhile (\<lambda>(pos, _). pos < home) vs)"

text \<open>The loop over the steps, with its early exit.\<close>

fun walk :: "nat \<Rightarrow> node_id list \<Rightarrow> node_id list \<Rightarrow> node_id list" where
  "walk want [] replicas = replicas"
| "walk want (node # nodes) replicas =
     (if node \<in> set replicas then walk want nodes replicas
      else let replicas = replicas @ [node] in
           if length replicas = want then replicas else walk want nodes replicas)"

definition ring_replicas_for_shard :: "hash_fn \<Rightarrow> ring \<Rightarrow> str \<Rightarrow> u32 \<Rightarrow> u32 \<Rightarrow> node_id list" where
  "ring_replicas_for_shard X rg collection shard_idx replication_n =
     (if ring_vnodes rg = [] then []
      else
        let want = min (unat replication_n) (ring_node_count rg);
            home = home_position X collection shard_idx;
            n = length (ring_vnodes rg);
            start = partition_point home (ring_vnodes rg) mod n
        in walk want (map (\<lambda>step. snd (ring_vnodes rg ! ((start + step) mod n))) [0..<n]) [])"

section \<open>The walk takes the first distinct nodes\<close>

text \<open>Duplicates removed, keeping first occurrences.\<close>

definition nub :: "'a list \<Rightarrow> 'a list" where
  "nub xs = rev (remdups (rev xs))"

lemma nub_Nil [simp]: "nub [] = []"
  by (simp add: nub_def)

lemma nub_snoc [simp]: "nub (xs @ [x]) = (if x \<in> set xs then nub xs else nub xs @ [x])"
  by (simp add: nub_def)

lemma set_nub [simp]: "set (nub xs) = set xs"
  by (simp add: nub_def)

lemma distinct_nub [simp]: "distinct (nub xs)"
  by (simp add: nub_def)

lemma nub_filter: "nub (filter P xs) = filter P (nub xs)"
  by (simp add: nub_def rev_filter remdups_filter)

lemma length_nub: "length (nub xs) = card (set xs)"
  by (simp add: nub_def length_remdups_card_conv)

lemma nub_prefix: "\<exists>zs. nub (xs @ ys) = nub xs @ zs"
proof (induction ys rule: rev_induct)
  case (snoc y ys)
  then obtain zs where "nub (xs @ ys) = nub xs @ zs" by blast
  then have "nub (xs @ ys @ [y]) = nub xs @ zs \<or> nub (xs @ ys @ [y]) = nub xs @ zs @ [y]"
    using nub_snoc [of "xs @ ys" y] by auto
  then show ?case by blast
qed simp

lemma hd_nub: "xs \<noteq> [] \<Longrightarrow> hd (nub xs) = hd xs"
  using nub_prefix [of "[hd xs]" "tl xs"] nub_snoc [of "[]" "hd xs"] by (auto simp: append_eq_Cons_conv)

definition limit :: "nat \<Rightarrow> 'a list \<Rightarrow> 'a list" where
  "limit want xs = (if want = 0 then xs else take want xs)"

lemma walk_limit:
  "want = 0 \<or> length (nub seen) < want \<Longrightarrow> walk want xs (nub seen) = limit want (nub (seen @ xs))"
proof (induction xs arbitrary: seen)
  case Nil
  then show ?case by (auto simp: limit_def)
next
  case (Cons x xs)
  show ?case
  proof (cases "x \<in> set seen")
    case True
    with Cons.IH [of "seen @ [x]"] Cons.prems show ?thesis by simp
  next
    case False
    then have n: "nub (seen @ [x]) = nub seen @ [x]" by simp
    show ?thesis
    proof (cases "length (nub seen) + 1 = want")
      case True
      obtain zs where "nub ((seen @ [x]) @ xs) = nub (seen @ [x]) @ zs" using nub_prefix by blast
      then have "nub (seen @ x # xs) = (nub seen @ [x]) @ zs" "length (nub seen @ [x]) = want" using n True by simp_all
      then have "take want (nub (seen @ x # xs)) = nub seen @ [x]" by (simp del: append_assoc)
      with True False show ?thesis by (simp add: limit_def)
    next
      case ne: False
      with Cons.IH [of "seen @ [x]"] Cons.prems False n show ?thesis by auto
    qed
  qed
qed

lemma walk_nub: "walk want xs [] = limit want (nub xs)"
  using walk_limit [of want "[]" xs] by (cases "want = 0") auto

section \<open>The ring\<close>

lemma vnode_le_total: "total_preorder_on A vnode_le"
  by (auto simp: total_preorder_on_def vnode_le_def)

lemma ring_sorted: "sorted_wrt vnode_le (ring_vnodes (ring_new X nodes v))"
  by (simp add: ring_new_def sorted_sort_by [OF vnode_le_total])

text \<open>Clockwise order from a position on: the nodes at or above it, then those below.\<close>

definition clockwise :: "u64 \<Rightarrow> (u64 \<times> node_id) list \<Rightarrow> node_id list" where
  "clockwise home vs = map snd (filter (\<lambda>e. home \<le> fst e) vs @ filter (\<lambda>e. fst e < home) vs)"

lemma takeWhile_below:
  assumes "sorted_wrt vnode_le vs"
  shows "takeWhile (\<lambda>(pos, _). pos < home) vs = filter (\<lambda>e. fst e < home) vs"
    and "dropWhile (\<lambda>(pos, _). pos < home) vs = filter (\<lambda>e. home \<le> fst e) vs"
proof -
  have "takeWhile (\<lambda>(pos, _). pos < home) vs = filter (\<lambda>e. fst e < home) vs \<and>
      dropWhile (\<lambda>(pos, _). pos < home) vs = filter (\<lambda>e. home \<le> fst e) vs"
    using assms
  proof (induction vs)
    case (Cons e vs)
    show ?case
    proof (cases "fst e < home")
      case True
      with Cons show ?thesis by (auto simp: split_def)
    next
      case False
      then have "\<forall>x \<in> set vs. home \<le> fst x" using Cons.prems by (auto simp: vnode_le_def)
      then have "filter (\<lambda>e. fst e < home) vs = []" "filter (\<lambda>e. home \<le> fst e) vs = vs"
        by (auto simp: filter_empty_conv filter_id_conv)
      with False show ?thesis by (simp add: split_def)
    qed
  qed simp
  then show "takeWhile (\<lambda>(pos, _). pos < home) vs = filter (\<lambda>e. fst e < home) vs"
    "dropWhile (\<lambda>(pos, _). pos < home) vs = filter (\<lambda>e. home \<le> fst e) vs" by blast+
qed

lemma rotate_steps:
  assumes "k \<le> length xs" "xs \<noteq> []"
  shows "map (\<lambda>step. xs ! ((k mod length xs + step) mod length xs)) [0..<length xs] = drop k xs @ take k xs"
proof -
  have "map (\<lambda>step. xs ! ((k mod length xs + step) mod length xs)) [0..<length xs] = rotate (k mod length xs) xs"
    by (rule nth_equalityI) (auto simp: nth_rotate)
  also have "\<dots> = drop k xs @ take k xs"
    using assms by (cases "k = length xs") (auto simp: rotate_drop_take)
  finally show ?thesis .
qed

lemma replicas_clockwise:
  assumes "sorted_wrt vnode_le (ring_vnodes rg)"
  shows "ring_replicas_for_shard X rg c i n =
    limit (min (unat n) (ring_node_count rg)) (nub (clockwise (home_position X c i) (ring_vnodes rg)))"
proof (cases "ring_vnodes rg = []")
  case True
  then show ?thesis by (simp add: ring_replicas_for_shard_def clockwise_def limit_def)
next
  case False
  let ?vs = "ring_vnodes rg" and ?home = "home_position X c i"
  let ?k = "partition_point ?home ?vs"
  have k: "?k \<le> length ?vs" by (simp add: partition_point_def length_takeWhile_le)
  have dt: "drop ?k ?vs = filter (\<lambda>e. ?home \<le> fst e) ?vs" "take ?k ?vs = filter (\<lambda>e. fst e < ?home) ?vs"
    unfolding partition_point_def takeWhile_below [OF assms, of ?home, symmetric]
    by (simp_all only: dropWhile_eq_drop [symmetric] takeWhile_eq_take [symmetric])
  have "map (\<lambda>step. snd (?vs ! ((?k mod length ?vs + step) mod length ?vs))) [0..<length ?vs] = map snd (drop ?k ?vs @ take ?k ?vs)"
    unfolding rotate_steps [OF k False, symmetric] by simp
  then show ?thesis using False by (simp add: ring_replicas_for_shard_def Let_def walk_nub clockwise_def dt)
qed

lemma vnodes_nodes: "snd ` set (ring_vnodes (ring_new X nodes v)) = (if v = 0 then {} else set nodes)"
  by (force simp: ring_new_def vnodes_of_def)

lemma set_clockwise: "set (clockwise home vs) = snd ` set vs"
proof -
  have "set (filter (\<lambda>e. home \<le> fst e) vs) \<union> set (filter (\<lambda>e. fst e < home) vs) = set vs" by auto
  then show ?thesis by (simp add: clockwise_def flip: image_Un)
qed

text \<open>Leaving one node out of the membership leaves its virtual nodes out of the ring.\<close>

lemma sort_by_unique:
  assumes "mset xs = mset ys" "sorted_wrt vnode_le xs" "sorted_wrt vnode_le ys"
  shows "xs = ys"
proof -
  have le: "vnode_le = (\<le>)" by (auto simp: fun_eq_iff vnode_le_def less_eq_prod_def)
  have "sort xs = xs" "sort xs = ys"
    using assms unfolding le by (auto intro: properties_for_sort)
  then show ?thesis by simp
qed

lemma ring_without:
  assumes "distinct nodes"
  shows "filter (\<lambda>e. snd e \<noteq> x) (ring_vnodes (ring_new X nodes v)) = ring_vnodes (ring_new X (filter (\<lambda>n. n \<noteq> x) nodes) v)"
proof (rule sort_by_unique)
  have "filter (\<lambda>e. snd e \<noteq> x) (concat (map (vnodes_of X v) nodes)) = concat (map (vnodes_of X v) (filter (\<lambda>n. n \<noteq> x) nodes))"
    by (induction nodes) (auto simp: vnodes_of_def filter_map comp_def)
  then show "mset (filter (\<lambda>e. snd e \<noteq> x) (ring_vnodes (ring_new X nodes v))) = mset (ring_vnodes (ring_new X (filter (\<lambda>n. n \<noteq> x) nodes) v))"
    by (simp add: ring_new_def) (metis mset_filter)
qed (simp_all add: ring_sorted sorted_wrt_filter)

lemma clockwise_filter: "filter (\<lambda>n. n \<noteq> x) (clockwise home vs) = clockwise home (filter (\<lambda>e. snd e \<noteq> x) vs)"
  by (simp add: clockwise_def filter_map comp_def conj_commute)

text \<open>Cutting a duplicate-free list after \<open>n\<close> elements, with and without one element.\<close>

lemma take_without:
  assumes "distinct ys" "0 < n"
  shows "take n ys = take n (filter (\<lambda>y. y \<noteq> x) ys) \<and> x \<notin> set (take n ys) \<or>
    filter (\<lambda>y. y \<noteq> x) (take n ys) = take (n - 1) (filter (\<lambda>y. y \<noteq> x) ys) \<and> x \<in> set (take n ys)"
proof (cases "x \<in> set ys")
  case False
  then have "filter (\<lambda>y. y \<noteq> x) ys = ys" by (auto simp: filter_id_conv)
  with False show ?thesis by (auto dest: in_set_takeD)
next
  case True
  then obtain as bs where ys: "ys = as @ x # bs" "x \<notin> set as" by (meson split_list_first)
  have "x \<notin> set bs" using assms(1) ys by simp
  then have f: "filter (\<lambda>y. y \<noteq> x) as = as" "filter (\<lambda>y. y \<noteq> x) bs = bs" using ys(2) by (auto simp: filter_id_conv)
  have b: "filter (\<lambda>y. y \<noteq> x) (take k bs) = take k bs" for k using \<open>x \<notin> set bs\<close> by (auto simp: filter_id_conv dest: in_set_takeD)
  show ?thesis
  proof (cases "n \<le> length as")
    case True
    with ys f show ?thesis by (auto dest: in_set_takeD)
  next
    case False
    then obtain k where n: "n = length as + Suc k" by (metis add_Suc_right less_imp_Suc_add not_le)
    with ys f b show ?thesis by simp
  qed
qed

lemma take_change:
  assumes "distinct ys" "0 < n"
  shows "(x \<notin> set (take n ys) \<longrightarrow> take n (filter (\<lambda>y. y \<noteq> x) ys) = take n ys) \<and>
    (x \<in> set (take n ys) \<longrightarrow>
       take (length (take n ys) - 1) (take n (filter (\<lambda>y. y \<noteq> x) ys)) = filter (\<lambda>y. y \<noteq> x) (take n ys) \<and>
       length (take n (filter (\<lambda>y. y \<noteq> x) ys)) \<le> length (take n ys))"
proof (cases "x \<in> set (take n ys)")
  case False
  then show ?thesis using take_without [OF assms, of x] by auto
next
  case True
  let ?zs = "filter (\<lambda>y. y \<noteq> x) ys"
  have eq: "filter (\<lambda>y. y \<noteq> x) (take n ys) = take (n - 1) ?zs" using take_without [OF assms, of x] True by auto
  have "x \<in> set ys" using True by (rule in_set_takeD)
  moreover have "?zs = remove1 x ys"
    using assms(1) by (auto simp: distinct_remove1_removeAll removeAll_filter_not_eq intro: filter_cong)
  ultimately have len: "length ys = Suc (length ?zs)"
    using length_pos_if_in_set [of x ys] by (simp add: length_remove1)
  have "take (length (take n ys) - 1) (take n ?zs) = take (n - 1) ?zs"
    using len assms(2) by (simp add: min_def)
  with True eq len show ?thesis by simp
qed

lemma replicas_take:
  assumes "distinct nodes" "0 < v" "0 < n"
  shows "ring_replicas_for_shard X (ring_new X nodes v) c i n =
      take (unat n) (nub (clockwise (home_position X c i) (ring_vnodes (ring_new X nodes v))))"
    and "set (nub (clockwise (home_position X c i) (ring_vnodes (ring_new X nodes v)))) = set nodes"
    and "length (nub (clockwise (home_position X c i) (ring_vnodes (ring_new X nodes v)))) = length nodes"
proof -
  let ?cw = "nub (clockwise (home_position X c i) (ring_vnodes (ring_new X nodes v)))"
  show set_cw: "set ?cw = set nodes" using vnodes_nodes [of X nodes v] assms(2) by (simp add: set_clockwise)
  then show len: "length ?cw = length nodes" using assms(1) by (metis distinct_card distinct_nub)
  have n: "0 < unat n" using assms(3) by (simp add: unat_gt_0)
  have "ring_replicas_for_shard X (ring_new X nodes v) c i n = limit (min (unat n) (length nodes)) ?cw"
    using replicas_clockwise [OF ring_sorted] by (simp add: ring_new_def)
  also have "\<dots> = take (unat n) ?cw" using n len by (auto simp: limit_def min_def)
  finally show "ring_replicas_for_shard X (ring_new X nodes v) c i n = take (unat n) ?cw" .
qed

section \<open>Properties\<close>

text \<open>A point's shard exists exactly when the collection has shards, and lies below the
  shard count.\<close>

theorem shard_for_id_in_range:
  "(shard_for_id X i k = None \<longleftrightarrow> k = 0) \<and> (\<forall>s. shard_for_id X i k = Some s \<longrightarrow> s < k)"
proof -
  have "of_nat (m mod unat k) < k" if "k \<noteq> 0" for m
  proof -
    have k: "0 < unat k" using that by (simp add: unat_gt_0)
    then have "m mod unat k < unat k" by simp
    moreover from this have "unat (of_nat (m mod unat k) :: u32) = m mod unat k"
      using unsigned_less [of k, where 'a = nat] by (simp add: unat_of_nat)
    ultimately show ?thesis by (simp add: word_less_nat_alt)
  qed
  then show ?thesis by (auto simp: shard_for_id_def)
qed

theorem shard_for_id_in_range_witness:
  "\<exists>s. shard_for_id (\<lambda>b _. of_nat (le_value b)) 10 4 = Some s \<and> s < 4"
  using shard_for_id_in_range [of "\<lambda>b _. of_nat (le_value b)" 10 4] by auto

text \<open>C35. For a membership set, a positive replication factor and at least one virtual node,
  a shard has exactly \<open>min(N, nodes)\<close> replicas, pairwise distinct members, and they are the first
  distinct nodes clockwise from the shard's position (the virtual nodes at or after it, then
  those below it).\<close>

theorem replicas_first_distinct_clockwise:
  assumes "sorted_wrt (<) nodes" "0 < v" "0 < n"
  shows "length (ring_replicas_for_shard X (ring_new X nodes v) c i n) = min (unat n) (length nodes) \<and>
    distinct (ring_replicas_for_shard X (ring_new X nodes v) c i n) \<and>
    set (ring_replicas_for_shard X (ring_new X nodes v) c i n) \<subseteq> set nodes \<and>
    ring_replicas_for_shard X (ring_new X nodes v) c i n =
      take (unat n) (nub (clockwise (home_position X c i) (ring_vnodes (ring_new X nodes v))))"
proof -
  note r = replicas_take [OF strict_sorted_distinct [OF assms(1)] assms(2,3), of X c i]
  have "set (take (unat n) (nub (clockwise (home_position X c i) (ring_vnodes (ring_new X nodes v))))) \<subseteq> set nodes"
    using r(2) by (metis set_take_subset)
  then show ?thesis unfolding r(1) using r(3) by (simp add: min.commute)
qed

theorem replicas_first_distinct_clockwise_witness:
  "length (ring_replicas_for_shard (\<lambda>b _. of_nat (le_value b)) (ring_new (\<lambda>b _. of_nat (le_value b)) [1, 2, 3] 2) [] 0 2) = 2"
proof -
  have "length (ring_replicas_for_shard (\<lambda>b _. of_nat (le_value b)) (ring_new (\<lambda>b _. of_nat (le_value b)) [1, 2, 3] 2) [] 0 2) =
      min (unat (2 :: u32)) (length [1 :: u64, 2, 3])"
    by (rule conjunct1 [OF replicas_first_distinct_clockwise]) simp_all
  then show ?thesis by simp
qed

text \<open>C36. Minimal movement: when a node leaves (or, read backwards, joins) the replicas of a
  shard change only if the node was one of them, and then the others stay, in order, and at most
  one new replica is added at the end.\<close>

theorem membership_change_moves_one_replica:
  assumes "sorted_wrt (<) nodes" "0 < v" "0 < n"
    and "old = ring_replicas_for_shard X (ring_new X nodes v) c i n"
    and "new = ring_replicas_for_shard X (ring_new X (filter (\<lambda>y. y \<noteq> x) nodes) v) c i n"
  shows "(x \<notin> set old \<longrightarrow> new = old) \<and>
    (x \<in> set old \<longrightarrow> take (length old - 1) new = filter (\<lambda>y. y \<noteq> x) old \<and> length new \<le> length old)"
proof -
  let ?cw = "\<lambda>ns. nub (clockwise (home_position X c i) (ring_vnodes (ring_new X ns v)))"
  let ?without = "filter (\<lambda>y. y \<noteq> x)"
  have d: "distinct nodes" by (rule strict_sorted_distinct [OF assms(1)])
  define ys where "ys = ?cw nodes"
  have "?cw (?without nodes) = ?without ys"
    by (simp add: ys_def nub_filter [symmetric] clockwise_filter ring_without [OF d])
  then have new: "new = take (unat n) (?without ys)"
    using replicas_take(1) [of "?without nodes", OF _ assms(2,3)] d assms(5) by simp
  have old: "old = take (unat n) ys" using replicas_take(1) [OF d assms(2,3)] assms(4) by (simp add: ys_def)
  have n: "0 < unat n" using assms(3) by (simp add: unat_gt_0)
  have dy: "distinct ys" by (simp add: ys_def)
  show ?thesis unfolding old new by (rule take_change [OF dy n])
qed

theorem membership_change_moves_one_replica_witness:
  "ring_replicas_for_shard (\<lambda>b _. ucast (hd b)) (ring_new (\<lambda>b _. ucast (hd b)) [1, 2, 3] 2) [] 0 2 = [1, 2] \<and>
   take 1 (ring_replicas_for_shard (\<lambda>b _. ucast (hd b)) (ring_new (\<lambda>b _. ucast (hd b)) [1, 3] 2) [] 0 2) = [1]"
proof -
  let ?X = "\<lambda>b (_ :: u64). ucast (hd b :: byte) :: u64"
  have old: "ring_replicas_for_shard ?X (ring_new ?X [1, 2, 3] 2) [] 0 2 = [1, 2]" by code_simp
  from membership_change_moves_one_replica [of "[1, 2, 3]" 2 2 _ ?X "[]" 0 _ 2, OF _ _ _ refl refl] old
  show ?thesis by simp
qed

end
