(* ===== verification/Meta.thy ===== *)
theory Meta
  imports Placement
begin

text \<open>
  The replicated metadata (\<open>qv-cluster/src/meta.rs\<close>): the node directory, the collection
  schemas and the operational states of shard replicas, changed by requests that the Raft log
  carries, and the shard map derived from them.
\<close>

datatype meta_metric = MetricL2 | MetricCosine

datatype shard_state = Active | Syncing | Dead

record collection_schema =
  cs_dim :: u32
  cs_metric :: meta_metric
  cs_shard_count :: u32
  cs_replication_n :: u32

record shard_assignment =
  sa_collection :: str
  sa_shard_idx :: u32
  sa_node_id :: node_id
  sa_state :: shard_state

datatype meta_request =
    RegisterNode node_id str
  | DeregisterNode node_id
  | CreateCollection str collection_schema
  | DropCollection str
  | SetShardState str u32 node_id shard_state
  | Noop

record meta_response =
  resp_note :: string

record meta_state =
  ms_nodes :: "(node_id \<times> str) list"
  ms_collections :: "(str \<times> collection_schema) list"
  ms_shard_states :: "((str \<times> u32 \<times> node_id) \<times> shard_state) list"

definition meta_default :: meta_state where
  "meta_default = \<lparr>ms_nodes = [], ms_collections = [], ms_shard_states = []\<rparr>"

definition response :: "string \<Rightarrow> meta_response" where
  "response n = \<lparr>resp_note = n\<rparr>"

fun meta_apply :: "meta_request \<Rightarrow> meta_state \<Rightarrow> meta_response \<times> meta_state" where
  "meta_apply (RegisterNode n addr) s =
     (response ''registered'', s\<lparr>ms_nodes := bt_insert n addr (ms_nodes s)\<rparr>)"
| "meta_apply (DeregisterNode n) s =
     (response ''deregistered'',
      s\<lparr>ms_nodes := bt_remove n (ms_nodes s),
        ms_shard_states := bt_retain (\<lambda>(_, _, m) _. m \<noteq> n) (ms_shard_states s)\<rparr>)"
| "meta_apply (CreateCollection name schema) s =
     (if map_of (ms_collections s) name \<noteq> None then (response ''exists'', s)
      else (response ''created'', s\<lparr>ms_collections := bt_insert name schema (ms_collections s)\<rparr>))"
| "meta_apply (DropCollection name) s =
     (let existed = map_of (ms_collections s) name \<noteq> None in
      (response (if existed then ''dropped'' else ''absent''),
       s\<lparr>ms_collections := bt_remove name (ms_collections s),
         ms_shard_states := bt_retain (\<lambda>(c, _, _) _. c \<noteq> name) (ms_shard_states s)\<rparr>))"
| "meta_apply (SetShardState c i n st) s =
     (response ''shard-state-set'',
      if st = Active then s\<lparr>ms_shard_states := bt_remove (c, i, n) (ms_shard_states s)\<rparr>
      else s\<lparr>ms_shard_states := bt_insert (c, i, n) st (ms_shard_states s)\<rparr>)"
| "meta_apply Noop s = (response ''noop'', s)"

definition node_set :: "meta_state \<Rightarrow> node_id list" where
  "node_set s = bt_keys (ms_nodes s)"

definition meta_ring :: "hash_fn \<Rightarrow> meta_state \<Rightarrow> ring" where
  "meta_ring X s = ring_new X (node_set s) DEFAULT_VNODES"

definition shard_state_of :: "meta_state \<Rightarrow> str \<Rightarrow> u32 \<Rightarrow> node_id \<Rightarrow> shard_state" where
  "shard_state_of s c i n = (case map_of (ms_shard_states s) (c, i, n) of Some st \<Rightarrow> st | None \<Rightarrow> Active)"

definition meta_replicas_for_shard :: "hash_fn \<Rightarrow> meta_state \<Rightarrow> str \<Rightarrow> u32 \<Rightarrow> node_id list" where
  "meta_replicas_for_shard X s c i = (case map_of (ms_collections s) c of
     None \<Rightarrow> []
   | Some schema \<Rightarrow> ring_replicas_for_shard X (meta_ring X s) c i (cs_replication_n schema))"

definition shard_map :: "hash_fn \<Rightarrow> meta_state \<Rightarrow> shard_assignment list" where
  "shard_map X s =
     (let rg = meta_ring X s in
      concat (map (\<lambda>(name, schema).
        concat (map (\<lambda>k. let shard_idx = of_nat k in
          map (\<lambda>node_id. \<lparr>sa_collection = name, sa_shard_idx = shard_idx, sa_node_id = node_id,
                          sa_state = shard_state_of s name shard_idx node_id\<rparr>)
            (ring_replicas_for_shard X rg name shard_idx (cs_replication_n schema)))
          [0..<unat (cs_shard_count schema)]))
        (ms_collections s)))"

section \<open>Invariant\<close>

text \<open>The maps are in key order and the overrides never store the default.\<close>

definition meta_inv :: "meta_state \<Rightarrow> bool" where
  "meta_inv s \<longleftrightarrow> bt_ok (ms_nodes s) \<and> bt_ok (ms_collections s) \<and> bt_ok (ms_shard_states s) \<and>
     Active \<notin> ran (map_of (ms_shard_states s))"

lemma meta_invD:
  assumes "meta_inv s"
  shows "bt_ok (ms_nodes s)" "bt_ok (ms_collections s)" "bt_ok (ms_shard_states s)"
    "map_of (ms_shard_states s) k \<noteq> Some Active"
  using assms by (simp_all add: meta_inv_def) (metis ranI)

lemma meta_default_inv: "meta_inv meta_default"
  by (simp add: meta_inv_def meta_default_def)

lemma ran_retain: "bt_ok m \<Longrightarrow> ran (map_of (bt_retain P m)) \<subseteq> ran (map_of m)"
  by (auto simp: ran_def map_of_bt_retain split: option.splits if_splits)

lemma meta_apply_inv: "meta_inv s \<Longrightarrow> meta_inv (snd (meta_apply r s))"
proof (cases r)
  case (DeregisterNode n)
  then show "meta_inv s \<Longrightarrow> ?thesis" using ran_retain [of "ms_shard_states s"] by (auto simp: meta_inv_def)
next
  case (DropCollection c)
  then show "meta_inv s \<Longrightarrow> ?thesis" using ran_retain [of "ms_shard_states s"] by (auto simp: meta_inv_def Let_def)
qed (auto simp: meta_inv_def ran_def)

definition meta_run :: "meta_request list \<Rightarrow> meta_state" where
  "meta_run rs = foldl (\<lambda>s r. snd (meta_apply r s)) meta_default rs"

lemma meta_run_Nil [simp]: "meta_run [] = meta_default"
  by (simp add: meta_run_def)

lemma meta_run_snoc [simp]: "meta_run (rs @ [r]) = snd (meta_apply r (meta_run rs))"
  by (simp add: meta_run_def)

lemma meta_run_inv: "meta_inv (meta_run rs)"
  by (induction rs rule: rev_induct) (simp_all add: meta_default_inv meta_apply_inv)

section \<open>Specification\<close>

text \<open>What the metadata is, abstractly: three total functions.\<close>

record meta_spec =
  spec_addr :: "node_id \<rightharpoonup> str"
  spec_schema :: "str \<rightharpoonup> collection_schema"
  spec_state :: "str \<times> u32 \<times> node_id \<Rightarrow> shard_state"

definition meta_abs :: "meta_state \<Rightarrow> meta_spec" where
  "meta_abs s = \<lparr>spec_addr = map_of (ms_nodes s), spec_schema = map_of (ms_collections s),
     spec_state = (\<lambda>(c, i, n). shard_state_of s c i n)\<rparr>"

fun spec_apply :: "meta_request \<Rightarrow> meta_spec \<Rightarrow> meta_spec" where
  "spec_apply (RegisterNode n a) m = m\<lparr>spec_addr := (spec_addr m)(n \<mapsto> a)\<rparr>"
| "spec_apply (DeregisterNode n) m = m\<lparr>spec_addr := (spec_addr m)(n := None),
     spec_state := (\<lambda>(c, i, k). if k = n then Active else spec_state m (c, i, k))\<rparr>"
| "spec_apply (CreateCollection c sch) m =
     (if spec_schema m c = None then m\<lparr>spec_schema := (spec_schema m)(c \<mapsto> sch)\<rparr> else m)"
| "spec_apply (DropCollection c) m = m\<lparr>spec_schema := (spec_schema m)(c := None),
     spec_state := (\<lambda>(d, i, k). if d = c then Active else spec_state m (d, i, k))\<rparr>"
| "spec_apply (SetShardState c i n st) m = m\<lparr>spec_state := (spec_state m)((c, i, n) := st)\<rparr>"
| "spec_apply Noop m = m"

lemma meta_apply_refines:
  assumes "meta_inv s"
  shows "meta_abs (snd (meta_apply r s)) = spec_apply r (meta_abs s)"
  using meta_invD [OF assms]
  by (cases r) (auto simp: meta_abs_def shard_state_of_def fun_eq_iff map_of_bt_retain Let_def split: option.splits)

section \<open>The shard map\<close>

lemma less_u32_index: "(\<exists>k < unat n. P (of_nat k)) \<longleftrightarrow> (\<exists>i < n. P i)" for n :: u32
proof
  assume "\<exists>k < unat n. P (of_nat k)"
  then obtain k where k: "k < unat n" "P (of_nat k)" by blast
  then have "unat (of_nat k :: u32) = k" using unsigned_less [of n, where 'a = nat] by (simp add: unat_of_nat)
  with k show "\<exists>i < n. P i" by (intro exI [of _ "of_nat k"]) (simp add: word_less_nat_alt)
next
  assume "\<exists>i < n. P i"
  then obtain i where "i < n" "P i" by blast
  then show "\<exists>k < unat n. P (of_nat k)" by (intro exI [of _ "unat i"]) (simp add: word_less_nat_alt)
qed

lemma in_concat_map: "x \<in> set (concat (map f xs)) \<longleftrightarrow> (\<exists>y \<in> set xs. x \<in> set (f y))"
  by simp

lemma shard_map_iff:
  assumes "meta_inv s"
  shows "\<lparr>sa_collection = c, sa_shard_idx = i, sa_node_id = n, sa_state = st\<rparr> \<in> set (shard_map X s) \<longleftrightarrow>
    (\<exists>sch. map_of (ms_collections s) c = Some sch \<and> i < cs_shard_count sch) \<and>
    n \<in> set (meta_replicas_for_shard X s c i) \<and> st = shard_state_of s c i n"
proof -
  let ?reps = "\<lambda>i sch. set (ring_replicas_for_shard X (meta_ring X s) c i (cs_replication_n sch))"
  have "\<lparr>sa_collection = c, sa_shard_idx = i, sa_node_id = n, sa_state = st\<rparr> \<in> set (shard_map X s) \<longleftrightarrow>
      (\<exists>sch. (c, sch) \<in> set (ms_collections s) \<and>
        (\<exists>k < unat (cs_shard_count sch). i = of_nat k \<and> n \<in> ?reps (of_nat k) sch \<and> st = shard_state_of s c (of_nat k) n))"
    unfolding shard_map_def Let_def in_concat_map Bex_def split_paired_Ex prod.case by auto
  also have "\<dots> \<longleftrightarrow> (\<exists>sch. map_of (ms_collections s) c = Some sch \<and>
        (\<exists>j < cs_shard_count sch. i = j \<and> n \<in> ?reps j sch \<and> st = shard_state_of s c j n))"
    unfolding bt_entry [OF meta_invD(2) [OF assms]]
    by (simp only: less_u32_index [where P = "\<lambda>j. i = j \<and> n \<in> ?reps j _ \<and> st = shard_state_of s c j n"])
  finally show ?thesis by (auto simp: meta_replicas_for_shard_def)
qed

lemma replicas_known: "meta_replicas_for_shard X s c i = [] \<or> map_of (ms_collections s) c \<noteq> None"
  by (simp add: meta_replicas_for_shard_def split: option.splits)

lemma meta_replicas_count:
  assumes "meta_inv s" "map_of (ms_collections s) c = Some sch" "0 < cs_replication_n sch"
  shows "length (meta_replicas_for_shard X s c i) = min (unat (cs_replication_n sch)) (length (ms_nodes s))"
    "distinct (meta_replicas_for_shard X s c i)"
    "set (meta_replicas_for_shard X s c i) \<subseteq> dom (map_of (ms_nodes s))"
proof -
  have d: "distinct (node_set s)"
    using bt_ok_distinct [OF meta_invD(1) [OF assms(1)]] by (simp add: node_set_def bt_keys_def)
  note r = replicas_take [OF d, of DEFAULT_VNODES "cs_replication_n sch" X c i]
  have e: "meta_replicas_for_shard X s c i = ring_replicas_for_shard X (ring_new X (node_set s) DEFAULT_VNODES) c i (cs_replication_n sch)"
    by (simp add: meta_replicas_for_shard_def meta_ring_def assms(2))
  have v: "0 < DEFAULT_VNODES" by (simp add: DEFAULT_VNODES_def)
  show "length (meta_replicas_for_shard X s c i) = min (unat (cs_replication_n sch)) (length (ms_nodes s))"
    unfolding e r(1) [OF v assms(3)] using r(3) [OF v assms(3)] by (simp add: node_set_def bt_keys_def min.commute)
  show "distinct (meta_replicas_for_shard X s c i)"
    unfolding e r(1) [OF v assms(3)] by simp
  show "set (meta_replicas_for_shard X s c i) \<subseteq> dom (map_of (ms_nodes s))"
    unfolding e r(1) [OF v assms(3)] using r(2) [OF v assms(3)]
    by (auto simp: node_set_def bt_keys_iff dest!: in_set_takeD)
qed

section \<open>Properties\<close>

text \<open>C23. The metadata reached by any sequence of requests refines its specification: node
  addresses, schemas and replica states are what the requests, read as updates of three total
  functions, say; the stored overrides never contain the default state.\<close>

theorem meta_history_refines_spec:
  "meta_abs (meta_run rs) = foldl (\<lambda>m r. spec_apply r m) (meta_abs meta_default) rs \<and> meta_inv (meta_run rs)"
  by (induction rs rule: rev_induct) (simp_all add: meta_apply_refines meta_run_inv meta_default_inv meta_apply_inv)

text \<open>The derived shard map lists exactly the replicas of the existing shards, each with its
  state; a shard of a collection with a positive replication factor has \<open>min(N, nodes)\<close> of them,
  all registered nodes.\<close>

theorem shard_map_exact:
  "(\<lparr>sa_collection = c, sa_shard_idx = i, sa_node_id = n, sa_state = st\<rparr> \<in> set (shard_map X (meta_run rs)) \<longleftrightarrow>
      (\<exists>sch. map_of (ms_collections (meta_run rs)) c = Some sch \<and> i < cs_shard_count sch) \<and>
      n \<in> set (meta_replicas_for_shard X (meta_run rs) c i) \<and> st = shard_state_of (meta_run rs) c i n) \<and>
   (\<forall>sch. map_of (ms_collections (meta_run rs)) c = Some sch \<longrightarrow> 0 < cs_replication_n sch \<longrightarrow>
      length (meta_replicas_for_shard X (meta_run rs) c i) = min (unat (cs_replication_n sch)) (length (ms_nodes (meta_run rs))) \<and>
      distinct (meta_replicas_for_shard X (meta_run rs) c i) \<and>
      set (meta_replicas_for_shard X (meta_run rs) c i) \<subseteq> dom (map_of (ms_nodes (meta_run rs))))"
  by (intro conjI allI impI; (rule shard_map_iff | rule meta_replicas_count); (assumption | rule meta_run_inv))

definition demo_schema :: collection_schema where
  "demo_schema = \<lparr>cs_dim = 2, cs_metric = MetricL2, cs_shard_count = 4, cs_replication_n = 2\<rparr>"

theorem shard_map_exact_witness:
  "length (meta_replicas_for_shard (\<lambda>_ _. 0) (meta_run [RegisterNode 1 [65], RegisterNode 2 [66], CreateCollection [67] demo_schema]) [67] 0) = 2"
proof -
  let ?s = "meta_run [RegisterNode 1 [65], RegisterNode 2 [66], CreateCollection [67] demo_schema]"
  have s: "map_of (ms_collections ?s) [67] = Some demo_schema" "length (ms_nodes ?s) = 2" "0 < cs_replication_n demo_schema"
    "unat (cs_replication_n demo_schema) = 2"
    by (simp_all add: meta_run_def meta_default_def demo_schema_def)
  from shard_map_exact [of "[67]" 0 1 Active "\<lambda>_ _. 0" "[RegisterNode 1 [65], RegisterNode 2 [66], CreateCollection [67] demo_schema]"] s
  show ?thesis by simp
qed

text \<open>A schema is fixed at creation: from the first \<open>CreateCollection\<close> of a name on, no
  request other than \<open>DropCollection\<close> of that name changes it.\<close>

theorem schema_fixed_at_creation:
  assumes "map_of (ms_collections (meta_run rs)) c = Some sch" "DropCollection c \<notin> set rs'"
  shows "map_of (ms_collections (meta_run (rs @ rs'))) c = Some sch"
  using assms(2)
proof (induction rs' rule: rev_induct)
  case Nil
  then show ?case using assms(1) by simp
next
  case (snoc r rs')
  then have "map_of (ms_collections (meta_run (rs @ rs'))) c = Some sch" "r \<noteq> DropCollection c" by auto
  then show ?case unfolding append_assoc [symmetric] meta_run_snoc by (cases r) (auto simp: Let_def)
qed

theorem schema_fixed_at_creation_witness:
  "map_of (ms_collections (meta_run ([CreateCollection [67] demo_schema] @
     [CreateCollection [67] (demo_schema\<lparr>cs_dim := 9\<rparr>)]))) [67] = Some demo_schema"
  by (rule schema_fixed_at_creation) (simp_all add: meta_run_def meta_default_def)

end
