(* ===== verification/Shard_Store.thy ===== *)
theory Shard_Store
  imports Shard_Props Meta
begin

text \<open>
  A node's durable shards (\<open>qv-node/src/shards.rs\<close>): opened lazily, one per collection and
  shard index, kept in a map.  The model keeps the directory of every shard: opening a shard
  reads it, dropping a shard from the map writes the log's buffer out and leaves the files.

  The map's lock and the shard's mutex make each operation a single step.  A collection name is
  one path component, so that shards have directories of their own (theory \<open>Data_Dir\<close>).
\<close>

record shard_key =
  sk_collection :: str
  sk_shard_idx :: u32

record shard_ref =
  sr_collection :: str
  sr_shard_idx :: u32
  sr_dim :: nat
  sr_metric :: metric

record stored_point =
  sp_id :: u64
  sp_hlc :: hlc
  sp_tombstone :: bool
  sp_vector :: vec
  sp_payload :: bytes

datatype store_error = StShard shard_error | StDim nat nat

definition metric_from_cluster :: "meta_metric \<Rightarrow> metric" where
  "metric_from_cluster m = (case m of MetricL2 \<Rightarrow> L2 | MetricCosine \<Rightarrow> Cosine)"

record shard_store =
  st_snapshot_wal_mb :: nat
  st_wal_batch_ms :: u64
  st_shards :: "shard_key \<rightharpoonup> shard"
  st_dirs :: "shard_key \<Rightarrow> shard_disk"

definition shard_store_new :: "nat \<Rightarrow> u64 \<Rightarrow> (shard_key \<Rightarrow> shard_disk) \<Rightarrow> shard_store" where
  "shard_store_new mb batch dirs =
     \<lparr>st_snapshot_wal_mb = mb, st_wal_batch_ms = batch, st_shards = Map.empty, st_dirs = dirs\<rparr>"

definition key_of :: "shard_ref \<Rightarrow> shard_key" where
  "key_of r = \<lparr>sk_collection = sr_collection r, sk_shard_idx = sr_shard_idx r\<rparr>"

text \<open>The second look-up under the write lock finds what the first did.\<close>

definition get_or_open ::
  "env \<Rightarrow> str \<Rightarrow> u32 \<Rightarrow> nat \<Rightarrow> metric \<Rightarrow> shard_store \<Rightarrow> ((store_error + shard) \<times> shard_store) option" where
  "get_or_open E c i dim m st =
     (let key = \<lparr>sk_collection = c, sk_shard_idx = i\<rparr> in
      case st_shards st key of
        Some s \<Rightarrow> Some (Inr s, st)
      | None \<Rightarrow>
          (case shard_open E dim m (st_snapshot_wal_mb st) (st_wal_batch_ms st) (st_dirs st key) of
             None \<Rightarrow> None
           | Some (Inl e, d) \<Rightarrow> Some (Inl (StShard e), st\<lparr>st_dirs := (st_dirs st)(key := d)\<rparr>)
           | Some (Inr s, d) \<Rightarrow>
               Some (Inr s, st\<lparr>st_dirs := (st_dirs st)(key := d), st_shards := (st_shards st)(key \<mapsto> s)\<rparr>)))"

text \<open>Open the shard, lock it, run an operation on it.\<close>

definition with_shard ::
  "env \<Rightarrow> shard_ref \<Rightarrow> (shard \<Rightarrow> ((shard_error + 'a) \<times> shard) option) \<Rightarrow> shard_store \<Rightarrow>
   ((store_error + 'a) \<times> shard_store) option" where
  "with_shard E r act st =
     (case get_or_open E (sr_collection r) (sr_shard_idx r) (sr_dim r) (sr_metric r) st of
        None \<Rightarrow> None
      | Some (Inl e, st) \<Rightarrow> Some (Inl e, st)
      | Some (Inr s, st) \<Rightarrow>
          (case act s of
             None \<Rightarrow> None
           | Some (Inl e, s) \<Rightarrow> Some (Inl (StShard e), st\<lparr>st_shards := (st_shards st)(key_of r \<mapsto> s)\<rparr>)
           | Some (Inr a, s) \<Rightarrow> Some (Inr a, st\<lparr>st_shards := (st_shards st)(key_of r \<mapsto> s)\<rparr>)))"

text \<open>A read does not change the shard.\<close>

definition reading :: "(shard \<Rightarrow> 'a option) \<Rightarrow> shard \<Rightarrow> ((shard_error + 'a) \<times> shard) option" where
  "reading f s = map_option (\<lambda>a. (Inr a, s)) (f s)"

definition has_shard :: "str \<Rightarrow> u32 \<Rightarrow> shard_store \<Rightarrow> bool" where
  "has_shard c i st \<longleftrightarrow> st_shards st \<lparr>sk_collection = c, sk_shard_idx = i\<rparr> \<noteq> None"

definition store_records ::
  "env \<Rightarrow> shard_ref \<Rightarrow> shard_store \<Rightarrow> ((store_error + (u64 \<times> hlc \<times> bool \<times> vec) list) \<times> shard_store) option" where
  "store_records E r st = with_shard E r (reading shard_records) st"

definition store_shard_len :: "env \<Rightarrow> shard_ref \<Rightarrow> shard_store \<Rightarrow> ((store_error + nat) \<times> shard_store) option" where
  "store_shard_len E r st = with_shard E r (reading (\<lambda>s. Some (shard_len s))) st"

text \<open>What is on disk once a shard is dropped: the log flushes (\<open>Drop for Wal\<close>), the snapshot
  files stay.\<close>

definition shard_close :: "shard \<Rightarrow> shard_disk" where
  "shard_close s = \<lparr>sd_wal = log_drop (sh_wal s), sd_snap = sh_snap s\<rparr>"

definition close_where :: "(shard_key \<Rightarrow> bool) \<Rightarrow> shard_store \<Rightarrow> shard_store" where
  "close_where P st = st\<lparr>
     st_shards := (\<lambda>k. if P k then None else st_shards st k),
     st_dirs := (\<lambda>k. if P k then (case st_shards st k of Some s \<Rightarrow> shard_close s | None \<Rightarrow> st_dirs st k) else st_dirs st k)\<rparr>"

definition drop_shard :: "str \<Rightarrow> u32 \<Rightarrow> shard_store \<Rightarrow> shard_store" where
  "drop_shard c i st = close_where (\<lambda>k. k = \<lparr>sk_collection = c, sk_shard_idx = i\<rparr>) st"

definition store_upsert ::
  "env \<Rightarrow> shard_ref \<Rightarrow> hlc \<Rightarrow> u64 \<Rightarrow> vec \<Rightarrow> bytes \<Rightarrow> shard_store \<Rightarrow> ((store_error + write_outcome) \<times> shard_store) option" where
  "store_upsert E r h i v pl st =
     (if length v \<noteq> sr_dim r then Some (Inl (StDim (sr_dim r) (length v)), st)
      else with_shard E r (upsert_versioned E h i v pl) st)"

definition store_delete ::
  "env \<Rightarrow> shard_ref \<Rightarrow> hlc \<Rightarrow> u64 \<Rightarrow> shard_store \<Rightarrow> ((store_error + write_outcome) \<times> shard_store) option" where
  "store_delete E r h i st = with_shard E r (delete_versioned E h i) st"

definition store_get :: "env \<Rightarrow> shard_ref \<Rightarrow> u64 \<Rightarrow> shard_store \<Rightarrow> ((store_error + vec option) \<times> shard_store) option" where
  "store_get E r i st = with_shard E r (reading (\<lambda>s. shard_get s i)) st"

definition versioned_point :: "u64 \<Rightarrow> shard \<Rightarrow> stored_point option option" where
  "versioned_point i s =
     (case shard_version s i of
        None \<Rightarrow> Some None
      | Some pv \<Rightarrow>
          map_option (\<lambda>v. Some \<lparr>sp_id = i, sp_hlc = pv_hlc pv, sp_tombstone = pv_tombstone pv, sp_vector = v, sp_payload = []\<rparr>)
            (if pv_tombstone pv then Some []
             else map_option (\<lambda>got. case got of Some v \<Rightarrow> v | None \<Rightarrow> []) (shard_get s i)))"

definition get_versioned ::
  "env \<Rightarrow> shard_ref \<Rightarrow> u64 \<Rightarrow> shard_store \<Rightarrow> ((store_error + stored_point option) \<times> shard_store) option" where
  "get_versioned E r i st = with_shard E r (reading (versioned_point i)) st"

definition search_shard ::
  "env \<Rightarrow> shard_ref \<Rightarrow> vec \<Rightarrow> nat \<Rightarrow> nat \<Rightarrow> shard_store \<Rightarrow> ((store_error + (u64 \<times> f32) list) \<times> shard_store) option" where
  "search_shard E r q k ef st = with_shard E r (\<lambda>s. map_option (\<lambda>res. (res, s)) (shard_search E s q k ef)) st"

definition store_drop_collection :: "str \<Rightarrow> shard_store \<Rightarrow> shard_store" where
  "store_drop_collection c st = close_where (\<lambda>k. sk_collection k = c) st"

text \<open>A power failure of the node: for every shard some part of its unsynced bytes and one of its
  snapshot names survive; the map is empty again.\<close>

definition disk_crash :: "nat \<Rightarrow> bool \<Rightarrow> shard_disk \<Rightarrow> shard_disk" where
  "disk_crash k b d = \<lparr>sd_wal = crash k (sd_wal d), sd_snap = af_crash b (sd_snap d)\<rparr>"

definition store_crash :: "(shard_key \<Rightarrow> nat) \<Rightarrow> (shard_key \<Rightarrow> bool) \<Rightarrow> shard_store \<Rightarrow> shard_store" where
  "store_crash ks bs st = st\<lparr>st_shards := Map.empty,
     st_dirs := (\<lambda>k. case st_shards st k of Some s \<Rightarrow> shard_crash (ks k) (bs k) s | None \<Rightarrow> disk_crash (ks k) (bs k) (st_dirs st k))\<rparr>"

section \<open>Closed directories\<close>

definition dir_inv :: "env \<Rightarrow> nat \<Rightarrow> wal_record list \<Rightarrow> shard_disk \<Rightarrow> bool" where
  "dir_inv E dim rs d \<longleftrightarrow>
     length rs \<le> 2 ^ 32 \<and> list_all (rec_dim dim) rs \<and> list_all wal_fits rs \<and>
     contents (sd_wal d) = wal_log (e_crc E) rs \<and> synced (sd_wal d) = length (contents (sd_wal d)) \<and>
     (\<not> present (sd_wal d) \<longrightarrow> contents (sd_wal d) = []) \<and>
     store_ok E (snap_good (e_crc E) dim rs (length (contents (sd_wal d)))) (sd_snap d)"

lemma durable_log_drop:
  assumes "durable w"
  shows "contents (log_drop w) = log_bytes w \<and> synced (log_drop w) = length (log_bytes w) \<and> present (log_drop w) = present (log_file w)"
proof -
  have d: "buf (writer w) = []" "synced (log_file w) = length (contents (log_file w))" using assms by (simp_all add: durable_def)
  show ?thesis
  proof (cases "dirty w")
    case False
    with d show ?thesis by (simp add: log_drop_def log_flush_def flush_buf_def logical_def)
  next
    case True
    obtain q bw where q: "buf_sync (writer w) = (q, bw)" by fastforce
    note c = buf_sync_cases [OF q]
    have "flush_buf (writer w) = (Inr (), writer w)" "flush_buf bw = (Inr (), bw)" using d c by (simp_all add: flush_buf_def)
    with True q c d show ?thesis by (cases q) (auto simp: log_drop_def log_flush_def on_writer_def logical_def)
  qed
qed

lemma shard_close_inv:
  assumes "shard_inv E rs s" "durable (sh_wal s)" "sh_dim s = dim"
  shows "dir_inv E dim rs (shard_close s)"
proof -
  note D = shard_invD [OF assms(1)]
  have w: "log_bytes (sh_wal s) = wal_log (e_crc E) rs" "present (log_file (sh_wal s))" "list_all wal_fits rs"
    using D(5) by (simp_all add: wal_inv_def)
  have "synced (log_file (sh_wal s)) = length (wal_log (e_crc E) rs)"
    using assms(2) w(1) by (simp add: durable_def logical_def)
  with D w assms(3) durable_log_drop [OF assms(2)] show ?thesis by (simp add: dir_inv_def shard_close_def)
qed

lemma shard_crash_dir:
  assumes "shard_inv E rs s" "durable (sh_wal s)" "sh_dim s = dim"
  shows "dir_inv E dim rs (shard_crash k b s)"
proof -
  note D = shard_invD [OF assms(1)]
  have w: "log_bytes (sh_wal s) = wal_log (e_crc E) rs" "present (log_file (sh_wal s))" "list_all wal_fits rs"
    using D(5) by (simp_all add: wal_inv_def)
  have c: "contents (crash k (log_file (sh_wal s))) = wal_log (e_crc E) rs" using crash_durable [OF assms(2)] w(1) by simp
  have "synced (log_file (sh_wal s)) = length (wal_log (e_crc E) rs)" using assms(2) w(1) by (simp add: durable_def logical_def)
  moreover have "synced (crash k (log_file (sh_wal s))) = length (contents (crash k (log_file (sh_wal s))))"
      "present (crash k (log_file (sh_wal s)))" using w(2) by (simp_all add: crash_def Let_def)
  ultimately show ?thesis using D w(3) assms(3) c af_crash_ok [OF D(6), of b] by (simp add: dir_inv_def shard_crash_def)
qed

lemma disk_crash_dir: "dir_inv E dim rs d \<Longrightarrow> dir_inv E dim rs (disk_crash k b d)"
  using af_crash_ok [of E _ "sd_snap d" b] by (auto simp: dir_inv_def disk_crash_def crash_def Let_def)

section \<open>Opening a closed directory\<close>

text \<open>Recovering a complete log under any faults never truncates it.\<close>

lemma wal_recover_complete:
  assumes "wal_recover crc f = (r, f')" "contents f = wal_log crc rs" "list_all wal_fits rs" "\<not> present f \<longrightarrow> contents f = []"
  shows "contents f' = contents f \<and> synced f' = synced f \<and> present f' = present f \<and>
    (\<forall>x. r = Inr x \<longrightarrow> x = (rs, length (wal_log crc rs)))"
proof (cases "present f")
  case False
  then have "rs = []" using assms(2,4) by (cases rs) (auto simp flip: length_0_conv)
  with False show ?thesis using assms(1) by (auto simp: wal_recover_def)
next
  case True
  have scan: "scan_frames crc decode_body (wal_log crc rs) 0 [] 0 = (rs, length (wal_log crc rs))"
    using wal_codec.scan_log [OF assms(3), of crc "[]"] by simp
  obtain q1 f1 where q1: "sys_call f = (q1, f1)" by fastforce
  obtain q2 f2 where q2: "sys_call f1 = (q2, f2)" by fastforce
  obtain q3 f3 where q3: "sys_call f2 = (q3, f3)" by fastforce
  obtain q4 f4 where q4: "sys_call f3 = (q4, f4)" by fastforce
  note k = sys_call_keeps [OF q1] sys_call_keeps [OF q2] sys_call_keeps [OF q3] sys_call_keeps [OF q4]
  show ?thesis using assms(1,2) True q1 q2 q3 q4 k scan
    by (cases q1; cases q2; cases q3; cases q4) (auto simp: wal_recover_def Let_def)
qed

lemma wal_open_keeps:
  assumes "wal_open f b = (r, f')"
  shows "contents f' = contents f \<and> synced f' = synced f \<and> (present f' \<or> contents f' = contents f) \<and>
    (present f \<longrightarrow> present f') \<and>
    (\<forall>w. r = Inr w \<longrightarrow> buf (writer w) = [] \<and> \<not> dirty w \<and> wal_len w = length (contents f) \<and> batch_ms w = b \<and>
       contents (log_file w) = contents f \<and> synced (log_file w) = synced f \<and> present (log_file w))"
proof -
  obtain q1 f1 where q1: "sys_call f = (q1, f1)" by fastforce
  obtain q2 f2 where q2: "sys_call (f1\<lparr>present := True\<rparr>) = (q2, f2)" by fastforce
  show ?thesis using assms q1 q2 sys_call_keeps [OF q1] sys_call_keeps [OF q2]
    by (cases q1; cases q2) (auto simp: wal_open_def sys_open_create_def buf_new_def)
qed

lemma snapshot_load_keeps:
  assumes "snapshot_load E ss = (r, ss')" "store_ok E P ss"
  shows "store_ok E P ss'"
proof (cases "present (af_file ss)")
  case True
  obtain q f where q: "sys_call (af_file ss) = (q, f)" by fastforce
  show ?thesis using assms True q sys_call_keeps [OF q]
    by (cases q) (auto simp: snapshot_load_def store_ok_def af_holds_def slot_holds_def split: sum.splits)
qed (use assms in \<open>auto simp: snapshot_load_def\<close>)

lemma store_ok_dir [simp]: "store_ok E P (ss\<lparr>af_dir := x\<rparr>) = store_ok E P ss"
  by (simp add: store_ok_def af_holds_def)

definition open_result :: "env \<Rightarrow> nat \<Rightarrow> u64 \<Rightarrow> wal_record list \<Rightarrow> (shard_error + shard) \<times> shard_disk \<Rightarrow> bool" where
  "open_result E dim batch rs x \<longleftrightarrow> (case x of
     (Inl _, d) \<Rightarrow> dir_inv E dim rs d
   | (Inr s, d) \<Rightarrow> shard_inv E rs s \<and> durable (sh_wal s) \<and> sh_dim s = dim \<and> batch_ms (sh_wal s) = batch)"

lemma shard_open_dir:
  assumes "0 < dim" "dir_inv E dim rs d"
  shows "\<exists>x. shard_open E dim m mb batch d = Some x \<and> open_result E dim batch rs x"
proof -
  let ?crc = "e_crc E" and ?P = "snap_good (e_crc E) dim rs (length (contents (sd_wal d)))"
  have I: "length rs \<le> 2 ^ 32" "list_all (rec_dim dim) rs" "list_all wal_fits rs" "contents (sd_wal d) = wal_log ?crc rs"
    "synced (sd_wal d) = length (contents (sd_wal d))" "\<not> present (sd_wal d) \<longrightarrow> contents (sd_wal d) = []" "store_ok E ?P (sd_snap d)"
    using assms(2) unfolding dir_inv_def by blast+
  have keep: "dir_inv E dim rs \<lparr>sd_wal = f, sd_snap = ss\<rparr>"
    if "contents f = contents (sd_wal d)" "synced f = synced (sd_wal d)" "present (sd_wal d) \<longrightarrow> present f" "store_ok E ?P ss" for f ss
    using that I by (auto simp: dir_inv_def)
  obtain q1 d1 where q1: "sys_call (af_dir (sd_snap d)) = (q1, d1)" by fastforce
  obtain q2 s2 where q2: "snapshot_load E ((sd_snap d)\<lparr>af_dir := d1\<rparr>) = (q2, s2)" by fastforce
  obtain q3 f3 where q3: "wal_recover ?crc (sd_wal d) = (q3, f3)" by fastforce
  obtain q4 f4 where q4: "wal_open f3 batch = (q4, f4)" by fastforce
  have s2: "store_ok E ?P s2" using snapshot_load_keeps [OF q2] I(7) by simp
  note f3 = wal_recover_complete [OF q3 I(4,3,6)] and f4 = wal_open_keeps [OF q4]
  show ?thesis
  proof (cases q1)
    case (Inl e)
    then show ?thesis using q1 keep [of "sd_wal d"] I(7) by (cases d) (simp add: shard_open_def open_result_def)
  next
    case r1: (Inr u1)
    show ?thesis
    proof (cases q2)
      case (Inl e)
      then show ?thesis using q1 r1 q2 keep [of "sd_wal d"] s2 by (cases d) (simp add: shard_open_def open_result_def)
    next
      case r2: (Inr snap)
      have "\<forall>sn. snap = Some sn \<longrightarrow> ?P sn" using snapshot_load_Inr [OF q2 [unfolded r2], of ?P] I(7) by simp
      from replay_from_snapshot [OF assms(1) this I(2,1)] obtain ix vs off ix' vs' where
        im: "initial_image dim m snap = Some (ix, vs, off)" "replay E off 0 rs (ix, vs) = Some (Inr (), ix', vs')"
          "image_ok dim rs ix' vs'" by blast
      show ?thesis
      proof (cases q3)
        case (Inl e)
        then show ?thesis using q1 r1 q2 r2 im(1) q3 f3 s2 keep [of f3 s2] by (simp add: shard_open_def open_result_def)
      next
        case r3: (Inr x)
        then have x: "x = (rs, length (wal_log ?crc rs))" using f3 by blast
        show ?thesis
        proof (cases q4)
          case (Inl e)
          have "dir_inv E dim rs \<lparr>sd_wal = f4, sd_snap = s2\<rparr>" by (rule keep) (use f3 f4 s2 in auto)
          with Inl show ?thesis using q1 r1 q2 r2 im q3 r3 x q4 by (simp add: shard_open_def open_result_def)
        next
          case r4: (Inr w)
          let ?s = "\<lparr>sh_dim = dim, sh_metric = m, sh_index = ix', sh_versions = vs', sh_wal = w,
             sh_threshold = saturating_mb mb, sh_last_snapshot = off, sh_snap = s2\<rparr>"
          have "wal_inv ?crc rs w" "durable w" "batch_ms w = batch" "synced (log_file w) = length (contents (sd_wal d))"
            using f3 f4 r4 I(3,4,5) by (simp_all add: wal_inv_def durable_def logical_def)
          then have "shard_inv E rs ?s" using assms(1) I(1,2) im(3) s2 by (simp add: shard_inv_def)
          then show ?thesis using q1 r1 q2 r2 im q3 r3 x q4 r4 \<open>durable w\<close> \<open>batch_ms w = batch\<close>
            by (simp add: shard_open_def open_result_def)
        qed
      qed
    qed
  qed
qed

section \<open>The invariant of a store\<close>

text \<open>\<open>L\<close> is the log of every shard, \<open>D\<close> its dimension; every write is fsynced
  (\<open>wal_batch_ms = 0\<close>).\<close>

definition key_inv :: "env \<Rightarrow> nat \<Rightarrow> wal_record list \<Rightarrow> shard option \<Rightarrow> shard_disk \<Rightarrow> bool" where
  "key_inv E dim rs so d \<longleftrightarrow> 0 < dim \<and> (case so of
     Some s \<Rightarrow> shard_inv E rs s \<and> durable (sh_wal s) \<and> sh_dim s = dim \<and> batch_ms (sh_wal s) = 0
   | None \<Rightarrow> dir_inv E dim rs d)"

definition store_inv :: "env \<Rightarrow> (shard_key \<Rightarrow> nat) \<Rightarrow> (shard_key \<Rightarrow> wal_record list) \<Rightarrow> shard_store \<Rightarrow> bool" where
  "store_inv E D L st \<longleftrightarrow> st_wal_batch_ms st = 0 \<and> (\<forall>k. key_inv E (D k) (L k) (st_shards st k) (st_dirs st k))"

lemma get_or_open_inv:
  assumes "store_inv E D L st" "k = \<lparr>sk_collection = c, sk_shard_idx = i\<rparr>" "dim = D k"
  shows "\<exists>r st'. get_or_open E c i dim m st = Some (r, st') \<and> store_inv E D L st' \<and>
    (\<forall>s. r = Inr s \<longrightarrow> st_shards st' k = Some s)"
proof (cases "st_shards st k")
  case (Some s)
  then show ?thesis using assms by (simp add: get_or_open_def)
next
  case None
  have all: "\<And>j. key_inv E (D j) (L j) (st_shards st j) (st_dirs st j)" using assms(1) by (simp add: store_inv_def)
  have I: "0 < D k" "dir_inv E (D k) (L k) (st_dirs st k)" "st_wal_batch_ms st = 0"
    using all [of k] None assms(1) by (simp_all add: key_inv_def store_inv_def)
  obtain x where x: "shard_open E (D k) m (st_snapshot_wal_mb st) (st_wal_batch_ms st) (st_dirs st k) = Some x"
      "open_result E (D k) (st_wal_batch_ms st) (L k) x"
    using shard_open_dir [OF I(1,2)] by blast
  obtain q d where q: "x = (q, d)" by fastforce
  show ?thesis
  proof (cases q)
    case (Inl e)
    have "key_inv E (D k) (L k) None d" using x(2) q Inl I(1) by (simp add: open_result_def key_inv_def)
    then have "store_inv E D L (st\<lparr>st_dirs := (st_dirs st)(k := d)\<rparr>)"
      using all I(3) None by (simp add: store_inv_def)
    then show ?thesis using None x(1) q Inl assms(2,3) by (simp add: get_or_open_def Let_def)
  next
    case (Inr s)
    have "key_inv E (D k) (L k) (Some s) d" using x(2) q Inr I by (simp add: open_result_def key_inv_def)
    then have "store_inv E D L (st\<lparr>st_dirs := (st_dirs st)(k := d), st_shards := (st_shards st)(k \<mapsto> s)\<rparr>)"
      using all I(3) by (simp add: store_inv_def)
    then show ?thesis using None x(1) q Inr assms(2,3) by (simp add: get_or_open_def Let_def)
  qed
qed

text \<open>An operation on the shard of a reference, for a log \<open>rs'\<close> that extends its log.\<close>

lemma with_shard_inv:
  assumes "store_inv E D L st" "sr_dim r = D (key_of r)" "with_shard E r act st = Some (Inr a, st')"
    and step: "\<And>s s'. shard_inv E (L (key_of r)) s \<Longrightarrow> durable (sh_wal s) \<Longrightarrow> batch_ms (sh_wal s) = 0 \<Longrightarrow> sh_dim s = D (key_of r) \<Longrightarrow>
      act s = Some (Inr a, s') \<Longrightarrow>
      shard_inv E rs' s' \<and> durable (sh_wal s') \<and> batch_ms (sh_wal s') = 0 \<and> sh_dim s' = sh_dim s \<and> Q s"
  shows "store_inv E D (L(key_of r := rs')) st' \<and> (\<exists>s. shard_inv E (L (key_of r)) s \<and> Q s)"
proof -
  have k: "key_of r = \<lparr>sk_collection = sr_collection r, sk_shard_idx = sr_shard_idx r\<rparr>" by (simp add: key_of_def)
  from get_or_open_inv [OF assms(1) k assms(2), of "sr_metric r"] obtain q st1 where
    o: "get_or_open E (sr_collection r) (sr_shard_idx r) (sr_dim r) (sr_metric r) st = Some (q, st1)" "store_inv E D L st1"
      "\<forall>s. q = Inr s \<longrightarrow> st_shards st1 (key_of r) = Some s" by blast
  obtain s s' where s: "q = Inr s" "act s = Some (Inr a, s')" "st' = st1\<lparr>st_shards := (st_shards st1)(key_of r \<mapsto> s')\<rparr>"
    using assms(3) o(1) by (auto simp: with_shard_def split: sum.splits option.splits prod.splits)
  have all: "\<And>j. key_inv E (D j) (L j) (st_shards st1 j) (st_dirs st1 j)" using o(2) by (simp add: store_inv_def)
  have I: "0 < D (key_of r)" "shard_inv E (L (key_of r)) s" "durable (sh_wal s)" "sh_dim s = D (key_of r)" "batch_ms (sh_wal s) = 0"
    using all [of "key_of r"] o(3) s(1) by (simp_all add: key_inv_def)
  note t = step [OF I(2,3,5,4) s(2)]
  have "key_inv E (D (key_of r)) rs' (Some s') d" for d using t I by (simp add: key_inv_def)
  then show ?thesis using all o(2) t I(2) unfolding s(3) by (auto simp: store_inv_def)
qed

lemma store_upsert_inv:
  assumes "bincode_ok E" "store_inv E D L st" "sr_dim r = D (key_of r)" "store_upsert E r h i v pl st = Some (Inr oc, st')"
    and "length (L (key_of r)) < 2 ^ 32" "wal_fits (wal_record_upsert h i v pl)"
  shows "store_inv E D (L(key_of r := if oc = Applied then L (key_of r) @ [wal_record_upsert h i v pl] else L (key_of r))) st' \<and>
    (oc = Stale \<longleftrightarrow> (\<exists>g u. lww_log (L (key_of r)) i = Some (g, u) \<and> h \<le> g))"
proof -
  let ?k = "key_of r" and ?r = "wal_record_upsert h i v pl"
  have w: "with_shard E r (upsert_versioned E h i v pl) st = Some (Inr oc, st')"
    using assms(4) by (auto simp: store_upsert_def split: if_splits)
  have "shard_inv E (if oc = Applied then L ?k @ [?r] else L ?k) s' \<and> durable (sh_wal s') \<and> batch_ms (sh_wal s') = 0 \<and>
      sh_dim s' = sh_dim s \<and> (oc = Stale \<longleftrightarrow> is_stale s i h)"
    if "shard_inv E (L ?k) s" "durable (sh_wal s)" "batch_ms (sh_wal s) = 0" "upsert_versioned E h i v pl s = Some (Inr oc, s')" for s s'
    using upsert_versioned_cases [OF assms(1) that(1) assms(5,6) that(4)] that by auto
  then have "store_inv E D (L(?k := if oc = Applied then L ?k @ [?r] else L ?k)) st' \<and>
      (\<exists>s. shard_inv E (L ?k) s \<and> (oc = Stale \<longleftrightarrow> is_stale s i h))"
    by (intro with_shard_inv [OF assms(2,3) w]) blast
  moreover have "is_stale s i h \<longleftrightarrow> (\<exists>g u. lww_log (L ?k) i = Some (g, u) \<and> h \<le> g)" if "shard_inv E (L ?k) s" for s
    using stale_image [where i = i and P = "\<lambda>g. h \<le> g", OF shard_invD(4) [OF that]] by (auto simp: is_stale_def split: option.splits)
  ultimately show ?thesis by blast
qed

lemma store_delete_inv:
  assumes "bincode_ok E" "store_inv E D L st" "sr_dim r = D (key_of r)" "store_delete E r h i st = Some (Inr oc, st')"
    and "length (L (key_of r)) < 2 ^ 32" "wal_fits (wal_record_delete h i)"
  shows "store_inv E D (L(key_of r := if oc = Applied then L (key_of r) @ [wal_record_delete h i] else L (key_of r))) st' \<and>
    (oc = Stale \<longleftrightarrow> (\<exists>g u. lww_log (L (key_of r)) i = Some (g, u) \<and> h \<le> g))"
proof -
  let ?k = "key_of r" and ?r = "wal_record_delete h i"
  have w: "with_shard E r (delete_versioned E h i) st = Some (Inr oc, st')" using assms(4) by (simp add: store_delete_def)
  have "shard_inv E (if oc = Applied then L ?k @ [?r] else L ?k) s' \<and> durable (sh_wal s') \<and> batch_ms (sh_wal s') = 0 \<and>
      sh_dim s' = sh_dim s \<and> (oc = Stale \<longleftrightarrow> is_stale s i h)"
    if "shard_inv E (L ?k) s" "durable (sh_wal s)" "batch_ms (sh_wal s) = 0" "delete_versioned E h i s = Some (Inr oc, s')" for s s'
    using delete_versioned_cases [OF assms(1) that(1) assms(5,6) that(4)] that by auto
  then have "store_inv E D (L(?k := if oc = Applied then L ?k @ [?r] else L ?k)) st' \<and>
      (\<exists>s. shard_inv E (L ?k) s \<and> (oc = Stale \<longleftrightarrow> is_stale s i h))"
    by (intro with_shard_inv [OF assms(2,3) w]) blast
  moreover have "is_stale s i h \<longleftrightarrow> (\<exists>g u. lww_log (L ?k) i = Some (g, u) \<and> h \<le> g)" if "shard_inv E (L ?k) s" for s
    using stale_image [where i = i and P = "\<lambda>g. h \<le> g", OF shard_invD(4) [OF that]] by (auto simp: is_stale_def split: option.splits)
  ultimately show ?thesis by blast
qed

text \<open>Reads.\<close>

lemma with_shard_read:
  assumes "store_inv E D L st" "sr_dim r = D (key_of r)" "with_shard E r (reading f) st = Some (Inr a, st')"
  shows "store_inv E D L st' \<and> (\<exists>s. shard_inv E (L (key_of r)) s \<and> f s = Some a)"
proof -
  have "store_inv E D (L(key_of r := L (key_of r))) st' \<and> (\<exists>s. shard_inv E (L (key_of r)) s \<and> f s = Some a)"
    by (rule with_shard_inv [OF assms]) (auto simp: reading_def)
  then show ?thesis by simp
qed

definition point_of :: "u64 \<Rightarrow> hlc \<times> vec option \<Rightarrow> stored_point" where
  "point_of i x = \<lparr>sp_id = i, sp_hlc = fst x, sp_tombstone = (snd x = None),
     sp_vector = (case snd x of Some v \<Rightarrow> v | None \<Rightarrow> []), sp_payload = []\<rparr>"

lemma versioned_point_image:
  assumes "image_ok dim rs (sh_index s) (sh_versions s)"
  shows "versioned_point i s = Some (map_option (point_of i) (lww_log rs i))"
  using image_ok_reads [OF assms, of i]
  by (cases "lww_log rs i") (auto simp: versioned_point_def point_of_def split: option.splits)

lemmas versioned_point_lww = versioned_point_image [OF shard_invD(4)]

lemma get_versioned_lww:
  assumes "store_inv E D L st" "sr_dim r = D (key_of r)" "get_versioned E r i st = Some (Inr p, st')"
  shows "store_inv E D L st' \<and> p = map_option (point_of i) (lww_log (L (key_of r)) i)"
  using with_shard_read [OF assms(1,2), of "versioned_point i" p st'] assms(3) versioned_point_lww
  by (fastforce simp: get_versioned_def)

lemma close_where_inv:
  assumes "store_inv E D L st"
  shows "store_inv E D L (close_where P st)"
  unfolding store_inv_def
proof (intro conjI allI)
  fix k
  have "key_inv E (D k) (L k) (st_shards st k) (st_dirs st k)" using assms by (simp add: store_inv_def)
  then show "key_inv E (D k) (L k) (st_shards (close_where P st) k) (st_dirs (close_where P st) k)"
    by (auto simp: close_where_def key_inv_def split: option.splits intro: shard_close_inv)
qed (use assms in \<open>simp add: store_inv_def close_where_def\<close>)

lemma store_crash_inv:
  assumes "store_inv E D L st"
  shows "store_inv E D L (store_crash ks bs st)"
  unfolding store_inv_def
proof (intro conjI allI)
  fix k
  have "key_inv E (D k) (L k) (st_shards st k) (st_dirs st k)" using assms by (simp add: store_inv_def)
  then show "key_inv E (D k) (L k) (st_shards (store_crash ks bs st) k) (st_dirs (store_crash ks bs st) k)"
    by (auto simp: store_crash_def key_inv_def split: option.splits intro: shard_crash_dir disk_crash_dir)
qed (use assms in \<open>simp add: store_inv_def store_crash_def\<close>)

end
