(* ===== verification/Hints.thy ===== *)
theory Hints
  imports Wal BTree_Map
begin

text \<open>
  The hinted-handoff log (\<open>qv-storage/src/hints.rs\<close>) and the operations of a node on it
  (\<open>buffer_hint\<close>, \<open>read_hints_for\<close>, \<open>read_all_hints\<close>, \<open>rewrite_hints\<close> of
  \<open>qv-node/src/node_state.rs\<close>; each runs under the node's hint lock).  The framing is that of
  the shard log; its contract is interpreted a second time here.
\<close>

section \<open>UTF-8\<close>

text \<open>\<open>String::from_utf8\<close> succeeds on well-formed UTF-8.\<close>

definition utf8_cont :: "byte \<Rightarrow> bool" where
  "utf8_cont b \<longleftrightarrow> 0x80 \<le> b \<and> b \<le> 0xBF"

text \<open>The number of continuation bytes after a lead byte and the range of the first of them.\<close>

definition utf8_lead :: "byte \<Rightarrow> (nat \<times> byte \<times> byte) option" where
  "utf8_lead b =
     (if b \<le> 0x7F then Some (0, 0, 0)
      else if 0xC2 \<le> b \<and> b \<le> 0xDF then Some (1, 0x80, 0xBF)
      else if b = 0xE0 then Some (2, 0xA0, 0xBF)
      else if b = 0xED then Some (2, 0x80, 0x9F)
      else if 0xE1 \<le> b \<and> b \<le> 0xEF then Some (2, 0x80, 0xBF)
      else if b = 0xF0 then Some (3, 0x90, 0xBF)
      else if 0xF1 \<le> b \<and> b \<le> 0xF3 then Some (3, 0x80, 0xBF)
      else if b = 0xF4 then Some (3, 0x80, 0x8F)
      else None)"

function utf8_valid :: "bytes \<Rightarrow> bool" where
  "utf8_valid [] = True"
| "utf8_valid (b # bs) =
     (case utf8_lead b of
        None \<Rightarrow> False
      | Some (n, lo, hi) \<Rightarrow>
          n \<le> length bs \<and> list_all utf8_cont (take n bs) \<and>
          (n = 0 \<or> lo \<le> hd bs \<and> hd bs \<le> hi) \<and> utf8_valid (drop n bs))"
  by pat_completeness auto
termination by (relation "measure length") auto

section \<open>Hints and their codec\<close>

record hint =
  target_node :: u64
  hint_collection :: str
  hint_shard_idx :: u32
  hint_op :: wal_op
  hint_hlc :: hlc
  hint_id :: u64
  hint_vector :: vec
  hint_payload :: bytes

definition encode_hint :: "hint \<Rightarrow> bytes" where
  "encode_hint h =
     u64_to_le (target_node h)
     @ u32_to_le (of_nat (length (hint_collection h)))
     @ hint_collection h
     @ u32_to_le (hint_shard_idx h)
     @ [case hint_op h of Upsert \<Rightarrow> 0 | Delete \<Rightarrow> 1]
     @ u64_to_le (hlc_pack (hint_hlc h))
     @ u64_to_le (hint_id h)
     @ u32_to_le (of_nat (length (hint_vector h)))
     @ concat (map u32_to_le (hint_vector h))
     @ u32_to_le (of_nat (length (hint_payload h)))
     @ hint_payload h"

definition decode_hint :: "bytes \<Rightarrow> hint option" where
  "decode_hint body =
     (let p = 0 in
      if \<not> need body p 8 then None else
      let target = u64_from_le (bslice body p 8); p = p + 8 in
      if \<not> need body p 4 then None else
      let clen = unat (u32_from_le (bslice body p 4)); p = p + 4 in
      if \<not> need body p clen then None else
      let coll = bslice body p clen in
      if \<not> utf8_valid coll then None else
      let p = p + clen in
      if \<not> need body p 4 then None else
      let shard = u32_from_le (bslice body p 4); p = p + 4 in
      if \<not> need body p 1 then None else
      case (if body ! p = 0 then Some Upsert else if body ! p = 1 then Some Delete else None) of
        None \<Rightarrow> None
      | Some op \<Rightarrow>
      let p = p + 1 in
      if \<not> need body p 8 then None else
      let h = hlc_unpack (u64_from_le (bslice body p 8)); p = p + 8 in
      if \<not> need body p 8 then None else
      let i = u64_from_le (bslice body p 8); p = p + 8 in
      if \<not> need body p 4 then None else
      let dim = unat (u32_from_le (bslice body p 4)); p = p + 4 in
      if \<not> need body p (dim * 4) then None else
      let (v, p) = read_f32s body dim p in
      if \<not> need body p 4 then None else
      let plen = unat (u32_from_le (bslice body p 4)); p = p + 4 in
      if \<not> need body p plen then None else
      let pl = bslice body p plen; p = p + plen in
      if p \<noteq> length body then None else
      Some \<lparr>target_node = target, hint_collection = coll, hint_shard_idx = shard, hint_op = op,
            hint_hlc = h, hint_id = i, hint_vector = v, hint_payload = pl\<rparr>)"

definition hint_ok :: "hint \<Rightarrow> bool" where
  "hint_ok h \<longleftrightarrow> utf8_valid (hint_collection h) \<and> length (hint_collection h) < 2 ^ 32 \<and> hlc_ok (hint_hlc h) \<and>
     length (hint_vector h) < 2 ^ 32 \<and> length (hint_payload h) < 2 ^ 32"

text \<open>The part of a hint after the shard index is the body of a log record.\<close>

definition hint_record :: "hint \<Rightarrow> wal_record" where
  "hint_record h = \<lparr>rec_op = hint_op h, rec_hlc = hint_hlc h, rec_id = hint_id h, rec_vector = hint_vector h,
     rec_payload = hint_payload h\<rparr>"

definition hint_head :: "hint \<Rightarrow> bytes" where
  "hint_head h = u64_to_le (target_node h) @ u32_to_le (of_nat (length (hint_collection h))) @ hint_collection h
     @ u32_to_le (hint_shard_idx h)"

lemma encode_hint_split: "encode_hint h = hint_head h @ encode_body (hint_record h)"
  by (simp add: encode_hint_def hint_head_def encode_body_def hint_record_def wal_op_to_u8_def split: wal_op.split)

lemma op_from_byte: "(if b = 0 then Some Upsert else if b = 1 then Some Delete else None) = wal_op_from_u8 b"
  by (simp add: wal_op_from_u8_def)

lemma bslice_drop: "bslice (drop q bs) p n = bslice bs (q + p) n"
  by (simp add: bslice_def add.commute)

lemma read_f32s_end: "snd (read_f32s bs n p) = p + 4 * n"
  by (induction n arbitrary: p) (auto simp: Let_def split_def)

lemma read_f32s_fst_drop: "fst (read_f32s (drop q bs) n p) = fst (read_f32s bs n (q + p))"
  by (induction n arbitrary: p) (auto simp: Let_def bslice_drop split_def add.assoc)

lemma need_drop: "q \<le> length bs \<Longrightarrow> need (drop q bs) p n \<longleftrightarrow> need bs (q + p) n"
  by (auto simp: need_def)

lemma decode_hint_split:
  "decode_hint b =
    (if 12 \<le> length b \<and> 16 + unat (u32_from_le (bslice b 8 4)) \<le> length b \<and>
        utf8_valid (bslice b 12 (unat (u32_from_le (bslice b 8 4))))
     then map_option (\<lambda>r. \<lparr>target_node = u64_from_le (bslice b 0 8),
        hint_collection = bslice b 12 (unat (u32_from_le (bslice b 8 4))),
        hint_shard_idx = u32_from_le (bslice b (12 + unat (u32_from_le (bslice b 8 4))) 4),
        hint_op = rec_op r, hint_hlc = rec_hlc r, hint_id = rec_id r, hint_vector = rec_vector r, hint_payload = rec_payload r\<rparr>)
       (decode_body (drop (16 + unat (u32_from_le (bslice b 8 4))) b))
     else None)"
proof -
  let ?n = "unat (u32_from_le (bslice b 8 4))"
  show ?thesis
  proof (cases "12 \<le> length b \<and> 16 + ?n \<le> length b \<and> utf8_valid (bslice b 12 ?n)")
    case True
    then have q: "16 + ?n \<le> length b" by simp
    have nth: "drop (16 + ?n) b ! 0 = b ! (16 + ?n)" using q by simp
    have whole: "p = length b - (16 + ?n) \<longleftrightarrow> 16 + ?n + p = length b" for p using q by auto
    show ?thesis using True
      by (simp add: whole decode_hint_def decode_body_def Let_def split_def op_from_byte need_drop [OF q] nth
          bslice_drop read_f32s_fst_drop read_f32s_end add.assoc need_def [of b 0] need_def [of b 8] need_def [of b 12]
          need_def [of b "12 + ?n" 4] cong: if_cong option.case_cong split: option.split)
  next
    case False
    then show ?thesis by (auto simp: decode_hint_def Let_def need_def)
  qed
qed

lemma length_hint_head [simp]: "length (hint_head h) = 16 + length (hint_collection h)"
  by (simp add: hint_head_def)

lemma rec_ok_hint: "hint_ok h \<Longrightarrow> rec_ok (hint_record h)"
  by (simp add: hint_ok_def rec_ok_def hint_record_def)

lemma decode_encode_hint:
  assumes "hint_ok h"
  shows "decode_hint (encode_hint h) = Some h"
proof -
  let ?a = "u64_to_le (target_node h)" and ?b = "u32_to_le (of_nat (length (hint_collection h)))"
    and ?c = "hint_collection h" and ?d = "u32_to_le (hint_shard_idx h)" and ?x = "encode_hint h"
  let ?n = "length (hint_collection h)"
  have x: "?x = ?a @ ?b @ ?c @ ?d @ encode_body (hint_record h)"
    by (simp add: encode_hint_split hint_head_def)
  have "bslice ?x 0 8 = ?a" unfolding x by (simp add: bslice_def)
  moreover have "bslice ?x 8 4 = ?b" unfolding x by (rule bslice_at) simp_all
  moreover have "bslice ?x 12 ?n = ?c" using bslice_at [of "?a @ ?b" 12 ?c ?n] by (simp add: x)
  moreover have "bslice ?x (12 + ?n) 4 = ?d" using bslice_at [of "?a @ ?b @ ?c" "12 + ?n" ?d 4] by (simp add: x)
  moreover have "drop (16 + ?n) ?x = encode_body (hint_record h)" by (simp add: encode_hint_split)
  moreover have "unat (of_nat ?n :: u32) = ?n" using assms by (simp add: hint_ok_def unat_of_nat_u32)
  moreover have "16 + ?n \<le> length ?x" by (simp add: encode_hint_split)
  ultimately show ?thesis
    using assms decode_encode_body [OF rec_ok_hint [OF assms]]
    by (simp add: decode_hint_split hint_ok_def hint_record_def)
qed

lemma decode_hint_sound:
  assumes "decode_hint b = Some h"
  shows "hint_ok h \<and> b = encode_hint h"
proof -
  define n where "n = unat (u32_from_le (bslice b 8 4))"
  from assms obtain r where l: "16 + n \<le> length b" "utf8_valid (bslice b 12 n)" and r: "decode_body (drop (16 + n) b) = Some r"
    and h: "h = \<lparr>target_node = u64_from_le (bslice b 0 8), hint_collection = bslice b 12 n,
        hint_shard_idx = u32_from_le (bslice b (12 + n) 4), hint_op = rec_op r, hint_hlc = rec_hlc r, hint_id = rec_id r,
        hint_vector = rec_vector r, hint_payload = rec_payload r\<rparr>"
    by (auto simp: decode_hint_split n_def split: if_splits)
  note body = decode_body_sound [OF r]
  have len: "length (bslice b 12 n) = n" using l(1) by (simp add: bslice_def)
  have n32: "n < 2 ^ 32" using unsigned_less [of "u32_from_le (bslice b 8 4)", where 'a = nat] by (simp add: n_def)
  have "hint_record h = r" by (simp add: h hint_record_def)
  then have tail: "drop (16 + n) b = encode_body (hint_record h)" using body by simp
  have ok: "hint_ok h" using l(2) len n32 body by (simp add: h hint_ok_def rec_ok_def)
  have w: "of_nat n = u32_from_le (bslice b 8 4)" by (simp add: n_def)
  have e: "u32_to_le (of_nat n) = bslice b 8 4" "u64_to_le (u64_from_le (bslice b 0 8)) = bslice b 0 8"
    "u32_to_le (u32_from_le (bslice b (12 + n) 4)) = bslice b (12 + n) 4"
    unfolding w using l(1) by (simp_all add: u32_to_from_le u64_to_from_le length_bslice)
  have "hint_head h = bslice b 0 8 @ bslice b 8 4 @ bslice b 12 n @ bslice b (12 + n) 4"
    by (simp add: hint_head_def h len e)
  also have "\<dots> @ drop (16 + n) b = b"
    using bslice_append_drop [of b 0 8] bslice_append_drop [of b 8 4] bslice_append_drop [of b 12 n]
      bslice_append_drop [of b "12 + n" 4]
    by (simp add: add.commute)
  finally show ?thesis using ok tail by (simp add: encode_hint_split)
qed

interpretation hint_codec: frame_codec crc encode_hint decode_hint hint_ok for crc
  by unfold_locales (use decode_encode_hint decode_hint_sound in blast)

section \<open>The log\<close>

definition hint_open :: "os_file \<Rightarrow> (io_error + log_writer) \<times> os_file" where
  "hint_open f =
     on_ok (sys_call f) (\<lambda>_ f.
     on_ok (sys_open_create f) (\<lambda>_ f.
     (Inr \<lparr>writer = buf_new f, dirty = False\<rparr>, f)))"

definition hint_append :: "(bytes \<Rightarrow> u32) \<Rightarrow> hint \<Rightarrow> log_writer \<Rightarrow> (io_error + unit) \<times> log_writer" where
  "hint_append crc h lw = on_ok (write_frame crc (encode_hint h) lw) (\<lambda>_ lw. log_flush (lw\<lparr>dirty := True\<rparr>))"

definition hint_read_all :: "(bytes \<Rightarrow> u32) \<Rightarrow> os_file \<Rightarrow> (io_error + hint list) \<times> os_file" where
  "hint_read_all crc f =
     (if \<not> present f then (Inr [], f) else
      on_ok (sys_call f) (\<lambda>_ f.
      on_ok (sys_call f) (\<lambda>_ f.
      (Inr (fst (scan_frames crc decode_hint (contents f) 0 [] 0)), f))))"

definition hint_clear :: "os_file \<Rightarrow> (io_error + unit) \<times> os_file" where
  "hint_clear f = (if present f then sys_remove f else (Inr (), f))"

text \<open>Dropping the log drops its \<open>BufWriter\<close>, which writes out what is still buffered.\<close>

definition hint_drop :: "log_writer \<Rightarrow> os_file" where
  "hint_drop lw = inner (snd (flush_buf (writer lw)))"

section \<open>The node's operations\<close>

definition buffer_hint :: "(bytes \<Rightarrow> u32) \<Rightarrow> hint \<Rightarrow> os_file \<Rightarrow> (io_error + unit) \<times> os_file" where
  "buffer_hint crc h f =
     on_ok (hint_open f) (\<lambda>lw _. case hint_append crc h lw of (r, lw) \<Rightarrow> (r, hint_drop lw))"

definition read_hints_for :: "(bytes \<Rightarrow> u32) \<Rightarrow> u64 \<Rightarrow> os_file \<Rightarrow> (io_error + hint list) \<times> os_file" where
  "read_hints_for crc target f =
     on_ok (hint_read_all crc f) (\<lambda>hs f. (Inr (filter (\<lambda>h. target_node h = target) hs), f))"

definition read_all_hints :: "(bytes \<Rightarrow> u32) \<Rightarrow> os_file \<Rightarrow> (io_error + hint list) \<times> os_file" where
  "read_all_hints crc f = hint_read_all crc f"

fun append_all :: "(bytes \<Rightarrow> u32) \<Rightarrow> hint list \<Rightarrow> log_writer \<Rightarrow> (io_error + unit) \<times> log_writer" where
  "append_all crc [] lw = (Inr (), lw)"
| "append_all crc (h # hs) lw = on_ok (hint_append crc h lw) (\<lambda>_ lw. append_all crc hs lw)"

definition rewrite_hints :: "(bytes \<Rightarrow> u32) \<Rightarrow> hint list \<Rightarrow> os_file \<Rightarrow> (io_error + unit) \<times> os_file" where
  "rewrite_hints crc keep f =
     on_ok (hint_clear f) (\<lambda>_ f.
     if keep = [] then (Inr (), f) else
     on_ok (hint_open f) (\<lambda>lw _. case append_all crc keep lw of (r, lw) \<Rightarrow> (r, hint_drop lw)))"

section \<open>Lemmas\<close>

abbreviation hint_log :: "(bytes \<Rightarrow> u32) \<Rightarrow> hint list \<Rightarrow> bytes" where
  "hint_log crc \<equiv> log_of crc encode_hint"

abbreviation hint_fits :: "hint \<Rightarrow> bool" where
  "hint_fits \<equiv> fits encode_hint hint_ok"

text \<open>The hint file between two operations: the frames of \<open>hs\<close>, all on stable storage.\<close>

definition hint_file :: "(bytes \<Rightarrow> u32) \<Rightarrow> hint list \<Rightarrow> os_file \<Rightarrow> bool" where
  "hint_file crc hs f \<longleftrightarrow> list_all hint_fits hs \<and> contents f = hint_log crc hs \<and>
     synced f = length (contents f) \<and> (\<not> present f \<longrightarrow> contents f = [])"

lemma hint_file_crash: "hint_file crc hs f \<Longrightarrow> hint_file crc hs (crash k f) \<and> script (crash k f) = []"
  by (auto simp: hint_file_def crash_def Let_def)

lemma hint_log_Nil: "hint_log crc hs = [] \<Longrightarrow> hs = []"
  by (cases hs) (simp_all flip: length_0_conv)

lemma hint_read_all_ok:
  assumes "script f = []" "present f" "contents f = hint_log crc hs @ torn" "list_all hint_fits hs"
    "no_frame crc encode_hint hint_ok torn"
  shows "hint_read_all crc f = (Inr hs, f)"
  using hint_codec.scan_log [OF assms(4,5)] assms(1-3) by (simp add: hint_read_all_def sys_call_ok)

lemma hint_read_file:
  assumes "hint_file crc hs f" "script f = []"
  shows "hint_read_all crc f = (Inr hs, f)"
proof (cases "present f")
  case True
  then show ?thesis using hint_read_all_ok [OF assms(2) True, of crc hs "[]"] assms(1) by (simp add: hint_file_def)
next
  case False
  then have "hs = []" using assms(1) hint_log_Nil [of crc hs] by (auto simp: hint_file_def)
  with False show ?thesis by (simp add: hint_read_all_def)
qed

lemma hint_open_cases:
  assumes "hint_open f = (Inr lw, g)"
  shows "buf (writer lw) = [] \<and> \<not> dirty lw \<and> contents (log_file lw) = contents f \<and> synced (log_file lw) = synced f \<and>
    present (log_file lw)"
proof -
  obtain q1 f1 where q1: "sys_call f = (q1, f1)" by fastforce
  obtain q2 f2 where q2: "sys_call f1 = (q2, f2)" by fastforce
  show ?thesis using assms q1 q2 sys_call_keeps [OF q1] sys_call_keeps [OF q2]
    by (cases q1; cases q2) (auto simp: hint_open_def sys_open_create_def buf_new_def)
qed

lemma hint_append_bytes:
  assumes "hint_append crc h lw = (Inr u, lw')" "synced (log_file lw) \<le> length (contents (log_file lw))"
  shows "log_bytes lw' = log_bytes lw @ frame crc (encode_hint h) \<and> durable lw' \<and>
    present (log_file lw') = present (log_file lw) \<and> synced (log_file lw') \<le> length (contents (log_file lw'))"
proof -
  obtain lw1 where w: "write_frame crc (encode_hint h) lw = (Inr (), lw1)" "log_flush (lw1\<lparr>dirty := True\<rparr>) = (Inr u, lw')"
    using assms(1) unfolding hint_append_def by (auto elim: on_ok_InrE)
  note c = write_frame_cases [OF w(1)]
  have s: "synced (log_file (lw1\<lparr>dirty := True\<rparr>)) \<le> length (contents (log_file (lw1\<lparr>dirty := True\<rparr>)))"
    using c assms(2) by (auto simp: grows_def)
  from log_flush_cases [OF w(2) s] c show ?thesis by (auto simp: extends_def grows_def)
qed

lemma hint_drop_durable: "durable lw \<Longrightarrow> hint_drop lw = log_file lw"
  by (simp add: hint_drop_def durable_def flush_buf_def)

text \<open>Appending to any file whose bytes are synced, torn tail included.\<close>

lemma buffer_hint_bytes:
  assumes "buffer_hint crc h f = (Inr u, f')" "synced f = length (contents f)"
  shows "contents f' = contents f @ frame crc (encode_hint h) \<and> synced f' = length (contents f') \<and> present f'"
proof -
  obtain lw g lw' where o: "hint_open f = (Inr lw, g)" "hint_append crc h lw = (Inr u, lw')" "f' = hint_drop lw'"
    using assms(1) unfolding buffer_hint_def by (auto elim!: on_ok_InrE split: prod.splits)
  note c = hint_open_cases [OF o(1)]
  have "synced (log_file lw) \<le> length (contents (log_file lw))" using c assms(2) by simp
  note b = hint_append_bytes [OF o(2) this]
  then show ?thesis using c hint_drop_durable [of lw'] o(3) by (auto simp: durable_def logical_def)
qed

lemma buffer_hint_file:
  assumes "hint_file crc hs f" "hint_fits h" "buffer_hint crc h f = (Inr u, f')"
  shows "hint_file crc (hs @ [h]) f'"
  using buffer_hint_bytes [OF assms(3)] assms(1,2) by (simp add: hint_file_def)

lemma append_all_bytes:
  assumes "append_all crc hs lw = (Inr u, lw')" "synced (log_file lw) \<le> length (contents (log_file lw))"
  shows "log_bytes lw' = log_bytes lw @ hint_log crc hs \<and> (hs \<noteq> [] \<or> durable lw \<longrightarrow> durable lw') \<and>
    present (log_file lw') = present (log_file lw)"
  using assms
proof (induction hs arbitrary: lw)
  case Nil
  then show ?case by simp
next
  case (Cons h hs)
  obtain v lw1 where a: "hint_append crc h lw = (Inr v, lw1)" "append_all crc hs lw1 = (Inr u, lw')"
    using Cons.prems(1) by (auto elim: on_ok_InrE)
  note b = hint_append_bytes [OF a(1) Cons.prems(2)]
  from Cons.IH [OF a(2)] b show ?case by auto
qed

lemma hint_clear_cases:
  assumes "hint_clear f = (Inr u, f')" "\<not> present f \<longrightarrow> contents f = []" "synced f = length (contents f)"
  shows "contents f' = [] \<and> synced f' = 0 \<and> \<not> present f'"
proof (cases "present f")
  case True
  obtain q g where "sys_call f = (q, g)" by fastforce
  with True assms(1) show ?thesis by (cases q) (auto simp: hint_clear_def sys_remove_def)
qed (use assms in \<open>auto simp: hint_clear_def\<close>)

lemma rewrite_hints_file:
  assumes "hint_file crc hs f" "list_all hint_fits ks" "rewrite_hints crc ks f = (Inr u, f')"
  shows "hint_file crc ks f'"
proof -
  obtain v g where g: "hint_clear f = (Inr v, g)" using assms(3) by (auto simp: rewrite_hints_def elim: on_ok_InrE)
  have c: "contents g = []" "synced g = 0" "\<not> present g" using hint_clear_cases [OF g] assms(1) by (auto simp: hint_file_def)
  show ?thesis
  proof (cases "ks = []")
    case True
    then show ?thesis using assms(3) g c by (simp add: rewrite_hints_def hint_file_def)
  next
    case False
    obtain lw g' lw' where o: "hint_open g = (Inr lw, g')" "append_all crc ks lw = (Inr u, lw')" "f' = hint_drop lw'"
      using assms(3) g False unfolding rewrite_hints_def by (auto elim!: on_ok_InrE split: prod.splits)
    note d = hint_open_cases [OF o(1)]
    have "synced (log_file lw) \<le> length (contents (log_file lw))" using c d by simp
    from append_all_bytes [OF o(2) this] d c False have "log_bytes lw' = hint_log crc ks" "durable lw'" "present (log_file lw')"
      by (auto simp: logical_def)
    then show ?thesis using assms(2) hint_drop_durable [of lw'] o(3) by (simp add: hint_file_def durable_def logical_def)
  qed
qed

lemma hint_read_crash: "hint_file crc hs f \<Longrightarrow> hint_read_all crc (crash k f) = (Inr hs, crash k f)"
  using hint_read_file hint_file_crash by blast

text \<open>Without faults a hint is buffered.\<close>

lemma buffer_hint_faultless: "script f = [] \<Longrightarrow> \<exists>f'. buffer_hint crc h f = (Inr (), f')"
proof -
  assume f: "script f = []"
  let ?lw = "\<lparr>writer = buf_new (f\<lparr>present := True\<rparr>), dirty = False\<rparr>"
  have o: "hint_open f = (Inr ?lw, f\<lparr>present := True\<rparr>)" using f by (simp add: hint_open_def sys_call_ok sys_open_create_ok)
  have "faultless ?lw" using f by (simp add: buf_new_def)
  from write_frame_ok [OF this, of crc "encode_hint h"] obtain bw where
    w: "write_frame crc (encode_hint h) ?lw = (Inr (), ?lw\<lparr>writer := bw\<rparr>)" "script (inner bw) = []" by blast
  obtain lw' where "log_flush (?lw\<lparr>writer := bw, dirty := True\<rparr>) = (Inr (), lw')"
    using log_flush_ok [of "?lw\<lparr>writer := bw, dirty := True\<rparr>"] w(2) by auto
  with o w show ?thesis by (simp add: buffer_hint_def hint_append_def)
qed

section \<open>Properties\<close>

text \<open>The hint codec is exact: a body decodes to a hint exactly when it is the encoding of
  that hint and the hint is representable (a UTF-8 collection name, a 48-bit wall clock, counts
  below 2 to the 32).\<close>

theorem hint_codec_exact: "decode_hint b = Some h \<longleftrightarrow> hint_ok h \<and> b = encode_hint h"
  using decode_encode_hint decode_hint_sound by blast

text \<open>A hint whose buffering returned \<open>Ok\<close> survives any crash, with all hints buffered
  before it, whatever I/O faults occurred on the way; reading filters by target.\<close>

theorem buffered_hint_survives_crash:
  assumes "hint_file crc hs f" "hint_fits h" "buffer_hint crc h f = (Inr (), f')"
  shows "fst (read_all_hints crc (crash k f')) = Inr (hs @ [h]) \<and>
    fst (read_hints_for crc t (crash k f')) = Inr (filter (\<lambda>h. target_node h = t) (hs @ [h]))"
  using hint_read_crash [OF buffer_hint_file [OF assms], of k]
  by (simp add: read_all_hints_def read_hints_for_def)

definition demo_hint :: hint where
  "demo_hint = \<lparr>target_node = 3, hint_collection = [99], hint_shard_idx = 0, hint_op = Delete, hint_hlc = Hlc 5 0, hint_id = 7,
     hint_vector = [], hint_payload = []\<rparr>"

lemma demo_hint_fits: "hint_fits demo_hint"
  by (simp add: demo_hint_def fits_def hint_ok_def encode_hint_split hint_record_def utf8_lead_def hlc_ok_def)

theorem buffered_hint_survives_crash_witness:
  "\<exists>f'. buffer_hint (\<lambda>_. 0) demo_hint empty_file = (Inr (), f') \<and> fst (read_all_hints (\<lambda>_. 0) (crash 0 f')) = Inr [demo_hint]"
proof -
  obtain f' where f': "buffer_hint (\<lambda>_. 0) demo_hint empty_file = (Inr (), f')"
    using buffer_hint_faultless [of empty_file] by (auto simp: empty_file_def)
  have "hint_file (\<lambda>_. 0) [] empty_file" by (simp add: hint_file_def empty_file_def)
  from buffered_hint_survives_crash [OF this demo_hint_fits f', of 0] f' show ?thesis by simp
qed

text \<open>A rewrite that returns \<open>Ok\<close> leaves exactly the hints to keep, also after a crash.\<close>

theorem rewrite_hints_exact:
  assumes "hint_file crc hs f" "list_all hint_fits ks" "rewrite_hints crc ks f = (Inr (), f')"
  shows "fst (read_all_hints crc (crash k f')) = Inr ks"
  using hint_read_crash [OF rewrite_hints_file [OF assms], of k] by (simp add: read_all_hints_def)

theorem rewrite_hints_exact_witness:
  "\<exists>f'. rewrite_hints (\<lambda>_. 0) [] empty_file = (Inr (), f') \<and> fst (read_all_hints (\<lambda>_. 0) (crash 0 f')) = Inr []"
proof -
  have f: "rewrite_hints (\<lambda>_. 0) [] empty_file = (Inr (), empty_file)"
    by (simp add: rewrite_hints_def hint_clear_def empty_file_def)
  have "hint_file (\<lambda>_. 0) [] empty_file" by (simp add: hint_file_def empty_file_def)
  from rewrite_hints_exact [OF this _ f, of 0] f show ?thesis by simp
qed

text \<open>The rewrite is not atomic: it removes the log before it writes the hints to keep, so a
  single failed call after the removal (here the directory check of the reopening) loses all of
  them, and the operation reports an error only.\<close>

theorem rewrite_hints_not_atomic:
  assumes "present f" "script f = None # Some j # sc" "ks \<noteq> []"
  shows "\<exists>f'. rewrite_hints crc ks f = (Inl IoError, f') \<and> fst (read_all_hints crc (crash k f')) = Inr []"
  using assms
  by (simp add: rewrite_hints_def hint_clear_def sys_remove_def sys_call_def hint_open_def read_all_hints_def
      hint_read_all_def crash_def Let_def)

theorem rewrite_hints_not_atomic_witness:
  "\<exists>f f'. hint_file (\<lambda>_. 0) [demo_hint] f \<and> rewrite_hints (\<lambda>_. 0) [demo_hint] f = (Inl IoError, f') \<and>
     fst (read_all_hints (\<lambda>_. 0) (crash 0 f')) = Inr []"
proof -
  let ?b = "frame (\<lambda>_. 0) (encode_hint demo_hint)"
  let ?f = "\<lparr>present = True, contents = ?b, synced = length ?b, script = [None, Some 0]\<rparr>"
  have "hint_file (\<lambda>_. 0) [demo_hint] ?f" using demo_hint_fits by (simp add: hint_file_def)
  moreover have "\<exists>f'. rewrite_hints (\<lambda>_. 0) [demo_hint] ?f = (Inl IoError, f') \<and> fst (read_all_hints (\<lambda>_. 0) (crash 0 f')) = Inr []"
    by (rule rewrite_hints_not_atomic) simp_all
  ultimately show ?thesis by blast
qed

text \<open>A torn tail hides later hints.  Unlike the shard log the hint log is never truncated
  on opening: if a crash left part of a frame at the end and the next hint is buffered with
  \<open>Ok\<close> but the file still ends before the end the torn frame declares, the buffered hint is
  never read back.\<close>

theorem hint_after_torn_tail_is_lost:
  assumes "contents f = hint_log crc hs @ take k (frame crc (encode_hint g))" "list_all hint_fits hs" "hint_fits g" "4 \<le> k"
    and "synced f = length (contents f)" "buffer_hint crc h f = (Inr (), f')"
    and "k + length (frame crc (encode_hint h)) < length (frame crc (encode_hint g))"
  shows "fst (read_all_hints crc (crash j f')) = Inr hs"
proof -
  let ?torn = "take k (frame crc (encode_hint g)) @ frame crc (encode_hint h)"
  note b = buffer_hint_bytes [OF assms(6,5)]
  have "no_frame crc encode_hint hint_ok ?torn" using assms(3,4,7) by (intro hint_codec.no_frame_long)
  moreover have "contents (crash j f') = contents f'" "script (crash j f') = []" "present (crash j f')"
    using b by (simp_all add: crash_def Let_def)
  moreover have "contents f' = hint_log crc hs @ ?torn" using b assms(1) by simp
  ultimately show ?thesis using hint_read_all_ok [of "crash j f'" crc hs ?torn] assms(2) by (simp add: read_all_hints_def)
qed

theorem hint_after_torn_tail_is_lost_witness:
  "\<exists>f f'. buffer_hint (\<lambda>_. 0) demo_hint f = (Inr (), f') \<and> fst (read_all_hints (\<lambda>_. 0) (crash 0 f')) = Inr []"
proof -
  let ?g = "demo_hint\<lparr>hint_op := Upsert, hint_vector := replicate 99 0\<rparr>"
  let ?b = "take 20 (frame (\<lambda>_. 0) (encode_hint ?g))"
  let ?f = "\<lparr>present = True, contents = ?b, synced = length ?b, script = []\<rparr>"
  have fit: "hint_fits ?g"
    by (simp add: demo_hint_def fits_def hint_ok_def encode_hint_split hint_record_def utf8_lead_def hlc_ok_def)
  obtain f' where f': "buffer_hint (\<lambda>_. 0) demo_hint ?f = (Inr (), f')"
    using buffer_hint_faultless [of ?f] by auto
  have "fst (read_all_hints (\<lambda>_. 0) (crash 0 f')) = Inr []"
    by (rule hint_after_torn_tail_is_lost [OF _ _ fit _ _ f', where k = 20])
      (simp_all add: demo_hint_def encode_hint_split hint_record_def)
  with f' show ?thesis by blast
qed

end
