(* ===== verification/Node.thy ===== *)
theory Node
  imports Shard_Store Hints
begin

text \<open>
  A node as its peers see it: its state (\<open>qv-node/src/node_state.rs\<close>), the replica side of
  every data-plane request (\<open>apply_replica_write\<close>, \<open>apply_replica_get\<close>,
  \<open>apply_replica_search\<close>, \<open>apply_stream_shard\<close> of \<open>qv-node/src/router.rs\<close>) and the handlers
  that serve them (\<open>qv-node/src/internal_service.rs\<close>).

  The metadata a node sees is the state its Raft state machine has applied.  The hint log is the
  file; its lock makes each hint operation a single step.
\<close>

record node =
  nd_advertise_addr :: str
  nd_cluster :: meta_state
  nd_shards :: shard_store
  nd_clock :: hlc_clock
  nd_hint_log :: os_file

text \<open>\<open>NodeState::new\<close>: a new clock over an existing store, hint log and state machine.\<close>

definition node_new :: "str \<Rightarrow> meta_state \<Rightarrow> shard_store \<Rightarrow> os_file \<Rightarrow> node" where
  "node_new addr cluster shards hints =
     \<lparr>nd_advertise_addr = addr, nd_cluster = cluster, nd_shards = shards, nd_clock = clock_new, nd_hint_log = hints\<rparr>"

datatype router_error =
    RNotFound str
  | RNoReplica str u32
  | RDimMismatch nat nat
  | RWriteQuorum str u32 nat nat
  | RReadQuorum str u32 nat nat
  | RShard store_error
  | RHint io_error

datatype status = StatusNotFound str | StatusInternal router_error

section \<open>Messages\<close>

record write_req =
  wq_collection :: str
  wq_shard_idx :: u32
  wq_op :: u32
  wq_id :: u64
  wq_hlc :: u64
  wq_vector :: vec
  wq_payload :: bytes

record get_req =
  gq_collection :: str
  gq_shard_idx :: u32
  gq_ids :: "u64 list"

record replica_point =
  rp_id :: u64
  rp_hlc :: u64
  rp_tombstone :: bool
  rp_vector :: vec
  rp_payload :: bytes

record search_req =
  sq_collection :: str
  sq_shard_idx :: u32
  sq_vector :: vec
  sq_k :: u32
  sq_ef_search :: u32

record replica_scored =
  rs_id :: u64
  rs_score :: f32
  rs_payload :: bytes

record stream_req =
  tq_collection :: str
  tq_shard_idx :: u32

record shard_record =
  rr_id :: u64
  rr_hlc :: u64
  rr_tombstone :: bool
  rr_vector :: vec
  rr_payload :: bytes

definition OP_UPSERT :: u32 where
  "OP_UPSERT = 0"

definition OP_DELETE :: u32 where
  "OP_DELETE = 1"

section \<open>Operations on the store of a node\<close>

text \<open>The \<open>?\<close> operator where the operation may also panic.\<close>

definition and_then :: "(('e + 'a) \<times> 's) option \<Rightarrow> ('a \<Rightarrow> 's \<Rightarrow> (('e + 'b) \<times> 's) option) \<Rightarrow> (('e + 'b) \<times> 's) option" where
  "and_then x k = (case x of None \<Rightarrow> None | Some (Inl e, s) \<Rightarrow> Some (Inl e, s) | Some (Inr a, s) \<Rightarrow> k a s)"

definition sref_of :: "str \<Rightarrow> collection_schema \<Rightarrow> u32 \<Rightarrow> shard_ref" where
  "sref_of c schema i = \<lparr>sr_collection = c, sr_shard_idx = i, sr_dim = unat (cs_dim schema),
     sr_metric = metric_from_cluster (cs_metric schema)\<rparr>"

definition on_shards ::
  "(shard_store \<Rightarrow> ((store_error + 'a) \<times> shard_store) option) \<Rightarrow> node \<Rightarrow> ((router_error + 'a) \<times> node) option" where
  "on_shards act nd = map_option (\<lambda>(r, st). (map_sum RShard id r, nd\<lparr>nd_shards := st\<rparr>)) (act (nd_shards nd))"

text \<open>The write every path ends in: a delete or an upsert of one point in one shard.\<close>

definition store_write ::
  "env \<Rightarrow> shard_ref \<Rightarrow> bool \<Rightarrow> hlc \<Rightarrow> u64 \<Rightarrow> vec \<Rightarrow> bytes \<Rightarrow> shard_store \<Rightarrow> ((store_error + write_outcome) \<times> shard_store) option" where
  "store_write E r del h i v pl = (if del then store_delete E r h i else store_upsert E r h i v pl)"

section \<open>The replica side\<close>

definition apply_replica_write ::
  "env \<Rightarrow> nat option \<Rightarrow> write_req \<Rightarrow> collection_schema \<Rightarrow> node \<Rightarrow> ((router_error + bool) \<times> node) option" where
  "apply_replica_write E t req schema nd =
     (let h = hlc_unpack (wq_hlc req);
          nd = nd\<lparr>nd_clock := snd (clock_update t h (nd_clock nd))\<rparr>;
          sref = sref_of (wq_collection req) schema (wq_shard_idx req)
      in and_then (on_shards (store_write E sref (wq_op req = OP_DELETE) h (wq_id req) (wq_vector req) (wq_payload req)) nd)
           (\<lambda>outcome nd. Some (Inr (outcome = Applied), nd)))"

fun get_points :: "env \<Rightarrow> shard_ref \<Rightarrow> u64 list \<Rightarrow> replica_point list \<Rightarrow> node \<Rightarrow> ((router_error + replica_point list) \<times> node) option" where
  "get_points E sref [] out nd = Some (Inr out, nd)"
| "get_points E sref (i # is) out nd =
     and_then (on_shards (get_versioned E sref i) nd) (\<lambda>p nd.
       get_points E sref is
         (case p of
            Some sp \<Rightarrow> out @ [\<lparr>rp_id = sp_id sp, rp_hlc = hlc_pack (sp_hlc sp), rp_tombstone = sp_tombstone sp,
                              rp_vector = sp_vector sp, rp_payload = sp_payload sp\<rparr>]
          | None \<Rightarrow> out) nd)"

definition apply_replica_get ::
  "env \<Rightarrow> str \<Rightarrow> u32 \<Rightarrow> u64 list \<Rightarrow> collection_schema \<Rightarrow> node \<Rightarrow> ((router_error + replica_point list) \<times> node) option" where
  "apply_replica_get E c i ids schema nd = get_points E (sref_of c schema i) ids [] nd"

definition apply_replica_search ::
  "env \<Rightarrow> str \<Rightarrow> u32 \<Rightarrow> vec \<Rightarrow> nat \<Rightarrow> nat \<Rightarrow> collection_schema \<Rightarrow> node \<Rightarrow> ((router_error + replica_scored list) \<times> node) option" where
  "apply_replica_search E c i q k ef schema nd =
     and_then (on_shards (search_shard E (sref_of c schema i) q k ef) nd) (\<lambda>hits nd.
       Some (Inr (map (\<lambda>(j, s). \<lparr>rs_id = j, rs_score = s, rs_payload = []\<rparr>) hits), nd))"

text \<open>A shard that is not open here is not opened for a transfer.\<close>

definition apply_stream_shard ::
  "env \<Rightarrow> str \<Rightarrow> u32 \<Rightarrow> collection_schema \<Rightarrow> node \<Rightarrow> ((router_error + shard_record list) \<times> node) option" where
  "apply_stream_shard E c i schema nd =
     (if \<not> has_shard c i (nd_shards nd) then Some (Inr [], nd)
      else and_then (on_shards (store_records E (sref_of c schema i)) nd) (\<lambda>records nd.
        Some (Inr (map (\<lambda>(j, h, tomb, v). \<lparr>rr_id = j, rr_hlc = hlc_pack h, rr_tombstone = tomb, rr_vector = v, rr_payload = []\<rparr>) records), nd)))"

section \<open>Handlers\<close>

definition DEFAULT_K :: u32 where
  "DEFAULT_K = 10"

definition DEFAULT_EF_SEARCH :: u32 where
  "DEFAULT_EF_SEARCH = 64"

text \<open>Look the schema up, run the operation, turn its error into a status.\<close>

definition with_schema ::
  "str \<Rightarrow> (collection_schema \<Rightarrow> node \<Rightarrow> ((router_error + 'a) \<times> node) option) \<Rightarrow> node \<Rightarrow> ((status + 'a) \<times> node) option" where
  "with_schema c act nd = (case map_of (ms_collections (nd_cluster nd)) c of
     None \<Rightarrow> Some (Inl (StatusNotFound c), nd)
   | Some schema \<Rightarrow> map_option (\<lambda>(r, nd). (map_sum StatusInternal id r, nd)) (act schema nd))"

definition replica_write :: "env \<Rightarrow> write_req \<Rightarrow> nat option \<Rightarrow> node \<Rightarrow> ((status + bool) \<times> node) option" where
  "replica_write E req t nd = with_schema (wq_collection req) (apply_replica_write E t req) nd"

definition replica_get :: "env \<Rightarrow> get_req \<Rightarrow> nat option \<Rightarrow> node \<Rightarrow> ((status + replica_point list) \<times> node) option" where
  "replica_get E req t nd = with_schema (gq_collection req) (apply_replica_get E (gq_collection req) (gq_shard_idx req) (gq_ids req)) nd"

definition replica_search :: "env \<Rightarrow> search_req \<Rightarrow> nat option \<Rightarrow> node \<Rightarrow> ((status + replica_scored list) \<times> node) option" where
  "replica_search E req t nd =
     (let k = unat (if sq_k req = 0 then DEFAULT_K else sq_k req);
          ef = unat (if sq_ef_search req = 0 then DEFAULT_EF_SEARCH else sq_ef_search req)
      in with_schema (sq_collection req) (apply_replica_search E (sq_collection req) (sq_shard_idx req) (sq_vector req) k ef) nd)"

definition stream_shard :: "env \<Rightarrow> stream_req \<Rightarrow> nat option \<Rightarrow> node \<Rightarrow> ((status + shard_record list) \<times> node) option" where
  "stream_shard E req t nd = with_schema (tq_collection req) (apply_stream_shard E (tq_collection req) (tq_shard_idx req)) nd"

end
