(* ===== verification/Router.thy ===== *)
theory Router
  imports Node
begin

text \<open>
  The coordinator (\<open>qv-node/src/router.rs\<close>): it stamps writes, replicates them, reads and merges
  versions, scatters searches, replays hints and pulls shards.

  The world is the state of every node (a node is addressed by its id), the events of the
  network, the readings of the coordinator's clock and the repair tasks it has spawned.  A request
  to a peer is a point where other activity may come between: the next event says what that
  activity does to the nodes (any function on their states) and what becomes of the request:
  it is answered, it does not reach the peer, or the peer runs it and the answer is lost (a request
  that is delivered later than its timeout is part of what a later event does).  The same holds
  where the coordinator waits for the metadata lock.

  A panic is \<open>None\<close>.
\<close>

type_synonym nodes = "node_id \<Rightarrow> node"

datatype outcome = Answered | Unreachable | ReplyLost

record event =
  ev_between :: "nodes \<Rightarrow> nodes"
  ev_outcome :: outcome
  ev_time :: "nat option"

record world =
  w_nodes :: nodes
  w_events :: "event list"
  w_times :: "nat option list"
  w_spawned :: "(str list \<times> write_req) list"

text \<open>What the code does not define: the environment of the storage layer, the hash, and which
  node listens at an address.\<close>

record net =
  nt_env :: env
  nt_hash :: hash_fn
  nt_at :: "str \<Rightarrow> node_id option"

definition quiet_event :: event where
  "quiet_event = \<lparr>ev_between = id, ev_outcome = Answered, ev_time = None\<rparr>"

definition next_event :: "world \<Rightarrow> event \<times> world" where
  "next_event w = (case w_events w of
     [] \<Rightarrow> (quiet_event, w)
   | e # es \<Rightarrow> (e, w\<lparr>w_nodes := ev_between e (w_nodes w), w_events := es\<rparr>))"

definition next_time :: "world \<Rightarrow> nat option \<times> world" where
  "next_time w = (case w_times w of [] \<Rightarrow> (None, w) | t # ts \<Rightarrow> (t, w\<lparr>w_times := ts\<rparr>))"

definition on_node :: "node_id \<Rightarrow> (node \<Rightarrow> ('r \<times> node) option) \<Rightarrow> world \<Rightarrow> ('r \<times> world) option" where
  "on_node n act w = map_option (\<lambda>(r, nd). (r, w\<lparr>w_nodes := (w_nodes w)(n := nd)\<rparr>)) (act (w_nodes w n))"

datatype conn_error = ConnError

text \<open>Connect (\<open>internal_client\<close>), send, wait for the answer; every failure, an error status
  included, is a \<open>ConnError\<close>.\<close>

definition rpc ::
  "net \<Rightarrow> str \<Rightarrow> (nat option \<Rightarrow> node \<Rightarrow> ((status + 'a) \<times> node) option) \<Rightarrow> world \<Rightarrow> ((conn_error + 'a) \<times> world) option" where
  "rpc N addr handler w =
     (case next_event w of (ev, w) \<Rightarrow>
      case (if ev_outcome ev = Unreachable then None else nt_at N addr) of
        None \<Rightarrow> Some (Inl ConnError, w)
      | Some n \<Rightarrow> map_option (\<lambda>(r, w).
          (case r of Inr a \<Rightarrow> if ev_outcome ev = ReplyLost then Inl ConnError else Inr a | Inl _ \<Rightarrow> Inl ConnError, w))
          (on_node n (handler (ev_time ev)) w))"

section \<open>Consistency levels\<close>

datatype consistency = One | Quorum | All

definition from_proto :: "int \<Rightarrow> consistency" where
  "from_proto v = (if v = 1 then One else if v = 3 then All else Quorum)"

definition count :: "consistency \<Rightarrow> nat \<Rightarrow> nat" where
  "count c n = (let x = (case c of One \<Rightarrow> 1 | Quorum \<Rightarrow> n div 2 + 1 | All \<Rightarrow> n) in max 1 (min x (max n 1)))"

section \<open>Shared helpers\<close>

definition schema_of :: "node_id \<Rightarrow> str \<Rightarrow> world \<Rightarrow> ((router_error + meta_state \<times> collection_schema) \<times> world) option" where
  "schema_of me c w =
     (let w = snd (next_event w); meta = nd_cluster (w_nodes w me) in
      case map_of (ms_collections meta) c of
        None \<Rightarrow> Some (Inl (RNotFound c), w)
      | Some schema \<Rightarrow> Some (Inr (meta, schema), w))"

definition with_addr :: "meta_state \<Rightarrow> node_id \<Rightarrow> (node_id \<times> str) option" where
  "with_addr meta n = map_option (\<lambda>a. (n, a)) (map_of (ms_nodes meta) n)"

definition replicas_with_addrs :: "hash_fn \<Rightarrow> meta_state \<Rightarrow> str \<Rightarrow> u32 \<Rightarrow> (node_id \<times> str) list" where
  "replicas_with_addrs X meta c i = List.map_filter (with_addr meta) (meta_replicas_for_shard X meta c i)"

definition active_replicas_with_addrs :: "hash_fn \<Rightarrow> meta_state \<Rightarrow> str \<Rightarrow> u32 \<Rightarrow> (node_id \<times> str) list" where
  "active_replicas_with_addrs X meta c i =
     List.map_filter (with_addr meta) (filter (\<lambda>n. shard_state_of meta c i n = Active) (meta_replicas_for_shard X meta c i))"

section \<open>Writes\<close>

text \<open>The operation of one point that a coordinator replicates.\<close>

record point_op =
  po_collection :: str
  po_shard_idx :: u32
  po_op :: u32
  po_id :: u64
  po_hlc :: hlc
  po_vector :: vec
  po_payload :: bytes

definition request_of :: "point_op \<Rightarrow> write_req" where
  "request_of p = \<lparr>wq_collection = po_collection p, wq_shard_idx = po_shard_idx p, wq_op = po_op p, wq_id = po_id p,
     wq_hlc = hlc_pack (po_hlc p), wq_vector = po_vector p, wq_payload = po_payload p\<rparr>"

definition write_one_replica ::
  "net \<Rightarrow> node_id \<Rightarrow> collection_schema \<Rightarrow> point_op \<Rightarrow> node_id \<times> str \<Rightarrow> world \<Rightarrow> ((conn_error + bool) \<times> world) option" where
  "write_one_replica N me schema p replica w =
     (if fst replica = me then
        map_option (\<lambda>(r, w). (case r of Inr _ \<Rightarrow> Inr True | Inl _ \<Rightarrow> Inr False, w))
          (on_node me (on_shards (store_write (nt_env N) (sref_of (po_collection p) schema (po_shard_idx p))
             (po_op p = OP_DELETE) (po_hlc p) (po_id p) (po_vector p) (po_payload p))) w)
      else and_then (rpc N (snd replica) (replica_write (nt_env N) (request_of p)) w) (\<lambda>_ w. Some (Inr True, w)))"

text \<open>The loop over the replicas, for a given way to write one.\<close>

fun write_all ::
  "(node_id \<times> str \<Rightarrow> 'w \<Rightarrow> ((conn_error + bool) \<times> 'w) option) \<Rightarrow> (node_id \<times> str) list \<Rightarrow> nat \<Rightarrow> node_id list \<Rightarrow> 'w \<Rightarrow>
   ((nat \<times> node_id list) \<times> 'w) option" where
  "write_all write1 [] acks unreachable w = Some ((acks, unreachable), w)"
| "write_all write1 (replica # replicas) acks unreachable w =
     (case write1 replica w of
        None \<Rightarrow> None
      | Some (Inr True, w) \<Rightarrow> write_all write1 replicas (acks + 1) unreachable w
      | Some (Inr False, w) \<Rightarrow> write_all write1 replicas acks (unreachable @ [fst replica]) w
      | Some (Inl ConnError, w) \<Rightarrow> write_all write1 replicas acks (unreachable @ [fst replica]) w)"

definition hint_for :: "point_op \<Rightarrow> node_id \<Rightarrow> hint" where
  "hint_for p target = \<lparr>target_node = target, hint_collection = po_collection p, hint_shard_idx = po_shard_idx p,
     hint_op = (if po_op p = OP_DELETE then Delete else Upsert), hint_hlc = po_hlc p, hint_id = po_id p,
     hint_vector = po_vector p, hint_payload = po_payload p\<rparr>"

fun buffer_hints :: "(bytes \<Rightarrow> u32) \<Rightarrow> hint list \<Rightarrow> os_file \<Rightarrow> (io_error + unit) \<times> os_file" where
  "buffer_hints crc [] f = (Inr (), f)"
| "buffer_hints crc (h # hs) f = on_ok (buffer_hint crc h f) (\<lambda>_ f. buffer_hints crc hs f)"

definition on_hints :: "(os_file \<Rightarrow> (io_error + 'a) \<times> os_file) \<Rightarrow> node \<Rightarrow> ((router_error + 'a) \<times> node) option" where
  "on_hints act nd = (case act (nd_hint_log nd) of (r, f) \<Rightarrow> Some (map_sum RHint id r, nd\<lparr>nd_hint_log := f\<rparr>))"

definition replicate_write ::
  "net \<Rightarrow> node_id \<Rightarrow> meta_state \<Rightarrow> collection_schema \<Rightarrow> point_op \<Rightarrow> consistency \<Rightarrow> world \<Rightarrow> ((router_error + unit) \<times> world) option" where
  "replicate_write N me meta schema p cons w =
     (let c = po_collection p; i = po_shard_idx p; replicas = replicas_with_addrs (nt_hash N) meta c i in
      if replicas = [] then Some (Inl (RNoReplica c i), w)
      else let need_acks = count cons (length replicas) in
      case write_all (write_one_replica N me schema p) replicas 0 [] w of
        None \<Rightarrow> None
      | Some ((acks, unreachable), w) \<Rightarrow>
          and_then (on_node me (on_hints (buffer_hints (e_crc (nt_env N)) (map (hint_for p) unreachable))) w) (\<lambda>_ w.
          Some (if acks \<ge> need_acks then Inr () else Inl (RWriteQuorum c i need_acks acks), w)))"

text \<open>\<open>state.clock.now()\<close>.\<close>

definition stamp :: "node_id \<Rightarrow> world \<Rightarrow> hlc \<times> world" where
  "stamp me w = (case next_time w of (t, w) \<Rightarrow> case clock_now t (nd_clock (w_nodes w me)) of (h, ck) \<Rightarrow>
     (h, w\<lparr>w_nodes := (w_nodes w)(me := (w_nodes w me)\<lparr>nd_clock := ck\<rparr>)\<rparr>))"

fun upsert_points ::
  "net \<Rightarrow> node_id \<Rightarrow> str \<Rightarrow> consistency \<Rightarrow> meta_state \<Rightarrow> collection_schema \<Rightarrow> u64 \<Rightarrow> (u64 \<times> vec \<times> bytes) list \<Rightarrow> world \<Rightarrow>
   ((router_error + u64) \<times> world) option" where
  "upsert_points N me c cons meta schema accepted [] w = Some (Inr accepted, w)"
| "upsert_points N me c cons meta schema accepted ((j, v, pl) # points) w =
     (let dim = unat (cs_dim schema) in
      if length v \<noteq> dim then Some (Inl (RDimMismatch dim (length v)), w)
      else case shard_for_id (nt_hash N) j (cs_shard_count schema) of
        None \<Rightarrow> None
      | Some shard_idx \<Rightarrow>
          (case stamp me w of (h, w) \<Rightarrow>
           and_then (replicate_write N me meta schema
               \<lparr>po_collection = c, po_shard_idx = shard_idx, po_op = OP_UPSERT, po_id = j, po_hlc = h, po_vector = v, po_payload = pl\<rparr> cons w)
             (\<lambda>_ w. upsert_points N me c cons meta schema (accepted + 1) points w)))"

definition coordinate_upsert ::
  "net \<Rightarrow> node_id \<Rightarrow> str \<Rightarrow> (u64 \<times> vec \<times> bytes) list \<Rightarrow> consistency \<Rightarrow> world \<Rightarrow> ((router_error + u64) \<times> world) option" where
  "coordinate_upsert N me c points cons w =
     and_then (schema_of me c w) (\<lambda>(meta, schema) w. upsert_points N me c cons meta schema 0 points w)"

fun delete_points ::
  "net \<Rightarrow> node_id \<Rightarrow> str \<Rightarrow> consistency \<Rightarrow> meta_state \<Rightarrow> collection_schema \<Rightarrow> u64 \<Rightarrow> u64 list \<Rightarrow> world \<Rightarrow>
   ((router_error + u64) \<times> world) option" where
  "delete_points N me c cons meta schema n [] w = Some (Inr n, w)"
| "delete_points N me c cons meta schema n (j # ids) w =
     (case shard_for_id (nt_hash N) j (cs_shard_count schema) of
        None \<Rightarrow> None
      | Some shard_idx \<Rightarrow>
          (case stamp me w of (h, w) \<Rightarrow>
           and_then (replicate_write N me meta schema
               \<lparr>po_collection = c, po_shard_idx = shard_idx, po_op = OP_DELETE, po_id = j, po_hlc = h, po_vector = [], po_payload = []\<rparr> cons w)
             (\<lambda>_ w. delete_points N me c cons meta schema (n + 1) ids w)))"

definition coordinate_delete ::
  "net \<Rightarrow> node_id \<Rightarrow> str \<Rightarrow> u64 list \<Rightarrow> consistency \<Rightarrow> world \<Rightarrow> ((router_error + u64) \<times> world) option" where
  "coordinate_delete N me c ids cons w =
     and_then (schema_of me c w) (\<lambda>(meta, schema) w. delete_points N me c cons meta schema 0 ids w)"

section \<open>Reads\<close>

definition stored_of :: "replica_point \<Rightarrow> stored_point" where
  "stored_of p = \<lparr>sp_id = rp_id p, sp_hlc = hlc_unpack (rp_hlc p), sp_tombstone = rp_tombstone p, sp_vector = rp_vector p,
     sp_payload = rp_payload p\<rparr>"

definition read_one_replica ::
  "net \<Rightarrow> node_id \<Rightarrow> collection_schema \<Rightarrow> str \<Rightarrow> u32 \<Rightarrow> u64 \<Rightarrow> node_id \<times> str \<Rightarrow> world \<Rightarrow> ((conn_error + stored_point option) \<times> world) option" where
  "read_one_replica N me schema c i j replica w =
     (if fst replica = me then
        map_option (\<lambda>(r, w). (case r of Inr p \<Rightarrow> Inr p | Inl _ \<Rightarrow> Inl ConnError, w))
          (on_node me (on_shards (get_versioned (nt_env N) (sref_of c schema i) j)) w)
      else and_then (rpc N (snd replica) (replica_get (nt_env N) \<lparr>gq_collection = c, gq_shard_idx = i, gq_ids = [j]\<rparr>) w)
        (\<lambda>points w. Some (Inr (case points of [] \<Rightarrow> None | p # _ \<Rightarrow> Some (stored_of p)), w)))"

type_synonym reply = "node_id \<times> str \<times> stored_point option"

fun read_all ::
  "(node_id \<times> str \<Rightarrow> 'w \<Rightarrow> ((conn_error + stored_point option) \<times> 'w) option) \<Rightarrow> (node_id \<times> str) list \<Rightarrow> reply list \<Rightarrow> 'w \<Rightarrow>
   (reply list \<times> 'w) option" where
  "read_all read1 [] responses w = Some (responses, w)"
| "read_all read1 (replica # replicas) responses w =
     (case read1 replica w of
        None \<Rightarrow> None
      | Some (Inr p, w) \<Rightarrow> read_all read1 replicas (responses @ [(fst replica, snd replica, p)]) w
      | Some (Inl ConnError, w) \<Rightarrow> read_all read1 replicas responses w)"

text \<open>\<open>max_by_key\<close> returns the last of several maxima.\<close>

fun max_by_hlc :: "stored_point list \<Rightarrow> stored_point option" where
  "max_by_hlc [] = None"
| "max_by_hlc (p # ps) = (case max_by_hlc ps of Some q \<Rightarrow> if sp_hlc p > sp_hlc q then Some p else Some q | None \<Rightarrow> Some p)"

definition behind :: "stored_point \<Rightarrow> reply \<Rightarrow> bool" where
  "behind winner reply = (case snd (snd reply) of Some sp \<Rightarrow> sp_hlc sp < sp_hlc winner | None \<Rightarrow> True)"

fun repair_local :: "net \<Rightarrow> node_id \<Rightarrow> shard_ref \<Rightarrow> stored_point \<Rightarrow> 'a list \<Rightarrow> world \<Rightarrow> world option" where
  "repair_local N me sref winner [] w = Some w"
| "repair_local N me sref winner (_ # stale) w =
     (case on_node me (on_shards (store_write (nt_env N) sref (sp_tombstone winner) (sp_hlc winner) (sp_id winner)
              (sp_vector winner) (sp_payload winner))) w of
        None \<Rightarrow> None
      | Some (_, w) \<Rightarrow> repair_local N me sref winner stale w)"

text \<open>The local replica is repaired at once, the pushes to the others are spawned as a task.\<close>

definition spawn_read_repair ::
  "net \<Rightarrow> node_id \<Rightarrow> str \<Rightarrow> u32 \<Rightarrow> collection_schema \<Rightarrow> reply list \<Rightarrow> stored_point \<Rightarrow> world \<Rightarrow> world option" where
  "spawn_read_repair N me c i schema responses winner w =
     (let stale = filter (behind winner) responses in
      if stale = [] then Some w
      else case repair_local N me (sref_of c schema i) winner (filter (\<lambda>r. fst r = me) stale) w of
        None \<Rightarrow> None
      | Some w \<Rightarrow>
          let remote = filter (\<lambda>r. fst r \<noteq> me) stale in
          if remote = [] then Some w
          else Some (w\<lparr>w_spawned := w_spawned w @
            [(map (fst \<circ> snd) remote,
              \<lparr>wq_collection = c, wq_shard_idx = i, wq_op = (if sp_tombstone winner then OP_DELETE else OP_UPSERT),
               wq_id = sp_id winner, wq_hlc = hlc_pack (sp_hlc winner), wq_vector = sp_vector winner, wq_payload = sp_payload winner\<rparr>)]\<rparr>))"

text \<open>A spawned task: push to each address, ignoring the results.\<close>

fun repair_task :: "net \<Rightarrow> str list \<Rightarrow> write_req \<Rightarrow> world \<Rightarrow> world option" where
  "repair_task N [] req w = Some w"
| "repair_task N (addr # addrs) req w =
     (case rpc N addr (replica_write (nt_env N) req) w of None \<Rightarrow> None | Some (_, w) \<Rightarrow> repair_task N addrs req w)"

fun get_ids ::
  "net \<Rightarrow> node_id \<Rightarrow> str \<Rightarrow> consistency \<Rightarrow> meta_state \<Rightarrow> collection_schema \<Rightarrow> (u64 \<times> vec) list \<Rightarrow> u64 list \<Rightarrow> world \<Rightarrow>
   ((router_error + (u64 \<times> vec) list) \<times> world) option" where
  "get_ids N me c cons meta schema out [] w = Some (Inr out, w)"
| "get_ids N me c cons meta schema out (j # ids) w =
     (case shard_for_id (nt_hash N) j (cs_shard_count schema) of
        None \<Rightarrow> None
      | Some i \<Rightarrow>
          let replicas = replicas_with_addrs (nt_hash N) meta c i in
          if replicas = [] then Some (Inl (RNoReplica c i), w)
          else let r = count cons (length replicas) in
          (case read_all (read_one_replica N me schema c i j) replicas [] w of
             None \<Rightarrow> None
           | Some (responses, w) \<Rightarrow>
               if length responses < r then Some (Inl (RReadQuorum c i r (length responses)), w)
               else (case max_by_hlc (List.map_filter (snd \<circ> snd) responses) of
                  None \<Rightarrow> get_ids N me c cons meta schema out ids w
                | Some win \<Rightarrow>
                    (case spawn_read_repair N me c i schema responses win w of
                       None \<Rightarrow> None
                     | Some w \<Rightarrow> get_ids N me c cons meta schema
                         (if sp_tombstone win then out else out @ [(sp_id win, sp_vector win)]) ids w))))"

definition coordinate_get ::
  "net \<Rightarrow> node_id \<Rightarrow> str \<Rightarrow> u64 list \<Rightarrow> consistency \<Rightarrow> world \<Rightarrow> ((router_error + (u64 \<times> vec) list) \<times> world) option" where
  "coordinate_get N me c ids cons w =
     and_then (schema_of me c w) (\<lambda>(meta, schema) w. get_ids N me c cons meta schema [] ids w)"

section \<open>Search\<close>

definition search_one_replica ::
  "net \<Rightarrow> node_id \<Rightarrow> collection_schema \<Rightarrow> str \<Rightarrow> u32 \<Rightarrow> vec \<Rightarrow> nat \<Rightarrow> nat \<Rightarrow> node_id \<times> str \<Rightarrow> world \<Rightarrow>
   ((conn_error + (u64 \<times> f32) list) \<times> world) option" where
  "search_one_replica N me schema c i q k ef replica w =
     (if fst replica = me then
        map_option (\<lambda>(r, w). (case r of Inr hits \<Rightarrow> Inr hits | Inl _ \<Rightarrow> Inl ConnError, w))
          (on_node me (on_shards (search_shard (nt_env N) (sref_of c schema i) q k ef)) w)
      else and_then (rpc N (snd replica) (replica_search (nt_env N)
          \<lparr>sq_collection = c, sq_shard_idx = i, sq_vector = q, sq_k = of_nat k, sq_ef_search = of_nat ef\<rparr>) w)
        (\<lambda>results w. Some (Inr (map (\<lambda>r. (rs_id r, rs_score r)) results), w)))"

fun first_answer ::
  "(node_id \<times> str \<Rightarrow> world \<Rightarrow> ((conn_error + 'a) \<times> world) option) \<Rightarrow> (node_id \<times> str) list \<Rightarrow> world \<Rightarrow> ('a option \<times> world) option" where
  "first_answer ask [] w = Some (None, w)"
| "first_answer ask (replica # replicas) w =
     (case ask replica w of
        None \<Rightarrow> None
      | Some (Inr a, w) \<Rightarrow> Some (Some a, w)
      | Some (Inl ConnError, w) \<Rightarrow> first_answer ask replicas w)"

definition search_order :: "hash_fn \<Rightarrow> meta_state \<Rightarrow> str \<Rightarrow> u32 \<Rightarrow> (node_id \<times> str) list" where
  "search_order X meta c i =
     (let active = active_replicas_with_addrs X meta c i; active_ids = map fst active in
      active @ filter (\<lambda>(n, _). n \<notin> set active_ids) (replicas_with_addrs X meta c i))"

fun search_shards ::
  "net \<Rightarrow> node_id \<Rightarrow> str \<Rightarrow> vec \<Rightarrow> nat \<Rightarrow> nat \<Rightarrow> meta_state \<Rightarrow> collection_schema \<Rightarrow> nat list \<Rightarrow> (u64 \<times> f32) list \<Rightarrow> world \<Rightarrow>
   ((router_error + (u64 \<times> f32) list) \<times> world) option" where
  "search_shards N me c q k ef meta schema [] merged w = Some (Inr merged, w)"
| "search_shards N me c q k ef meta schema (s # ss) merged w =
     (let i = of_nat s :: u32 in
      if replicas_with_addrs (nt_hash N) meta c i = [] then Some (Inl (RNoReplica c i), w)
      else case first_answer (search_one_replica N me schema c i q k ef) (search_order (nt_hash N) meta c i) w of
        None \<Rightarrow> None
      | Some (None, w) \<Rightarrow> Some (Inl (RNoReplica c i), w)
      | Some (Some hits, w) \<Rightarrow> search_shards N me c q k ef meta schema ss (merged @ hits) w)"

definition coordinate_search ::
  "net \<Rightarrow> node_id \<Rightarrow> str \<Rightarrow> vec \<Rightarrow> nat \<Rightarrow> nat \<Rightarrow> world \<Rightarrow> ((router_error + (u64 \<times> f32) list) \<times> world) option" where
  "coordinate_search N me c q k ef w =
     and_then (schema_of me c w) (\<lambda>(meta, schema) w.
       let dim = unat (cs_dim schema) in
       if length q \<noteq> dim then Some (Inl (RDimMismatch dim (length q)), w)
       else and_then (search_shards N me c q k ef meta schema [0..<unat (cs_shard_count schema)] [] w)
         (\<lambda>merged w. Some (Inr (take k (sort_by score_le merged)), w)))"

section \<open>Hint replay\<close>

definition request_of_hint :: "hint \<Rightarrow> write_req" where
  "request_of_hint h = \<lparr>wq_collection = hint_collection h, wq_shard_idx = hint_shard_idx h,
     wq_op = (case hint_op h of Delete \<Rightarrow> OP_DELETE | Upsert \<Rightarrow> OP_UPSERT), wq_id = hint_id h,
     wq_hlc = hlc_pack (hint_hlc h), wq_vector = hint_vector h, wq_payload = hint_payload h\<rparr>"

fun push_hints ::
  "net \<Rightarrow> meta_state \<Rightarrow> hint list \<Rightarrow> hint list \<Rightarrow> nat \<Rightarrow> world \<Rightarrow> ((hint list \<times> nat) \<times> world) option" where
  "push_hints N meta [] keep replayed w = Some ((keep, replayed), w)"
| "push_hints N meta (h # hs) keep replayed w =
     (case map_of (ms_nodes meta) (target_node h) of
        None \<Rightarrow> push_hints N meta hs (keep @ [h]) replayed w
      | Some addr \<Rightarrow>
          (case rpc N addr (replica_write (nt_env N) (request_of_hint h)) w of
             None \<Rightarrow> None
           | Some (Inr _, w) \<Rightarrow> push_hints N meta hs keep (replayed + 1) w
           | Some (Inl _, w) \<Rightarrow> push_hints N meta hs (keep @ [h]) replayed w))"

definition replay_hints :: "net \<Rightarrow> node_id \<Rightarrow> world \<Rightarrow> ((router_error + nat) \<times> world) option" where
  "replay_hints N me w =
     and_then (on_node me (on_hints (read_all_hints (e_crc (nt_env N)))) w) (\<lambda>hints w.
     if hints = [] then Some (Inr 0, w)
     else let w = snd (next_event w); meta = nd_cluster (w_nodes w me) in
     case push_hints N meta hints [] 0 w of
       None \<Rightarrow> None
     | Some ((keep, replayed), w) \<Rightarrow>
         and_then (on_node me (on_hints (rewrite_hints (e_crc (nt_env N)) keep)) w) (\<lambda>_ w. Some (Inr replayed, w)))"

section \<open>Shard transfer\<close>

definition observe :: "node_id \<Rightarrow> hlc \<Rightarrow> world \<Rightarrow> world" where
  "observe me h w = (case next_time w of (t, w) \<Rightarrow>
     w\<lparr>w_nodes := (w_nodes w)(me := (w_nodes w me)\<lparr>nd_clock := snd (clock_update t h (nd_clock (w_nodes w me)))\<rparr>)\<rparr>)"

fun apply_pulled ::
  "net \<Rightarrow> node_id \<Rightarrow> shard_ref \<Rightarrow> nat \<Rightarrow> shard_record list \<Rightarrow> world \<Rightarrow> ((router_error + nat) \<times> world) option" where
  "apply_pulled N me sref applied [] w = Some (Inr applied, w)"
| "apply_pulled N me sref applied (rec # recs) w =
     (let h = hlc_unpack (rr_hlc rec); w = observe me h w in
      and_then (on_node me (on_shards (store_write (nt_env N) sref (rr_tombstone rec) h (rr_id rec) (rr_vector rec) (rr_payload rec))) w)
        (\<lambda>outcome w. apply_pulled N me sref (if outcome = Applied then applied + 1 else applied) recs w))"

definition pull_shard ::
  "net \<Rightarrow> node_id \<Rightarrow> str \<Rightarrow> str \<Rightarrow> u32 \<Rightarrow> collection_schema \<Rightarrow> world \<Rightarrow> ((router_error + nat) \<times> world) option" where
  "pull_shard N me source_addr c i schema w =
     (case rpc N source_addr (stream_shard (nt_env N) \<lparr>tq_collection = c, tq_shard_idx = i\<rparr>) w of
        None \<Rightarrow> None
      | Some (Inl _, w) \<Rightarrow> Some (Inl (RNoReplica c i), w)
      | Some (Inr records, w) \<Rightarrow> apply_pulled N me (sref_of c schema i) 0 records w)"

end
