(* ===== verification/Node_Inv.thy ===== *)
theory Node_Inv
  imports Router
begin

text \<open>
  What a running node keeps whatever its disk and its peers do: every open shard holds the
  last-writer-wins state of some log, every closed one can be reopened to it, and no operation
  lowers the stamp stored for a point.  Unlike the invariant of a store that has seen no write
  error, this one survives failed writes (the log may be torn, the image in memory is not).
\<close>

section \<open>Versions\<close>

definition at_least :: "hlc \<Rightarrow> lww \<Rightarrow> u64 \<Rightarrow> bool" where
  "at_least h m i \<longleftrightarrow> (\<exists>g u. m i = Some (g, u) \<and> h \<le> g)"

text \<open>The log after a write of \<open>r\<close> was attempted: unchanged, or extended by \<open>r\<close> because no
  version as new was stored.\<close>

definition wrote :: "wal_record \<Rightarrow> wal_record list \<Rightarrow> wal_record list \<Rightarrow> bool" where
  "wrote r rs rs' \<longleftrightarrow> rs' = rs \<or> rs' = rs @ [r] \<and> \<not> at_least (rec_hlc r) (lww_log rs) (rec_id r)"

lemma wrote_lww:
  assumes "wrote r rs rs'"
  shows "lww_log rs' i = lww_log rs i \<or>
    i = rec_id r \<and> lww_log rs' i = Some (rec_hlc r, rec_value r) \<and> \<not> at_least (rec_hlc r) (lww_log rs) i"
  using assms by (auto simp: wrote_def at_least_def lww_log_snoc lww_apply_def split: if_splits)

lemma wrote_grows: "wrote r rs rs' \<Longrightarrow> at_least h (lww_log rs) i \<Longrightarrow> at_least h (lww_log rs') i"
  using wrote_lww [of r rs rs' i] by (auto simp: at_least_def)

lemma wrote_length: "wrote r rs rs' \<Longrightarrow> length rs' \<le> Suc (length rs)"
  by (auto simp: wrote_def)

lemma wrote_refl [simp]: "wrote r rs rs"
  by (simp add: wrote_def)

section \<open>Stores\<close>

definition mem_ok :: "nat \<Rightarrow> wal_record list \<Rightarrow> shard \<Rightarrow> bool" where
  "mem_ok dim rs s \<longleftrightarrow> sh_dim s = dim \<and> image_ok dim rs (sh_index s) (sh_versions s)"

definition key_mem :: "env \<Rightarrow> nat \<Rightarrow> wal_record list \<Rightarrow> shard option \<Rightarrow> shard_disk \<Rightarrow> bool" where
  "key_mem E dim rs so d \<longleftrightarrow> 0 < dim \<and> (case so of Some s \<Rightarrow> mem_ok dim rs s | None \<Rightarrow> dir_inv E dim rs d)"

definition store_mem :: "env \<Rightarrow> (shard_key \<Rightarrow> nat) \<Rightarrow> (shard_key \<Rightarrow> wal_record list) \<Rightarrow> shard_store \<Rightarrow> bool" where
  "store_mem E D L st \<longleftrightarrow> (\<forall>k. key_mem E (D k) (L k) (st_shards st k) (st_dirs st k))"

lemma store_inv_mem: "store_inv E D L st \<Longrightarrow> store_mem E D L st"
proof -
  have "key_inv E dim rs so d \<Longrightarrow> key_mem E dim rs so d" for dim rs so d
    by (cases so) (auto simp: key_inv_def key_mem_def mem_ok_def dest: shard_invD(4))
  then show "store_inv E D L st \<Longrightarrow> store_mem E D L st" by (simp add: store_inv_def store_mem_def)
qed

lemma get_or_open_mem:
  assumes "store_mem E D L st" "k = \<lparr>sk_collection = c, sk_shard_idx = i\<rparr>" "dim = D k"
  shows "\<exists>r st'. get_or_open E c i dim m st = Some (r, st') \<and> store_mem E D L st' \<and>
    (\<forall>s. r = Inr s \<longrightarrow> st_shards st' k = Some s)"
proof (cases "st_shards st k")
  case (Some s)
  then show ?thesis using assms by (simp add: get_or_open_def)
next
  case None
  have all: "\<And>j. key_mem E (D j) (L j) (st_shards st j) (st_dirs st j)" using assms(1) by (simp add: store_mem_def)
  have I: "0 < D k" "dir_inv E (D k) (L k) (st_dirs st k)" using all [of k] None by (simp_all add: key_mem_def)
  obtain q d where x: "shard_open E (D k) m (st_snapshot_wal_mb st) (st_wal_batch_ms st) (st_dirs st k) = Some (q, d)"
      "open_result E (D k) (st_wal_batch_ms st) (L k) (q, d)"
    using shard_open_dir [OF I] by fastforce
  let ?so = "case q of Inl _ \<Rightarrow> None | Inr s \<Rightarrow> Some s"
  have "key_mem E (D k) (L k) ?so d"
    using x(2) I(1) by (cases q) (auto simp: open_result_def key_mem_def mem_ok_def dest: shard_invD(4))
  then have "store_mem E D L (st\<lparr>st_dirs := (st_dirs st)(k := d), st_shards := (st_shards st)(k := ?so)\<rparr>)"
    using all by (simp add: store_mem_def)
  moreover have "(st_shards st)(k := None) = st_shards st" using None by auto
  ultimately show ?thesis using None x(1) assms(2,3) by (cases q) (auto simp: get_or_open_def Let_def)
qed

text \<open>An operation on an open shard: what it returns when the result is Ok, and the log after.\<close>

definition ok_of :: "'e + 'a \<Rightarrow> 'a option" where
  "ok_of r = (case r of Inl _ \<Rightarrow> None | Inr a \<Rightarrow> Some a)"

lemma ok_of_simps [simp]: "ok_of (Inl e) = None" "ok_of (Inr a) = Some a" "ok_of (map_sum f id r) = ok_of r"
  by (simp_all add: ok_of_def split: sum.split)

lemma ok_of_Some [simp]: "ok_of r = Some a \<longleftrightarrow> r = Inr a"
  by (cases r) auto

lemma with_shard_mem:
  assumes "store_mem E D L st" "sr_dim r = D (key_of r)"
    and act: "\<And>s. mem_ok (D (key_of r)) (L (key_of r)) s \<Longrightarrow>
      \<exists>res s' rs'. act s = Some (res, s') \<and> mem_ok (D (key_of r)) rs' s' \<and> Q (ok_of res) rs'"
    and err: "Q None (L (key_of r))"
  shows "\<exists>res st' rs'. with_shard E r act st = Some (res, st') \<and> store_mem E D (L(key_of r := rs')) st' \<and> Q (ok_of res) rs'"
proof -
  have k: "key_of r = \<lparr>sk_collection = sr_collection r, sk_shard_idx = sr_shard_idx r\<rparr>" by (simp add: key_of_def)
  from get_or_open_mem [OF assms(1) k assms(2), of "sr_metric r"] obtain q st1 where
    o: "get_or_open E (sr_collection r) (sr_shard_idx r) (sr_dim r) (sr_metric r) st = Some (q, st1)" "store_mem E D L st1"
      "\<forall>s. q = Inr s \<longrightarrow> st_shards st1 (key_of r) = Some s" by blast
  show ?thesis
  proof (cases q)
    case (Inl e)
    then have "with_shard E r act st = Some (Inl e, st1)" using o(1) by (simp add: with_shard_def)
    then show ?thesis using o(2) err by (intro exI [of _ "Inl e"] exI [of _ st1] exI [of _ "L (key_of r)"]) simp
  next
    case (Inr s)
    have all: "\<And>j. key_mem E (D j) (L j) (st_shards st1 j) (st_dirs st1 j)" using o(2) by (simp add: store_mem_def)
    then have m: "mem_ok (D (key_of r)) (L (key_of r)) s" "0 < D (key_of r)"
      using all [of "key_of r"] o(3) Inr by (simp_all add: key_mem_def)
    from act [OF m(1)] obtain res s' rs' where a: "act s = Some (res, s')" "mem_ok (D (key_of r)) rs' s'" "Q (ok_of res) rs'" by blast
    have "store_mem E D (L(key_of r := rs')) (st1\<lparr>st_shards := (st_shards st1)(key_of r \<mapsto> s')\<rparr>)"
      using all a(2) m(2) by (simp add: store_mem_def key_mem_def)
    moreover have "with_shard E r act st = Some (map_sum StShard id res, st1\<lparr>st_shards := (st_shards st1)(key_of r \<mapsto> s')\<rparr>)"
      using o(1) Inr a(1) by (cases res) (simp_all add: with_shard_def)
    ultimately show ?thesis using a(3)
      by (intro exI [of _ "map_sum StShard id res"] exI [of _ "st1\<lparr>st_shards := (st_shards st1)(key_of r \<mapsto> s')\<rparr>"] exI [of _ rs']) simp
  qed
qed

section \<open>Writes to a shard, with any result\<close>

lemma maybe_snapshot_fields:
  assumes "maybe_snapshot E s = (r, s')"
  shows "sh_index s' = sh_index s \<and> sh_versions s' = sh_versions s \<and> sh_dim s' = sh_dim s"
  using assms by (auto simp: maybe_snapshot_def snapshot_now_def Let_def split: if_splits prod.splits sum.splits)

lemma commit_mem:
  assumes "mem_ok dim rs s" "act (sh_index s) = Some (Inr a, ix')"
    and "image_ok dim (rs @ [r]) ix' (AList.update (rec_id r) \<lparr>pv_hlc = rec_hlc r, pv_tombstone = tomb\<rparr> (sh_versions s))"
  shows "\<exists>res s'. commit E r act tomb s = Some (res, s') \<and>
    (isl res \<and> mem_ok dim rs s' \<or> mem_ok dim (rs @ [r]) s')"
proof -
  obtain q w where q: "wal_append (e_crc E) r (sh_wal s) = (q, w)" by fastforce
  show ?thesis
  proof (cases q)
    case (Inl e)
    then show ?thesis using q assms(1) by (simp add: commit_def mem_ok_def)
  next
    case (Inr n)
    let ?s = "s\<lparr>sh_wal := w, sh_index := ix',
       sh_versions := AList.update (rec_id r) \<lparr>pv_hlc = rec_hlc r, pv_tombstone = tomb\<rparr> (sh_versions s)\<rparr>"
    obtain q2 s2 where q2: "maybe_snapshot E ?s = (q2, s2)" by fastforce
    have "mem_ok dim (rs @ [r]) s2" using maybe_snapshot_fields [OF q2] assms(1,3) by (simp add: mem_ok_def)
    then show ?thesis using q Inr assms(2) q2 by (cases q2) (auto simp: commit_def)
  qed
qed

definition write_record :: "bool \<Rightarrow> hlc \<Rightarrow> u64 \<Rightarrow> vec \<Rightarrow> bytes \<Rightarrow> wal_record" where
  "write_record del h i v pl = (if del then wal_record_delete h i else wal_record_upsert h i v pl)"

lemma write_record_sel [simp]:
  "rec_id (write_record del h i v pl) = i" "rec_hlc (write_record del h i v pl) = h"
  "rec_value (write_record del h i v pl) = (if del then None else Some v)"
  by (simp_all add: write_record_def wal_record_delete_def wal_record_upsert_def rec_value_def)

text \<open>What a write returns and leaves.\<close>

definition write_post :: "wal_record \<Rightarrow> wal_record list \<Rightarrow> 'a option \<Rightarrow> wal_record list \<Rightarrow> bool" where
  "write_post r rs res rs' \<longleftrightarrow> wrote r rs rs' \<and> (res \<noteq> None \<longrightarrow> at_least (rec_hlc r) (lww_log rs') (rec_id r))"

lemma stale_at_least:
  assumes "mem_ok dim rs s"
  shows "is_stale s i h \<longleftrightarrow> at_least h (lww_log rs) i"
proof -
  have "image_ok dim rs (sh_index s) (sh_versions s)" using assms by (simp add: mem_ok_def)
  from stale_image [where i = i and P = "\<lambda>g. h \<le> g", OF this] show ?thesis
    by (auto simp: is_stale_def at_least_def split: option.splits)
qed

lemma write_appended: "\<not> at_least (rec_hlc r) (lww_log rs) (rec_id r) \<Longrightarrow> write_post r rs res (rs @ [r])"
  by (auto simp: write_post_def wrote_def at_least_def lww_log_snoc lww_apply_def split: option.splits)

lemma committed_mem:
  assumes m: "mem_ok dim rs s" and fresh: "\<not> at_least (rec_hlc r) (lww_log rs) (rec_id r)"
    and act: "act (sh_index s) = Some (Inr a, ix')"
    and img: "image_ok dim (rs @ [r]) ix' (AList.update (rec_id r) \<lparr>pv_hlc = rec_hlc r, pv_tombstone = tomb\<rparr> (sh_versions s))"
  shows "\<exists>res s' rs'. map_option (\<lambda>x. on_ok x (\<lambda>_ s. (Inr Applied, s))) (commit E r act tomb s) = Some (res, s') \<and>
    mem_ok dim rs' s' \<and> write_post r rs (ok_of res) rs'"
proof -
  from commit_mem [where act = act, OF m act img] obtain res s' where
    c: "commit E r act tomb s = Some (res, s')" "isl res \<and> mem_ok dim rs s' \<or> mem_ok dim (rs @ [r]) s'" by blast
  have none: "write_post r rs None rs" by (simp add: write_post_def)
  show ?thesis
  proof (cases res)
    case (Inl e)
    then show ?thesis using c none write_appended [OF fresh] by auto
  next
    case (Inr b)
    then show ?thesis using c write_appended [OF fresh] by auto
  qed
qed

lemma upsert_versioned_mem:
  assumes "mem_ok dim rs s" "length v = dim" "length rs < 2 ^ 32"
  shows "\<exists>res s' rs'. upsert_versioned E h i v pl s = Some (res, s') \<and> mem_ok dim rs' s' \<and>
    write_post (wal_record_upsert h i v pl) rs (ok_of res) rs'"
proof (cases "is_stale s i h")
  case True
  then have "write_post (wal_record_upsert h i v pl) rs (Some Stale) rs"
    using stale_at_least [OF assms(1)] by (simp add: write_post_def wal_record_upsert_def)
  with True show ?thesis using assms(1,2)
    by (intro exI [of _ "Inr Stale"] exI [of _ s] exI [of _ rs]) (simp add: upsert_versioned_def mem_ok_def)
next
  case False
  let ?r = "wal_record_upsert h i v pl"
  have sel: "rec_id ?r = i" "rec_hlc ?r = h" by (simp_all add: wal_record_upsert_def)
  have dim: "sh_dim s = dim" "image_ok (sh_dim s) rs (sh_index s) (sh_versions s)" using assms(1) by (auto simp: mem_ok_def)
  obtain ix' where ix': "hnsw_insert (e_K E) (e_lv E) i v (sh_index s) = Some (Inr (), ix')"
      "image_ok (sh_dim s) (rs @ [?r]) ix' (AList.update i \<lparr>pv_hlc = h, pv_tombstone = False\<rparr> (sh_versions s))"
    using upsert_image [OF dim(2) False _ assms(3), of v "e_K E" "e_lv E" pl] assms(2) dim(1) by auto
  have "\<not> at_least (rec_hlc ?r) (lww_log rs) (rec_id ?r)" using False stale_at_least [OF assms(1)] by (simp add: sel)
  from committed_mem [where act = "hnsw_insert (e_K E) (e_lv E) i v" and tomb = False, OF assms(1) this ix'(1)] ix'(2) False dim(1) assms(2)
  show ?thesis by (simp add: upsert_versioned_def sel)
qed

lemma delete_versioned_mem:
  assumes "mem_ok dim rs s"
  shows "\<exists>res s' rs'. delete_versioned E h i s = Some (res, s') \<and> mem_ok dim rs' s' \<and>
    write_post (wal_record_delete h i) rs (ok_of res) rs'"
proof (cases "is_stale s i h")
  case True
  then have "write_post (wal_record_delete h i) rs (Some Stale) rs"
    using stale_at_least [OF assms(1)] by (simp add: write_post_def wal_record_delete_def)
  with True show ?thesis using assms(1)
    by (intro exI [of _ "Inr Stale"] exI [of _ s] exI [of _ rs]) (simp add: delete_versioned_def)
next
  case False
  let ?r = "wal_record_delete h i"
  have sel: "rec_id ?r = i" "rec_hlc ?r = h" by (simp_all add: wal_record_delete_def)
  have dim: "sh_dim s = dim" "image_ok (sh_dim s) rs (sh_index s) (sh_versions s)" using assms(1) by (auto simp: mem_ok_def)
  obtain ix' b where ix': "index_delete i (sh_index s) = Some (Inr b, ix')"
      "image_ok (sh_dim s) (rs @ [?r]) ix' (AList.update i \<lparr>pv_hlc = h, pv_tombstone = True\<rparr> (sh_versions s))"
    using delete_image [OF dim(2) False] by blast
  have "\<not> at_least (rec_hlc ?r) (lww_log rs) (rec_id ?r)" using False stale_at_least [OF assms(1)] by (simp add: sel)
  from committed_mem [where act = "index_delete i" and tomb = True, OF assms(1) this ix'(1)] ix'(2) False dim(1)
  show ?thesis by (simp add: delete_versioned_def sel)
qed

lemma store_write_mem:
  assumes "store_mem E D L st" "sr_dim r = D (key_of r)" "length (L (key_of r)) < 2 ^ 32"
  shows "\<exists>res st' rs'. store_write E r del h i v pl st = Some (res, st') \<and> store_mem E D (L(key_of r := rs')) st' \<and>
    write_post (write_record del h i v pl) (L (key_of r)) (ok_of res) rs'"
proof -
  let ?Q = "write_post (write_record del h i v pl) (L (key_of r)) :: write_outcome option \<Rightarrow> _"
  have err: "?Q None (L (key_of r))" by (simp add: write_post_def)
  consider (dim) "\<not> del" "length v \<noteq> sr_dim r" | (upsert) "\<not> del" "length v = sr_dim r" | (delete) del by blast
  then show ?thesis
  proof cases
    case dim
    then show ?thesis using assms(1) err
      by (intro exI [of _ "Inl (StDim (sr_dim r) (length v))"] exI [of _ st] exI [of _ "L (key_of r)"]) (simp add: store_write_def store_upsert_def)
  next
    case upsert
    have "\<exists>res s' rs'. upsert_versioned E h i v pl s = Some (res, s') \<and> mem_ok (D (key_of r)) rs' s' \<and> ?Q (ok_of res) rs'"
      if "mem_ok (D (key_of r)) (L (key_of r)) s" for s
      using upsert_versioned_mem [OF that _ assms(3), of v E h i pl] upsert assms(2) by (simp add: write_record_def)
    from with_shard_mem [OF assms(1,2) this err] upsert show ?thesis by (simp add: store_write_def store_upsert_def)
  next
    case delete
    have "\<exists>res s' rs'. delete_versioned E h i s = Some (res, s') \<and> mem_ok (D (key_of r)) rs' s' \<and> ?Q (ok_of res) rs'"
      if "mem_ok (D (key_of r)) (L (key_of r)) s" for s
      using delete_versioned_mem [OF that, of E h i] delete by (simp add: write_record_def)
    from with_shard_mem [OF assms(1,2) this err] delete show ?thesis by (simp add: store_write_def store_delete_def)
  qed
qed

section \<open>Reads of a shard\<close>

lemma with_shard_mem_read:
  assumes "store_mem E D L st" "sr_dim r = D (key_of r)"
    and act: "\<And>s. mem_ok (D (key_of r)) (L (key_of r)) s \<Longrightarrow> \<exists>res. act s = Some (res, s) \<and> Q (ok_of res)"
    and err: "Q None"
  shows "\<exists>res st'. with_shard E r act st = Some (res, st') \<and> store_mem E D L st' \<and> Q (ok_of res)"
proof -
  have "\<exists>res st' rs'. with_shard E r act st = Some (res, st') \<and> store_mem E D (L(key_of r := rs')) st' \<and> (rs' = L (key_of r) \<and> Q (ok_of res))"
    by (rule with_shard_mem [OF assms(1,2)]) (use act err in blast)+
  then show ?thesis by auto
qed

lemma get_versioned_mem:
  assumes "store_mem E D L st" "sr_dim r = D (key_of r)"
  shows "\<exists>res st'. get_versioned E r i st = Some (res, st') \<and> store_mem E D L st' \<and>
    (\<forall>p. ok_of res = Some p \<longrightarrow> p = map_option (point_of i) (lww_log (L (key_of r)) i))"
  unfolding get_versioned_def
  by (rule with_shard_mem_read [OF assms]) (auto simp: mem_ok_def reading_def versioned_point_image)

lemma store_records_mem:
  assumes "store_mem E D L st" "sr_dim r = D (key_of r)"
  shows "\<exists>res st'. store_records E r st = Some (res, st') \<and> store_mem E D L st' \<and>
    (\<forall>rows. ok_of res = Some rows \<longrightarrow> distinct (map fst rows) \<and> (\<forall>i h tomb x. (i, h, tomb, x) \<in> set rows \<longleftrightarrow>
       (\<exists>v. lww_log (L (key_of r)) i = Some (h, v) \<and> tomb = (v = None) \<and> x = (case v of None \<Rightarrow> [] | Some x \<Rightarrow> x))))"
  unfolding store_records_def
proof (rule with_shard_mem_read [OF assms])
  fix s
  assume "mem_ok (D (key_of r)) (L (key_of r)) s"
  then have "image_ok (D (key_of r)) (L (key_of r)) (sh_index s) (sh_versions s)" by (simp add: mem_ok_def)
  from image_ok_records [OF this] show "\<exists>res. reading shard_records s = Some (res, s) \<and>
      (\<forall>rows. ok_of res = Some rows \<longrightarrow> distinct (map fst rows) \<and> (\<forall>i h tomb x. (i, h, tomb, x) \<in> set rows \<longleftrightarrow>
       (\<exists>v. lww_log (L (key_of r)) i = Some (h, v) \<and> tomb = (v = None) \<and> x = (case v of None \<Rightarrow> [] | Some x \<Rightarrow> x))))"
    by (auto simp: reading_def)
qed simp

text \<open>A hit of a search: a live point with the distance of its vector in the shard's metric.\<close>

definition hit_of :: "env \<Rightarrow> vec \<Rightarrow> lww \<Rightarrow> u64 \<times> f32 \<Rightarrow> bool" where
  "hit_of E q m hit \<longleftrightarrow> (\<exists>g x metric. m (fst hit) = Some (g, Some x) \<and> snd hit = e_K E metric x q)"

lemma search_shard_mem:
  assumes "store_mem E D L st" "sr_dim r = D (key_of r)"
  shows "\<exists>res st'. search_shard E r q k ef st = Some (res, st') \<and> store_mem E D L st' \<and>
    (\<forall>hits. ok_of res = Some hits \<longrightarrow> length hits \<le> k \<and> distinct (map fst hits) \<and> list_all (hit_of E q (lww_log (L (key_of r)))) hits)"
  unfolding search_shard_def
proof (rule with_shard_mem_read [OF assms])
  fix s
  assume "mem_ok (D (key_of r)) (L (key_of r)) s"
  then have I: "hnsw_inv (sh_index s)" "live_agree (sh_index s) (sh_versions s)" "image (sh_index s) (sh_versions s) = lww_log (L (key_of r))"
    by (auto simp: mem_ok_def dest: image_okD)
  show "\<exists>res. map_option (\<lambda>res. (res, s)) (shard_search E s q k ef) = Some (res, s) \<and> (\<forall>hits. ok_of res = Some hits \<longrightarrow>
      length hits \<le> k \<and> distinct (map fst hits) \<and> list_all (hit_of E q (lww_log (L (key_of r)))) hits)"
  proof (cases "length q = h_dim (sh_index s)")
    case True
    then obtain hits where h: "hnsw_search (e_K E) (sh_index s) q k ef = Some (Inr hits)"
        "hits_ok (\<lambda>q v. e_K E (h_metric (sh_index s)) v q) (hnsw_points (sh_index s)) (node_vector ` set (h_nodes (sh_index s))) q k hits"
      using hnsw_search_ok [OF I(1)] by blast
    have live: "\<exists>g. lww_log (L (key_of r)) j = Some (g, Some v)" if "hnsw_points (sh_index s) j = Some v" for j v
    proof -
      have "hnsw_points (sh_index s) j \<noteq> None" using that by simp
      then obtain pv where "map_of (sh_versions s) j = Some pv" "\<not> pv_tombstone pv" using I(2) unfolding live_agree_def by blast
      with that show ?thesis by (simp flip: I(3) add: image_def)
    qed
    have "list_all (hit_of E q (lww_log (L (key_of r)))) hits"
      using h(2) live by (fastforce simp: hits_ok_def hit_of_def list_all_iff)
    with h show ?thesis by (simp add: shard_search_def hits_ok_def)
  next
    case False
    then show ?thesis using hnsw_index.search_mismatch [OF I(1)] by (simp add: shard_search_def)
  qed
qed simp

section \<open>Nodes\<close>

text \<open>\<open>D\<close> gives the dimension of every shard, \<open>G\<close> the versions of every point that anyone has
  issued, \<open>L\<close> the logs; every shard has room for \<open>b\<close> more records.\<close>

type_synonym logs = "shard_key \<Rightarrow> wal_record list"
type_synonym issued = "shard_key \<Rightarrow> u64 \<Rightarrow> (hlc \<times> vec option) set"

definition node_ok :: "env \<Rightarrow> (shard_key \<Rightarrow> nat) \<Rightarrow> issued \<Rightarrow> nat \<Rightarrow> logs \<Rightarrow> node \<Rightarrow> bool" where
  "node_ok E D G b L nd \<longleftrightarrow>
     store_mem E D L (nd_shards nd) \<and> (\<forall>k. length (L k) + b \<le> 2 ^ 32) \<and>
     (\<forall>k i x. lww_log (L k) i = Some x \<longrightarrow> x \<in> G k i) \<and>
     (\<forall>c schema i. map_of (ms_collections (nd_cluster nd)) c = Some schema \<longrightarrow>
        D \<lparr>sk_collection = c, sk_shard_idx = i\<rparr> = unat (cs_dim schema))"

definition logs_grow :: "logs \<Rightarrow> logs \<Rightarrow> bool" where
  "logs_grow L L' \<longleftrightarrow> (\<forall>k i h. at_least h (lww_log (L k)) i \<longrightarrow> at_least h (lww_log (L' k)) i)"

lemma logs_grow_refl [simp]: "logs_grow L L"
  by (simp add: logs_grow_def)

lemma logs_grow_trans: "logs_grow L L' \<Longrightarrow> logs_grow L' L'' \<Longrightarrow> logs_grow L L''"
  by (simp add: logs_grow_def)

lemma node_ok_mono: "node_ok E D G b L nd \<Longrightarrow> b' \<le> b \<Longrightarrow> node_ok E D G b' L nd"
  unfolding node_ok_def by (meson add_left_mono order_trans)

lemma node_ok_fields:
  "nd_shards nd' = nd_shards nd \<Longrightarrow> nd_cluster nd' = nd_cluster nd \<Longrightarrow> node_ok E D G b L nd' = node_ok E D G b L nd"
  by (simp add: node_ok_def)

text \<open>The law of an operation on a node: it never panics, keeps the invariant using up
  \<open>cost\<close> records, relates the logs by \<open>R\<close>, and establishes \<open>Q\<close> when it returns Ok.\<close>

definition node_law ::
  "env \<Rightarrow> (shard_key \<Rightarrow> nat) \<Rightarrow> issued \<Rightarrow> nat \<Rightarrow> (logs \<Rightarrow> logs \<Rightarrow> bool) \<Rightarrow> ('a \<Rightarrow> logs \<Rightarrow> bool) \<Rightarrow>
   (node \<Rightarrow> (('e + 'a) \<times> node) option) \<Rightarrow> bool" where
  "node_law E D G cost R Q act \<longleftrightarrow> (\<forall>b L nd. node_ok E D G (b + cost) L nd \<longrightarrow>
     (\<exists>r nd' L'. act nd = Some (r, nd') \<and> node_ok E D G b L' nd' \<and> nd_cluster nd' = nd_cluster nd \<and> R L L' \<and>
        (\<forall>a. ok_of r = Some a \<longrightarrow> Q a L')))"

lemma node_lawD:
  assumes "node_law E D G cost R Q act" "node_ok E D G (b + cost) L nd"
  shows "\<exists>r nd' L'. act nd = Some (r, nd') \<and> node_ok E D G b L' nd' \<and> nd_cluster nd' = nd_cluster nd \<and> R L L' \<and> (\<forall>a. ok_of r = Some a \<longrightarrow> Q a L')"
  using assms by (auto simp: node_law_def)

lemma node_law_map:
  assumes "node_law E D G cost R Q act" "\<And>a L. Q a L \<Longrightarrow> Q' (f a) L"
  shows "node_law E D G cost R Q' (\<lambda>nd. and_then (act nd) (\<lambda>a nd. Some (Inr (f a), nd)))"
  unfolding node_law_def
proof (intro allI impI)
  fix b L nd
  assume "node_ok E D G (b + cost) L nd"
  from node_lawD [OF assms(1) this] obtain r nd' L' where
    "act nd = Some (r, nd')" "node_ok E D G b L' nd'" "nd_cluster nd' = nd_cluster nd" "R L L'" "\<forall>a. ok_of r = Some a \<longrightarrow> Q a L'" by blast
  with assms(2) show "\<exists>r nd' L'. and_then (act nd) (\<lambda>a nd. Some (Inr (f a), nd)) = Some (r, nd') \<and> node_ok E D G b L' nd' \<and> nd_cluster nd' = nd_cluster nd \<and> R L L' \<and>
      (\<forall>a. ok_of r = Some a \<longrightarrow> Q' a L')"
    by (cases r) (auto simp: and_then_def)
qed

lemma key_of_sref [simp]: "key_of (sref_of c schema i) = \<lparr>sk_collection = c, sk_shard_idx = i\<rparr>"
  "sr_dim (sref_of c schema i) = unat (cs_dim schema)"
  by (simp_all add: key_of_def sref_of_def)

lemma write_law:
  assumes "D \<lparr>sk_collection = c, sk_shard_idx = i\<rparr> = unat (cs_dim schema)"
    and "(h, if del then None else Some v) \<in> G \<lparr>sk_collection = c, sk_shard_idx = i\<rparr> j"
  shows "node_law E D G 1 logs_grow (\<lambda>_ L. at_least h (lww_log (L \<lparr>sk_collection = c, sk_shard_idx = i\<rparr>)) j)
    (on_shards (store_write E (sref_of c schema i) del h j v pl))"
  unfolding node_law_def
proof (intro allI impI)
  fix b L nd
  let ?k = "\<lparr>sk_collection = c, sk_shard_idx = i\<rparr>" and ?r = "write_record del h j v pl"
  assume ok: "node_ok E D G (b + 1) L nd"
  have I: "store_mem E D L (nd_shards nd)" "\<And>k. length (L k) + (b + 1) \<le> 2 ^ 32" "\<And>k i x. lww_log (L k) i = Some x \<Longrightarrow> x \<in> G k i"
    using ok by (auto simp: node_ok_def)
  have "length (L ?k) < 2 ^ 32" using I(2) [of ?k] by simp
  with store_write_mem [OF I(1), of "sref_of c schema i" del h j v pl] assms(1) obtain res st' rs' where
    s: "store_write E (sref_of c schema i) del h j v pl (nd_shards nd) = Some (res, st')" "store_mem E D (L(?k := rs')) st'"
      "write_post ?r (L ?k) (ok_of res) rs'" by auto
  have w: "wrote ?r (L ?k) rs'" "ok_of res \<noteq> None \<Longrightarrow> at_least h (lww_log rs') j" using s(3) by (simp_all add: write_post_def)
  have len: "length ((L(?k := rs')) k) + b \<le> 2 ^ 32" for k using I(2) [of k] wrote_length [OF w(1)] by auto
  have iss: "lww_log ((L(?k := rs')) k) i = Some x \<Longrightarrow> x \<in> G k i" for k i x
    using I(3) [of k i x] wrote_lww [OF w(1), of i] assms(2) by (cases "k = ?k") auto
  have ok': "node_ok E D G b (L(?k := rs')) (nd\<lparr>nd_shards := st'\<rparr>)" using ok s(2) len iss unfolding node_ok_def by simp
  have gr: "logs_grow L (L(?k := rs'))" using wrote_grows [OF w(1)] by (simp add: logs_grow_def)
  show "\<exists>r nd' L'. on_shards (store_write E (sref_of c schema i) del h j v pl) nd = Some (r, nd') \<and> node_ok E D G b L' nd' \<and> nd_cluster nd' = nd_cluster nd \<and>
      logs_grow L L' \<and> (\<forall>a. ok_of r = Some a \<longrightarrow> at_least h (lww_log (L' ?k)) j)"
    by (intro exI [of _ "map_sum RShard id res"] exI [of _ "nd\<lparr>nd_shards := st'\<rparr>"] exI [of _ "L(?k := rs')"])
      (use s(1) ok' gr w(2) in \<open>auto simp: on_shards_def\<close>)
qed

text \<open>Reads leave the logs as they are.\<close>

lemma read_law:
  assumes "\<And>L st. store_mem E D L st \<Longrightarrow> \<exists>res st'. act st = Some (res, st') \<and> store_mem E D L st' \<and> (\<forall>a. ok_of res = Some a \<longrightarrow> Q a L)"
  shows "node_law E D G 0 (=) Q (on_shards act)"
  unfolding node_law_def
proof (intro allI impI)
  fix b L nd
  assume ok: "node_ok E D G (b + 0) L nd"
  with assms [of L "nd_shards nd"] obtain res st' where
    r: "act (nd_shards nd) = Some (res, st')" "store_mem E D L st'" "\<forall>a. ok_of res = Some a \<longrightarrow> Q a L" by (auto simp: node_ok_def)
  have "node_ok E D G b L (nd\<lparr>nd_shards := st'\<rparr>)" using ok r(2) by (auto simp: node_ok_def)
  then show "\<exists>r nd' L'. on_shards act nd = Some (r, nd') \<and> node_ok E D G b L' nd' \<and> nd_cluster nd' = nd_cluster nd \<and> L = L' \<and> (\<forall>a. ok_of r = Some a \<longrightarrow> Q a L')"
    by (intro exI [of _ "map_sum RShard id res"] exI [of _ "nd\<lparr>nd_shards := st'\<rparr>"] exI [of _ L]) (use r in \<open>auto simp: on_shards_def\<close>)
qed

lemma get_law:
  assumes "D \<lparr>sk_collection = c, sk_shard_idx = i\<rparr> = unat (cs_dim schema)"
  shows "node_law E D G 0 (=) (\<lambda>p L. p = map_option (point_of j) (lww_log (L \<lparr>sk_collection = c, sk_shard_idx = i\<rparr>) j))
    (on_shards (get_versioned E (sref_of c schema i) j))"
  by (rule read_law) (use get_versioned_mem [of E D _ _ "sref_of c schema i" j] assms in simp)

section \<open>Handlers\<close>

lemma with_schema_law:
  assumes "\<And>schema. D \<lparr>sk_collection = c, sk_shard_idx = i\<rparr> = unat (cs_dim schema) \<Longrightarrow> node_law E D G cost R Q (act schema)"
    and "\<And>L. R L L"
  shows "node_law E D G cost R Q (with_schema c act)"
  unfolding node_law_def
proof (intro allI impI)
  fix b L nd
  assume ok: "node_ok E D G (b + cost) L nd"
  show "\<exists>r nd' L'. with_schema c act nd = Some (r, nd') \<and> node_ok E D G b L' nd' \<and> nd_cluster nd' = nd_cluster nd \<and> R L L' \<and> (\<forall>a. ok_of r = Some a \<longrightarrow> Q a L')"
  proof (cases "map_of (ms_collections (nd_cluster nd)) c")
    case None
    then show ?thesis using node_ok_mono [OF ok, of b] assms(2) by (auto simp: with_schema_def)
  next
    case (Some schema)
    then have "D \<lparr>sk_collection = c, sk_shard_idx = i\<rparr> = unat (cs_dim schema)" using ok by (auto simp: node_ok_def)
    from node_lawD [OF assms(1) [OF this] ok] Some show ?thesis by (fastforce simp: with_schema_def)
  qed
qed

lemma replica_write_law:
  assumes "(hlc_unpack (wq_hlc req), if wq_op req = OP_DELETE then None else Some (wq_vector req)) \<in>
      G \<lparr>sk_collection = wq_collection req, sk_shard_idx = wq_shard_idx req\<rparr> (wq_id req)"
  shows "node_law E D G 1 logs_grow
    (\<lambda>_ L. at_least (hlc_unpack (wq_hlc req)) (lww_log (L \<lparr>sk_collection = wq_collection req, sk_shard_idx = wq_shard_idx req\<rparr>)) (wq_id req))
    (replica_write E req t)"
  unfolding replica_write_def
proof (rule with_schema_law [where i = "wq_shard_idx req"])
  fix schema :: collection_schema
  assume D: "D \<lparr>sk_collection = wq_collection req, sk_shard_idx = wq_shard_idx req\<rparr> = unat (cs_dim schema)"
  let ?Q = "\<lambda>L. at_least (hlc_unpack (wq_hlc req)) (lww_log (L \<lparr>sk_collection = wq_collection req, sk_shard_idx = wq_shard_idx req\<rparr>)) (wq_id req)"
  let ?a = "\<lambda>nd. and_then (on_shards (store_write E (sref_of (wq_collection req) schema (wq_shard_idx req)) (wq_op req = OP_DELETE)
      (hlc_unpack (wq_hlc req)) (wq_id req) (wq_vector req) (wq_payload req)) nd) (\<lambda>oc nd. Some (Inr (oc = Applied), nd))"
  have law: "node_law E D G 1 logs_grow (\<lambda>_. ?Q) ?a"
    by (rule node_law_map [OF write_law [where G = G and D = D and c = "wq_collection req" and i = "wq_shard_idx req", OF D]]) (use assms in simp_all)
  show "node_law E D G 1 logs_grow (\<lambda>_. ?Q) (apply_replica_write E t req schema)"
    unfolding node_law_def
  proof (intro allI impI)
    fix b L and nd :: node
    let ?nd = "nd\<lparr>nd_clock := snd (clock_update t (hlc_unpack (wq_hlc req)) (nd_clock nd))\<rparr>"
    assume "node_ok E D G (b + 1) L nd"
    then have "node_ok E D G (b + 1) L ?nd" by (simp add: node_ok_def)
    from node_lawD [OF law this] show "\<exists>r nd' L'. apply_replica_write E t req schema nd = Some (r, nd') \<and> node_ok E D G b L' nd' \<and> nd_cluster nd' = nd_cluster nd \<and>
        logs_grow L L' \<and> (\<forall>a. ok_of r = Some a \<longrightarrow> ?Q L')"
      by (simp add: apply_replica_write_def Let_def)
  qed
qed simp

definition replica_of :: "stored_point \<Rightarrow> replica_point" where
  "replica_of sp = \<lparr>rp_id = sp_id sp, rp_hlc = hlc_pack (sp_hlc sp), rp_tombstone = sp_tombstone sp, rp_vector = sp_vector sp,
     rp_payload = sp_payload sp\<rparr>"

lemma replica_get_law:
  "node_law E D G 0 (=)
    (\<lambda>ps L. ps = (case lww_log (L \<lparr>sk_collection = c, sk_shard_idx = i\<rparr>) j of None \<Rightarrow> [] | Some x \<Rightarrow> [replica_of (point_of j x)]))
    (replica_get E \<lparr>gq_collection = c, gq_shard_idx = i, gq_ids = [j]\<rparr> t)"
proof -
  let ?Q = "\<lambda>ps L. ps = (case lww_log (L \<lparr>sk_collection = c, sk_shard_idx = i\<rparr>) j of None \<Rightarrow> [] | Some x \<Rightarrow> [replica_of (point_of j x)])"
  let ?f = "\<lambda>p. case p of None \<Rightarrow> [] | Some sp \<Rightarrow> [replica_of sp]"
  have "node_law E D G 0 (=) ?Q (apply_replica_get E c i [j] schema)"
    if "D \<lparr>sk_collection = c, sk_shard_idx = i\<rparr> = unat (cs_dim schema)" for schema
  proof -
    have "apply_replica_get E c i [j] schema =
        (\<lambda>nd. and_then (on_shards (get_versioned E (sref_of c schema i) j) nd) (\<lambda>p nd. Some (Inr (?f p), nd)))"
      by (rule ext) (auto simp: apply_replica_get_def and_then_def replica_of_def split: option.splits sum.splits)
    then show ?thesis using node_law_map [OF get_law [where j = j and E = E and G = G and D = D and c = c and i = i, OF that], of ?Q ?f] by (auto split: option.splits)
  qed
  then show ?thesis unfolding replica_get_def by (intro with_schema_law [where i = i]) simp_all
qed

text \<open>Searches and transfers.\<close>

lemma with_schema_read:
  assumes "\<And>schema. D \<lparr>sk_collection = c, sk_shard_idx = i\<rparr> = unat (cs_dim schema) \<Longrightarrow> node_law E D G 0 (=) Q (act schema)"
  shows "node_law E D G 0 (=) Q (with_schema c act)"
  by (rule with_schema_law [where i = i, OF assms]) simp_all

lemma search_law:
  assumes "D \<lparr>sk_collection = c, sk_shard_idx = i\<rparr> = unat (cs_dim schema)"
  shows "node_law E D G 0 (=)
    (\<lambda>hits L. length hits \<le> k \<and> distinct (map fst hits) \<and> list_all (hit_of E q (lww_log (L \<lparr>sk_collection = c, sk_shard_idx = i\<rparr>))) hits)
    (on_shards (search_shard E (sref_of c schema i) q k ef))"
  by (rule read_law) (use search_shard_mem [of E D _ _ "sref_of c schema i" q k ef] assms in simp)

lemma replica_search_law:
  fixes req :: search_req
  defines "k \<equiv> unat (if sq_k req = 0 then DEFAULT_K else sq_k req)"
  shows "node_law E D G 0 (=)
    (\<lambda>rs L. length rs \<le> k \<and> distinct (map rs_id rs) \<and>
       list_all (hit_of E (sq_vector req) (lww_log (L \<lparr>sk_collection = sq_collection req, sk_shard_idx = sq_shard_idx req\<rparr>)))
         (map (\<lambda>r. (rs_id r, rs_score r)) rs))
    (replica_search E req t)"
  unfolding replica_search_def Let_def k_def [symmetric]
proof (rule with_schema_read [where i = "sq_shard_idx req"])
  fix schema :: collection_schema
  assume D: "D \<lparr>sk_collection = sq_collection req, sk_shard_idx = sq_shard_idx req\<rparr> = unat (cs_dim schema)"
  show "node_law E D G 0 (=)
    (\<lambda>rs L. length rs \<le> k \<and> distinct (map rs_id rs) \<and>
       list_all (hit_of E (sq_vector req) (lww_log (L \<lparr>sk_collection = sq_collection req, sk_shard_idx = sq_shard_idx req\<rparr>)))
         (map (\<lambda>r. (rs_id r, rs_score r)) rs))
    (apply_replica_search E (sq_collection req) (sq_shard_idx req) (sq_vector req) k
      (unat (if sq_ef_search req = 0 then DEFAULT_EF_SEARCH else sq_ef_search req)) schema)"
    unfolding apply_replica_search_def
    by (rule node_law_map [OF search_law [where D = D and c = "sq_collection req" and i = "sq_shard_idx req", OF D]])
      (auto simp: comp_def split_def)
qed

text \<open>A streamed record of a version.\<close>

definition record_of :: "u64 \<Rightarrow> hlc \<times> vec option \<Rightarrow> shard_record" where
  "record_of j x = \<lparr>rr_id = j, rr_hlc = hlc_pack (fst x), rr_tombstone = (snd x = None),
     rr_vector = (case snd x of None \<Rightarrow> [] | Some v \<Rightarrow> v), rr_payload = []\<rparr>"

lemma stream_shard_law:
  "node_law E D G 0 (=)
    (\<lambda>recs L. \<forall>rec \<in> set recs. \<exists>j x. rec = record_of j x \<and> lww_log (L \<lparr>sk_collection = c, sk_shard_idx = i\<rparr>) j = Some x)
    (stream_shard E \<lparr>tq_collection = c, tq_shard_idx = i\<rparr> t)"
proof -
  let ?k = "\<lparr>sk_collection = c, sk_shard_idx = i\<rparr>"
  let ?Q = "\<lambda>recs L. \<forall>rec \<in> set recs. \<exists>j x. rec = record_of j x \<and> lww_log (L ?k) j = Some x"
  let ?f = "\<lambda>records. map (\<lambda>(j, h, tomb, v). \<lparr>rr_id = j, rr_hlc = hlc_pack h, rr_tombstone = tomb, rr_vector = v, rr_payload = []\<rparr>) records"
  have "node_law E D G 0 (=) ?Q (apply_stream_shard E c i schema)" if d: "D ?k = unat (cs_dim schema)" for schema
  proof -
    have "node_law E D G 0 (=) (\<lambda>rows L. distinct (map fst rows) \<and> (\<forall>j h tomb x. (j, h, tomb, x) \<in> set rows \<longleftrightarrow>
        (\<exists>v. lww_log (L ?k) j = Some (h, v) \<and> tomb = (v = None) \<and> x = (case v of None \<Rightarrow> [] | Some x \<Rightarrow> x))))
        (on_shards (store_records E (sref_of c schema i)))"
      by (rule read_law) (use store_records_mem [of E D _ _ "sref_of c schema i"] d in simp)
    then have law: "node_law E D G 0 (=) ?Q
        (\<lambda>nd. and_then (on_shards (store_records E (sref_of c schema i)) nd) (\<lambda>records nd. Some (Inr (?f records), nd)))"
    proof (rule node_law_map, intro ballI)
      fix rows rec and L :: logs
      assume rows: "distinct (map fst rows) \<and> (\<forall>j h tomb x. (j, h, tomb, x) \<in> set rows \<longleftrightarrow>
          (\<exists>v. lww_log (L ?k) j = Some (h, v) \<and> tomb = (v = None) \<and> x = (case v of None \<Rightarrow> [] | Some x \<Rightarrow> x)))"
        and "rec \<in> set (?f rows)"
      then obtain j h tomb x where "(j, h, tomb, x) \<in> set rows"
        "rec = \<lparr>rr_id = j, rr_hlc = hlc_pack h, rr_tombstone = tomb, rr_vector = x, rr_payload = []\<rparr>" by auto
      moreover from this rows obtain v where "lww_log (L ?k) j = Some (h, v)" "tomb = (v = None)" "x = (case v of None \<Rightarrow> [] | Some x \<Rightarrow> x)"
        by blast
      ultimately have "rec = record_of j (h, v) \<and> lww_log (L ?k) j = Some (h, v)" by (simp add: record_of_def)
      then show "\<exists>j x. rec = record_of j x \<and> lww_log (L ?k) j = Some x" by blast
    qed
    show ?thesis unfolding node_law_def
    proof (intro allI impI)
      fix b L nd
      assume ok: "node_ok E D G (b + 0) L nd"
      show "\<exists>r nd' L'. apply_stream_shard E c i schema nd = Some (r, nd') \<and> node_ok E D G b L' nd' \<and> nd_cluster nd' = nd_cluster nd \<and>
          L = L' \<and> (\<forall>a. ok_of r = Some a \<longrightarrow> ?Q a L')"
      proof (cases "has_shard c i (nd_shards nd)")
        case True
        then show ?thesis using node_lawD [OF law ok] by (simp add: apply_stream_shard_def)
      next
        case False
        then show ?thesis using ok by (simp add: apply_stream_shard_def)
      qed
    qed
  qed
  then show ?thesis unfolding stream_shard_def by (intro with_schema_read [where i = i]) simp_all
qed

text \<open>When the shard is open the stream is complete.\<close>

lemma stream_shard_complete:
  assumes "node_ok E D G b L nd" "has_shard c i (nd_shards nd)"
    and "stream_shard E \<lparr>tq_collection = c, tq_shard_idx = i\<rparr> t nd = Some (Inr recs, nd')"
    and "lww_log (L \<lparr>sk_collection = c, sk_shard_idx = i\<rparr>) j = Some x"
  shows "record_of j x \<in> set recs"
proof -
  let ?k = "\<lparr>sk_collection = c, sk_shard_idx = i\<rparr>"
  obtain schema where schema: "map_of (ms_collections (nd_cluster nd)) c = Some schema"
    using assms(3) by (auto simp: stream_shard_def with_schema_def split: option.splits)
  then have "D ?k = unat (cs_dim schema)" "store_mem E D L (nd_shards nd)" using assms(1) by (simp_all add: node_ok_def)
  with store_records_mem [of E D L "nd_shards nd" "sref_of c schema i"] obtain res st' where
    r: "store_records E (sref_of c schema i) (nd_shards nd) = Some (res, st')"
      "\<forall>rows. ok_of res = Some rows \<longrightarrow> (\<forall>j h tomb x. (j, h, tomb, x) \<in> set rows \<longleftrightarrow>
         (\<exists>v. lww_log (L ?k) j = Some (h, v) \<and> tomb = (v = None) \<and> x = (case v of None \<Rightarrow> [] | Some x \<Rightarrow> x)))" by auto
  show ?thesis
  proof (cases res)
    case (Inl e)
    then show ?thesis using assms(2,3) schema r(1)
      by (simp add: stream_shard_def with_schema_def apply_stream_shard_def on_shards_def and_then_def)
  next
    case (Inr rows)
    have "recs = map (\<lambda>(j, h, tomb, v). \<lparr>rr_id = j, rr_hlc = hlc_pack h, rr_tombstone = tomb, rr_vector = v, rr_payload = []\<rparr>) rows"
      using assms(2,3) schema r(1) Inr
      by (simp add: stream_shard_def with_schema_def apply_stream_shard_def on_shards_def and_then_def)
    moreover have "(j, fst x, snd x = None, case snd x of None \<Rightarrow> [] | Some v \<Rightarrow> v) \<in> set rows"
      using r(2) Inr assms(4) by (cases x) simp
    ultimately show ?thesis by (force simp: record_of_def)
  qed
qed

end
