(* ===== verification/Replica_Access.thy ===== *)
theory Replica_Access
  imports Node_Inv "HOL-Library.Sublist"
begin

text \<open>
  What the coordinator relies on when it writes to and reads from one replica, as a locale: no
  panic, stored stamps never go down, an acknowledged write leaves the replica at least as new as
  the write, and a reply reflects what the replica stores.  The quorum argument is proved once
  from these laws, for the coordinator's own loops; the second half of the theory shows that the
  model's \<open>write_one_replica\<close> and \<open>read_one_replica\<close> satisfy them.
\<close>

section \<open>The contract\<close>

text \<open>\<open>inv b l w\<close>: the world \<open>w\<close> has contents \<open>l\<close> and room for \<open>b\<close> more records; \<open>has l n\<close>:
  replica \<open>n\<close> holds the version in question or a newer one; \<open>newer\<close> says so of a reply and \<open>good\<close>
  that a reply is a version someone issued.\<close>

locale replica_access =
  fixes inv :: "nat \<Rightarrow> 'l \<Rightarrow> 'w \<Rightarrow> bool"
    and grow :: "'l \<Rightarrow> 'l \<Rightarrow> bool"
    and has :: "'l \<Rightarrow> node_id \<Rightarrow> bool"
    and newer :: "stored_point \<Rightarrow> bool"
    and good :: "stored_point \<Rightarrow> bool"
    and replica :: "node_id \<times> str \<Rightarrow> bool"
    and write1 :: "node_id \<times> str \<Rightarrow> 'w \<Rightarrow> ((conn_error + bool) \<times> 'w) option"
    and read1 :: "node_id \<times> str \<Rightarrow> 'w \<Rightarrow> ((conn_error + stored_point option) \<times> 'w) option"
  assumes grow_refl: "grow l l"
    and grow_trans: "grow l l' \<Longrightarrow> grow l' l'' \<Longrightarrow> grow l l''"
    and grow_has: "grow l l' \<Longrightarrow> has l n \<Longrightarrow> has l' n"
    and write1_law: "replica x \<Longrightarrow> inv (Suc b) l w \<Longrightarrow>
      \<exists>r w' l'. write1 x w = Some (r, w') \<and> inv b l' w' \<and> grow l l' \<and> (r = Inr True \<longrightarrow> has l' (fst x))"
    and read1_law: "replica x \<Longrightarrow> inv b l w \<Longrightarrow>
      \<exists>r w' l'. read1 x w = Some (r, w') \<and> inv b l' w' \<and> grow l l' \<and>
        (\<forall>p. r = Inr p \<longrightarrow> (has l' (fst x) \<longrightarrow> (\<exists>q. p = Some q \<and> newer q)) \<and> (\<forall>q. p = Some q \<longrightarrow> good q))"
begin

text \<open>Writing to all replicas: every replica that is not reported as unreachable holds the
  version.\<close>

lemma write_all_law:
  assumes "list_all replica rs" "inv (b + length rs) l w"
  shows "\<exists>k un w' l'. write_all write1 rs acks us w = Some ((acks + k, us @ un), w') \<and> inv b l' w' \<and> grow l l' \<and>
    k + length un = length rs \<and> set un \<subseteq> fst ` set rs \<and> (\<forall>n \<in> fst ` set rs. n \<notin> set un \<longrightarrow> has l' n)"
  using assms
proof (induction rs arbitrary: acks us w l)
  case Nil
  then show ?case using grow_refl by auto
next
  case (Cons x rs)
  from write1_law [of x "b + length rs" l w] Cons.prems obtain r w1 l1 where
    x: "write1 x w = Some (r, w1)" "inv (b + length rs) l1 w1" "grow l l1" "r = Inr True \<longrightarrow> has l1 (fst x)" by auto
  have rs: "list_all replica rs" using Cons.prems by simp
  show ?case
  proof (cases "r = Inr True")
    case True
    from Cons.IH [OF rs x(2), of "acks + 1" us] obtain k un w' l' where
      i: "write_all write1 rs (acks + 1) us w1 = Some ((acks + 1 + k, us @ un), w')" "inv b l' w'" "grow l1 l'"
        "k + length un = length rs" "set un \<subseteq> fst ` set rs" "\<forall>n \<in> fst ` set rs. n \<notin> set un \<longrightarrow> has l' n" by blast
    have "write_all write1 (x # rs) acks us w = Some ((acks + Suc k, us @ un), w')" using x(1) True i(1) by simp
    moreover have "\<forall>n \<in> fst ` set (x # rs). n \<notin> set un \<longrightarrow> has l' n" using i(6) x(4) True grow_has [OF i(3)] by auto
    ultimately show ?thesis using i(2,4,5) grow_trans [OF x(3) i(3)]
      by (intro exI [of _ "Suc k"] exI [of _ un] exI [of _ w'] exI [of _ l']) auto
  next
    case False
    from Cons.IH [OF rs x(2), of acks "us @ [fst x]"] obtain k un w' l' where
      i: "write_all write1 rs acks (us @ [fst x]) w1 = Some ((acks + k, (us @ [fst x]) @ un), w')" "inv b l' w'" "grow l1 l'"
        "k + length un = length rs" "set un \<subseteq> fst ` set rs" "\<forall>n \<in> fst ` set rs. n \<notin> set un \<longrightarrow> has l' n" by blast
    have "r = Inr False \<or> r = Inl ConnError" using False by (metis conn_error.exhaust sum.exhaust)
    then have "write_all write1 (x # rs) acks us w = Some ((acks + k, us @ fst x # un), w')" using x(1) i(1) by auto
    then show ?thesis using i(2,4-6) grow_trans [OF x(3) i(3)]
      by (intro exI [of _ k] exI [of _ "fst x # un"] exI [of _ w'] exI [of _ l']) auto
  qed
qed

text \<open>Reading from all replicas.\<close>

definition reply_ok :: "'l \<Rightarrow> reply \<Rightarrow> bool" where
  "reply_ok l r \<longleftrightarrow> (has l (fst r) \<longrightarrow> (\<exists>q. snd (snd r) = Some q \<and> newer q)) \<and> (\<forall>q. snd (snd r) = Some q \<longrightarrow> good q)"

lemma reply_ok_grow: "grow l l' \<Longrightarrow> reply_ok l' r \<Longrightarrow> reply_ok l r"
  using grow_has unfolding reply_ok_def by blast

lemma read_all_law:
  assumes "list_all replica rs" "inv b l w"
  shows "\<exists>resp w' l'. read_all read1 rs rp w = Some (rp @ resp, w') \<and> inv b l' w' \<and> grow l l' \<and>
    list_all (reply_ok l) resp \<and> subseq (map (\<lambda>r. (fst r, fst (snd r))) resp) rs"
  using assms
proof (induction rs arbitrary: rp w l)
  case Nil
  then show ?case using grow_refl by auto
next
  case (Cons x rs)
  from read1_law [of x b l w] Cons.prems obtain r w1 l1 where
    x: "read1 x w = Some (r, w1)" "inv b l1 w1" "grow l l1"
      "\<forall>p. r = Inr p \<longrightarrow> (has l1 (fst x) \<longrightarrow> (\<exists>q. p = Some q \<and> newer q)) \<and> (\<forall>q. p = Some q \<longrightarrow> good q)" by auto
  have rs: "list_all replica rs" using Cons.prems by simp
  show ?case
  proof (cases r)
    case (Inl e)
    from Cons.IH [OF rs x(2), of rp] obtain resp w' l' where
      i: "read_all read1 rs rp w1 = Some (rp @ resp, w')" "inv b l' w'" "grow l1 l'"
        "list_all (reply_ok l1) resp" "subseq (map (\<lambda>r. (fst r, fst (snd r))) resp) rs" by blast
    have "read_all read1 (x # rs) rp w = Some (rp @ resp, w')" using x(1) Inl i(1) by (cases e) simp
    then show ?thesis using i grow_trans [OF x(3) i(3)] reply_ok_grow [OF x(3)]
      by (intro exI [of _ resp] exI [of _ w'] exI [of _ l']) (auto simp: list_all_iff)
  next
    case (Inr p)
    from Cons.IH [OF rs x(2), of "rp @ [(fst x, snd x, p)]"] obtain resp w' l' where
      i: "read_all read1 rs (rp @ [(fst x, snd x, p)]) w1 = Some ((rp @ [(fst x, snd x, p)]) @ resp, w')" "inv b l' w'" "grow l1 l'"
        "list_all (reply_ok l1) resp" "subseq (map (\<lambda>r. (fst r, fst (snd r))) resp) rs" by blast
    have "read_all read1 (x # rs) rp w = Some (rp @ (fst x, snd x, p) # resp, w')" using x(1) Inr i(1) by simp
    moreover have "reply_ok l (fst x, snd x, p)"
      by (rule reply_ok_grow [OF x(3)]) (use x(4) Inr in \<open>simp add: reply_ok_def\<close>)
    ultimately show ?thesis using i grow_trans [OF x(3) i(3)] reply_ok_grow [OF x(3)]
      by (intro exI [of _ "(fst x, snd x, p) # resp"] exI [of _ w'] exI [of _ l']) (auto simp: list_all_iff)
  qed
qed

text \<open>The quorum argument: if \<open>k\<close> replicas hold the version and more than \<open>n - k\<close> replied, one of the
  replies is as new.\<close>

lemma quorum_reply:
  assumes "distinct (map fst rs)" "subseq (map (\<lambda>r. (fst r, fst (snd r))) resp) rs" "list_all (reply_ok l) resp"
    and "\<forall>n \<in> fst ` set rs. n \<notin> set un \<longrightarrow> has l n" "length rs < k + length resp" "k + length un = length rs"
  shows "\<exists>r q. r \<in> set resp \<and> snd (snd r) = Some q \<and> newer q"
proof -
  let ?f = "\<lambda>r :: reply. (fst r, fst (snd r))"
  have "subseq (map fst resp) (map fst rs)" using subseq_map [OF assms(2), of fst] by (simp add: comp_def)
  then obtain N where N: "map fst resp = nths (map fst rs) N" by (auto simp: subseq_conv_nths)
  have d: "distinct (map fst resp)" and sub: "set (map fst resp) \<subseteq> fst ` set rs"
    unfolding N using assms(1) set_nths_subset [of "map fst rs" N] by (simp_all add: distinct_nthsI)
  have "card (set un) < card (set (map fst resp))"
    using assms(5,6) card_length [of un] distinct_card [OF d] by simp
  then obtain n where "n \<in> set (map fst resp)" "n \<notin> set un" using card_mono [of "set un" "set (map fst resp)"] by (meson List.finite_set not_le subsetI)
  then obtain r where r: "r \<in> set resp" "fst r \<notin> set un" by auto
  then have "fst r \<in> fst ` set rs" using sub by auto
  with r(2) have "has l (fst r)" using assms(4) by blast
  then show ?thesis using r(1) assms(3) unfolding list_all_iff reply_ok_def by blast
qed

end

section \<open>Worlds\<close>

definition nodes_ok :: "net \<Rightarrow> (shard_key \<Rightarrow> nat) \<Rightarrow> issued \<Rightarrow> (node_id \<Rightarrow> meta_state) \<Rightarrow> nat \<Rightarrow> (node_id \<Rightarrow> logs) \<Rightarrow> nodes \<Rightarrow> bool" where
  "nodes_ok N D G M b L ns \<longleftrightarrow> (\<forall>n. node_ok (nt_env N) D G b (L n) (ns n) \<and> nd_cluster (ns n) = M n)"

definition grow :: "(node_id \<Rightarrow> logs) \<Rightarrow> (node_id \<Rightarrow> logs) \<Rightarrow> bool" where
  "grow L L' \<longleftrightarrow> (\<forall>n. logs_grow (L n) (L' n))"

lemma grow_simps [simp]: "grow L L"
  by (simp add: grow_def)

lemma grow_trans: "grow L L' \<Longrightarrow> grow L' L'' \<Longrightarrow> grow L L''"
  using logs_grow_trans unfolding grow_def by blast

text \<open>\<open>M n\<close> is the metadata node \<open>n\<close> has applied; it does not change while the requests run.

  What other activity may do between two steps of a coordinator: anything that keeps the nodes'
  invariant, writes at most \<open>c\<close> records to a shard, issues only versions of \<open>G\<close> and lowers no
  stamp.\<close>

definition rely :: "net \<Rightarrow> (shard_key \<Rightarrow> nat) \<Rightarrow> issued \<Rightarrow> (node_id \<Rightarrow> meta_state) \<Rightarrow> nat \<Rightarrow> (nodes \<Rightarrow> nodes) \<Rightarrow> bool" where
  "rely N D G M c f \<longleftrightarrow> (\<forall>b L ns. nodes_ok N D G M (b + c) L ns \<longrightarrow> (\<exists>L'. nodes_ok N D G M b L' (f ns) \<and> grow L L'))"

definition world_ok :: "net \<Rightarrow> (shard_key \<Rightarrow> nat) \<Rightarrow> issued \<Rightarrow> (node_id \<Rightarrow> meta_state) \<Rightarrow> nat \<Rightarrow> (node_id \<Rightarrow> logs) \<Rightarrow> world \<Rightarrow> bool" where
  "world_ok N D G M b L w \<longleftrightarrow> (\<exists>cs. list_all2 (\<lambda>c e. rely N D G M c (ev_between e)) cs (w_events w) \<and>
     nodes_ok N D G M (b + sum_list cs) L (w_nodes w))"

lemma rely_id: "rely N D G M 0 id"
  by (auto simp: rely_def)

lemma nodes_ok_mono: "nodes_ok N D G M b L ns \<Longrightarrow> b' \<le> b \<Longrightarrow> nodes_ok N D G M b' L ns"
  using node_ok_mono unfolding nodes_ok_def by blast

lemma world_ok_mono: "world_ok N D G M b L w \<Longrightarrow> b' \<le> b \<Longrightarrow> world_ok N D G M b' L w"
  unfolding world_ok_def by (meson add_right_mono nodes_ok_mono)

text \<open>Fields that the invariant does not mention.\<close>

lemma world_ok_fields:
  assumes "w_events w' = w_events w" "\<And>n. nd_shards (w_nodes w' n) = nd_shards (w_nodes w n)"
    "\<And>n. nd_cluster (w_nodes w' n) = nd_cluster (w_nodes w n)"
  shows "world_ok N D G M b L w' = world_ok N D G M b L w"
  using assms by (simp add: world_ok_def nodes_ok_def node_ok_def)

lemma next_event_ok:
  assumes "world_ok N D G M b L w"
  shows "\<exists>L'. world_ok N D G M b L' (snd (next_event w)) \<and> grow L L'"
proof (cases "w_events w")
  case Nil
  then show ?thesis using assms by (auto simp: next_event_def)
next
  case (Cons e es)
  from assms Cons obtain c cs where cs: "rely N D G M c (ev_between e)" "list_all2 (\<lambda>c e. rely N D G M c (ev_between e)) cs es"
      "nodes_ok N D G M (b + (c + sum_list cs)) L (w_nodes w)" by (auto simp: world_ok_def list_all2_Cons2)
  then have "nodes_ok N D G M ((b + sum_list cs) + c) L (w_nodes w)" by (simp add: ac_simps)
  with cs(1) obtain L' where "nodes_ok N D G M (b + sum_list cs) L' (ev_between e (w_nodes w))" "grow L L'"
    unfolding rely_def by blast
  then show ?thesis using cs(2) Cons by (auto simp: next_event_def world_ok_def)
qed

lemma on_node_ok:
  assumes law: "node_law (nt_env N) D G cost R Q act" and R: "\<And>l l'. R l l' \<Longrightarrow> logs_grow l l'"
    and w: "world_ok N D G M (b + cost) L w"
  shows "\<exists>r w' L'. on_node n act w = Some (r, w') \<and> world_ok N D G M b L' w' \<and> grow L L' \<and> R (L n) (L' n) \<and>
    (\<forall>a. ok_of r = Some a \<longrightarrow> Q a (L' n))"
proof -
  from w obtain cs where cs: "list_all2 (\<lambda>c e. rely N D G M c (ev_between e)) cs (w_events w)"
      "nodes_ok N D G M (b + cost + sum_list cs) L (w_nodes w)" by (auto simp: world_ok_def)
  then have n: "node_ok (nt_env N) D G (b + sum_list cs + cost) (L n) (w_nodes w n)" by (simp add: nodes_ok_def ac_simps)
  from node_lawD [OF law n] obtain r nd l where
    r: "act (w_nodes w n) = Some (r, nd)" "node_ok (nt_env N) D G (b + sum_list cs) l nd" "nd_cluster nd = nd_cluster (w_nodes w n)" "R (L n) l" "\<forall>a. ok_of r = Some a \<longrightarrow> Q a l"
    by blast
  have "nodes_ok N D G M (b + sum_list cs) (L(n := l)) ((w_nodes w)(n := nd))"
    using nodes_ok_mono [OF cs(2), of "b + sum_list cs"] r(2,3) by (simp add: nodes_ok_def)
  then have "world_ok N D G M b (L(n := l)) (w\<lparr>w_nodes := (w_nodes w)(n := nd)\<rparr>)" using cs(1) by (auto simp: world_ok_def)
  moreover have "grow L (L(n := l))" using R [OF r(4)] by (simp add: grow_def)
  moreover have "\<forall>a. ok_of r = Some a \<longrightarrow> Q a ((L(n := l)) n)" using r(5) by simp
  ultimately show ?thesis using r(1,4)
    by (intro exI [of _ r] exI [of _ "w\<lparr>w_nodes := (w_nodes w)(n := nd)\<rparr>"] exI [of _ "L(n := l)"]) (simp add: on_node_def)
qed

lemma rpc_ok:
  assumes law: "\<And>t. node_law (nt_env N) D G cost R Q (handler t)" and R: "\<And>l l'. R l l' \<Longrightarrow> logs_grow l l'"
    and w: "world_ok N D G M (b + cost) L w"
  shows "\<exists>r w' L'. rpc N addr handler w = Some (r, w') \<and> world_ok N D G M b L' w' \<and> grow L L' \<and>
    (\<forall>a. r = Inr a \<longrightarrow> (\<exists>n. nt_at N addr = Some n \<and> Q a (L' n)))"
proof -
  obtain ev w1 where ev: "next_event w = (ev, w1)" by fastforce
  from next_event_ok [OF w] ev obtain L1 where L1: "world_ok N D G M (b + cost) L1 w1" "grow L L1" by auto
  show ?thesis
  proof (cases "if ev_outcome ev = Unreachable then None else nt_at N addr")
    case None
    then show ?thesis using ev L1 world_ok_mono [OF L1(1), of b] by (auto simp: rpc_def)
  next
    case (Some n)
    from on_node_ok [OF law R L1(1), of n "ev_time ev"] obtain r w' L' where
      r: "on_node n (handler (ev_time ev)) w1 = Some (r, w')" "world_ok N D G M b L' w'" "grow L1 L'" "\<forall>a. ok_of r = Some a \<longrightarrow> Q a (L' n)"
      by blast
    let ?r = "case r of Inr a \<Rightarrow> if ev_outcome ev = ReplyLost then Inl ConnError else Inr a | Inl _ \<Rightarrow> Inl ConnError"
    have "rpc N addr handler w = Some (?r, w')" using ev Some r(1) by (simp add: rpc_def)
    moreover have "\<exists>n. nt_at N addr = Some n \<and> Q a (L' n)" if "?r = Inr a" for a
      using that r(4) Some by (cases r) (auto split: if_splits)
    ultimately show ?thesis using r(2) grow_trans [OF L1(2) r(3)] by blast
  qed
qed

section \<open>The model's replica access\<close>

text \<open>The write of a point operation and the read of its point, at coordinators \<open>me\<close> and \<open>me'\<close>.\<close>

definition op_key :: "point_op \<Rightarrow> shard_key" where
  "op_key p = \<lparr>sk_collection = po_collection p, sk_shard_idx = po_shard_idx p\<rparr>"

definition op_value :: "point_op \<Rightarrow> vec option" where
  "op_value p = (if po_op p = OP_DELETE then None else Some (po_vector p))"

definition issued_ok :: "issued \<Rightarrow> bool" where
  "issued_ok G \<longleftrightarrow> (\<forall>k i h u. (h, u) \<in> G k i \<longrightarrow> hlc_ok h)"

definition op_ok :: "(shard_key \<Rightarrow> nat) \<Rightarrow> issued \<Rightarrow> collection_schema \<Rightarrow> collection_schema \<Rightarrow> point_op \<Rightarrow> bool" where
  "op_ok D G schema schema' p \<longleftrightarrow> issued_ok G \<and> (po_hlc p, op_value p) \<in> G (op_key p) (po_id p) \<and>
     D (op_key p) = unat (cs_dim schema) \<and> D (op_key p) = unat (cs_dim schema')"

definition reachable_at :: "net \<Rightarrow> node_id \<times> str \<Rightarrow> bool" where
  "reachable_at N x \<longleftrightarrow> nt_at N (snd x) = Some (fst x)"

definition holds_op :: "point_op \<Rightarrow> (node_id \<Rightarrow> logs) \<Rightarrow> node_id \<Rightarrow> bool" where
  "holds_op p L n \<longleftrightarrow> at_least (po_hlc p) (lww_log (L n (op_key p))) (po_id p)"

definition version_of :: "stored_point \<Rightarrow> hlc \<times> vec option" where
  "version_of q = (sp_hlc q, if sp_tombstone q then None else Some (sp_vector q))"

definition issued_point :: "issued \<Rightarrow> shard_key \<Rightarrow> u64 \<Rightarrow> stored_point \<Rightarrow> bool" where
  "issued_point G k j q \<longleftrightarrow> sp_id q = j \<and> version_of q \<in> G k j"

lemma version_of_point [simp]: "version_of (point_of j x) = x" "sp_id (point_of j x) = j" "sp_hlc (point_of j x) = fst x"
  by (cases x; auto simp: version_of_def point_of_def split: option.splits)+

lemma stored_of_replica: "hlc_ok (sp_hlc q) \<Longrightarrow> stored_of (replica_of q) = q"
  by (cases q) (simp add: stored_of_def replica_of_def codec)

lemma write_one_ok:
  assumes "reachable_at N x" "op_ok D G schema schema' p" "world_ok N D G M (Suc b) L w"
  shows "\<exists>r w' L'. write_one_replica N me schema p x w = Some (r, w') \<and> world_ok N D G M b L' w' \<and> grow L L' \<and>
    (r = Inr True \<longrightarrow> holds_op p L' (fst x))"
proof -
  let ?k = "\<lparr>sk_collection = po_collection p, sk_shard_idx = po_shard_idx p\<rparr>"
  have w: "world_ok N D G M (b + 1) L w" using assms(3) by simp
  have h: "hlc_ok (po_hlc p)" and g: "(po_hlc p, if po_op p = OP_DELETE then None else Some (po_vector p)) \<in> G ?k (po_id p)"
    and d: "D ?k = unat (cs_dim schema)"
    using assms(2) by (auto simp: op_ok_def issued_ok_def op_key_def op_value_def)
  show ?thesis
  proof (cases "fst x = me")
    case True
    from on_node_ok [OF write_law [where D = D and G = G and c = "po_collection p" and i = "po_shard_idx p" and j = "po_id p" and del = "po_op p = OP_DELETE", OF d g] _ w, of me] obtain r w' L' where
      r: "on_node me (on_shards (store_write (nt_env N) (sref_of (po_collection p) schema (po_shard_idx p)) (po_op p = OP_DELETE)
            (po_hlc p) (po_id p) (po_vector p) (po_payload p))) w = Some (r, w')" "world_ok N D G M b L' w'" "grow L L'"
        "\<forall>a. ok_of r = Some a \<longrightarrow> at_least (po_hlc p) (lww_log (L' me ?k)) (po_id p)" by blast
    then show ?thesis using True by (cases r) (auto simp: write_one_replica_def holds_op_def op_key_def)
  next
    case False
    have "(hlc_unpack (wq_hlc (request_of p)), if wq_op (request_of p) = OP_DELETE then None else Some (wq_vector (request_of p)))
        \<in> G \<lparr>sk_collection = wq_collection (request_of p), sk_shard_idx = wq_shard_idx (request_of p)\<rparr> (wq_id (request_of p))"
      using g h by (auto simp: request_of_def codec split: if_splits)
    from rpc_ok [where handler = "replica_write (nt_env N) (request_of p)", OF replica_write_law [where D = D and G = G and req = "request_of p", OF this] _ w, of "snd x"] obtain r w' L' where
      r: "rpc N (snd x) (replica_write (nt_env N) (request_of p)) w = Some (r, w')" "world_ok N D G M b L' w'" "grow L L'"
        "\<forall>a. r = Inr a \<longrightarrow> (\<exists>n. nt_at N (snd x) = Some n \<and> at_least (po_hlc p) (lww_log (L' n ?k)) (po_id p))"
      using h by (auto simp: request_of_def codec)
    then show ?thesis using False assms(1)
      by (cases r) (auto simp: write_one_replica_def and_then_def reachable_at_def holds_op_def op_key_def)
  qed
qed

lemma issued_contents:
  assumes "world_ok N D G M b L w" "lww_log (L n k) j = Some x"
  shows "x \<in> G k j"
  using assms unfolding world_ok_def nodes_ok_def node_ok_def by blast

lemma read_one_ok:
  assumes "reachable_at N x" "issued_ok G" "D \<lparr>sk_collection = c, sk_shard_idx = i\<rparr> = unat (cs_dim schema)" "world_ok N D G M b L w"
  shows "\<exists>r w' L'. read_one_replica N me schema c i j x w = Some (r, w') \<and> world_ok N D G M b L' w' \<and> grow L L' \<and>
    (\<forall>p. r = Inr p \<longrightarrow> p = map_option (point_of j) (lww_log (L' (fst x) \<lparr>sk_collection = c, sk_shard_idx = i\<rparr>) j))"
proof -
  let ?k = "\<lparr>sk_collection = c, sk_shard_idx = i\<rparr>"
  have w: "world_ok N D G M (b + 0) L w" using assms(4) by simp
  have R: "\<And>l l' :: logs. l = l' \<Longrightarrow> logs_grow l l'" by simp
  show ?thesis
  proof (cases "fst x = me")
    case True
    from on_node_ok [OF get_law [where D = D and c = c and i = i and j = j, OF assms(3)] R w, of me] obtain r w' L' where
      "on_node me (on_shards (get_versioned (nt_env N) (sref_of c schema i) j)) w = Some (r, w')" "world_ok N D G M b L' w'" "grow L L'"
      "\<forall>a. ok_of r = Some a \<longrightarrow> a = map_option (point_of j) (lww_log (L' me ?k) j)" by auto
    then show ?thesis using True by (cases r) (auto simp: read_one_replica_def)
  next
    case False
    from rpc_ok [where handler = "replica_get (nt_env N) \<lparr>gq_collection = c, gq_shard_idx = i, gq_ids = [j]\<rparr>",
        OF replica_get_law [where D = D and c = c and i = i and j = j] R w, of "snd x"] obtain r w' L' where
      r: "rpc N (snd x) (replica_get (nt_env N) \<lparr>gq_collection = c, gq_shard_idx = i, gq_ids = [j]\<rparr>) w = Some (r, w')"
        "world_ok N D G M b L' w'" "grow L L'" "\<forall>a. r = Inr a \<longrightarrow> (\<exists>n. nt_at N (snd x) = Some n \<and>
          a = (case lww_log (L' n ?k) j of None \<Rightarrow> [] | Some x \<Rightarrow> [replica_of (point_of j x)]))" by blast
    have "stored_of (replica_of (point_of j y)) = point_of j y" if "lww_log (L' n ?k) j = Some y" for n y
      using issued_contents [OF r(2) that] assms(2) by (intro stored_of_replica) (cases y, auto simp: issued_ok_def)
    then show ?thesis using r False assms(1)
      by (cases r) (auto simp: read_one_replica_def and_then_def reachable_at_def split: option.splits)
  qed
qed

interpretation point_access: replica_access
  "\<lambda>b L w. world_ok N D G M b L w \<and> op_ok D G schema schema' p" grow "holds_op p" "\<lambda>q. po_hlc p \<le> sp_hlc q"
  "issued_point G (op_key p) (po_id p)" "reachable_at N" "write_one_replica N me schema p"
  "read_one_replica N me' schema' (po_collection p) (po_shard_idx p) (po_id p)"
  for N D G M schema schema' p me me'
proof
  fix x b L w
  assume x: "reachable_at N x" and w: "world_ok N D G M b L w \<and> op_ok D G schema schema' p"
  then have D: "D \<lparr>sk_collection = po_collection p, sk_shard_idx = po_shard_idx p\<rparr> = unat (cs_dim schema')" and iss: "issued_ok G"
    by (simp_all add: op_ok_def op_key_def)
  from read_one_ok [where D = D and c = "po_collection p" and i = "po_shard_idx p", OF x iss D conjunct1 [OF w], of me' "po_id p"] obtain r w' L' where
    r: "read_one_replica N me' schema' (po_collection p) (po_shard_idx p) (po_id p) x w = Some (r, w')" "world_ok N D G M b L' w'" "grow L L'"
      "\<forall>q. r = Inr q \<longrightarrow> q = map_option (point_of (po_id p)) (lww_log (L' (fst x) (op_key p)) (po_id p))" by (auto simp: op_key_def)
  have "(holds_op p L' (fst x) \<longrightarrow> (\<exists>q. y = Some q \<and> po_hlc p \<le> sp_hlc q)) \<and> (\<forall>q. y = Some q \<longrightarrow> issued_point G (op_key p) (po_id p) q)"
    if "r = Inr y" for y
    using r(4) that issued_contents [OF r(2)] by (auto simp: holds_op_def at_least_def issued_point_def)
  with r w show "\<exists>r w' L'. read_one_replica N me' schema' (po_collection p) (po_shard_idx p) (po_id p) x w = Some (r, w') \<and>
      (world_ok N D G M b L' w' \<and> op_ok D G schema schema' p) \<and> grow L L' \<and>
      (\<forall>y. r = Inr y \<longrightarrow> (holds_op p L' (fst x) \<longrightarrow> (\<exists>q. y = Some q \<and> po_hlc p \<le> sp_hlc q)) \<and>
        (\<forall>q. y = Some q \<longrightarrow> issued_point G (op_key p) (po_id p) q))" by blast
next
  fix x b L w
  assume "reachable_at N x" "world_ok N D G M (Suc b) L w \<and> op_ok D G schema schema' p"
  then show "\<exists>r w' L'. write_one_replica N me schema p x w = Some (r, w') \<and> (world_ok N D G M b L' w' \<and> op_ok D G schema schema' p) \<and>
      grow L L' \<and> (r = Inr True \<longrightarrow> holds_op p L' (fst x))"
    using write_one_ok [of N x D G schema schema' p M b L w me] by blast
qed (use grow_trans in \<open>auto simp: grow_def logs_grow_def holds_op_def\<close>)

end
