(* ===== verification/Store_Props.thy ===== *)
theory Store_Props
  imports Shard_Store
begin

text \<open>
  What a node's store promises over any history of its operations, closings and power failures,
  and what dropping a collection leaves behind.
\<close>

section \<open>Histories\<close>

text \<open>The stores a node can have, with the log of every shard: created over new directories in
  fsync mode, written by the versioned operations (a write that returns an error ends the
  history of the store), read with any result, its shards closed, restarted after a power
  failure.\<close>

inductive store_reach :: "env \<Rightarrow> (shard_key \<Rightarrow> nat) \<Rightarrow> shard_store \<Rightarrow> (shard_key \<Rightarrow> wal_record list) \<Rightarrow> bool" for E D where
  st_new: "\<forall>k. 0 < D k \<Longrightarrow> \<forall>k. \<exists>sw sn sd. dirs k = fresh_disk sw sn sd \<Longrightarrow> store_reach E D (shard_store_new mb 0 dirs) (\<lambda>_. [])"
| st_upsert: "store_reach E D st L \<Longrightarrow> sr_dim r = D (key_of r) \<Longrightarrow> length (L (key_of r)) < 2 ^ 32 \<Longrightarrow>
    wal_fits (wal_record_upsert h i v pl) \<Longrightarrow> store_upsert E r h i v pl st = Some (Inr oc, st') \<Longrightarrow>
    store_reach E D st' (L(key_of r := if oc = Applied then L (key_of r) @ [wal_record_upsert h i v pl] else L (key_of r)))"
| st_delete: "store_reach E D st L \<Longrightarrow> sr_dim r = D (key_of r) \<Longrightarrow> length (L (key_of r)) < 2 ^ 32 \<Longrightarrow>
    wal_fits (wal_record_delete h i) \<Longrightarrow> store_delete E r h i st = Some (Inr oc, st') \<Longrightarrow>
    store_reach E D st' (L(key_of r := if oc = Applied then L (key_of r) @ [wal_record_delete h i] else L (key_of r)))"
| st_get: "store_reach E D st L \<Longrightarrow> sr_dim r = D (key_of r) \<Longrightarrow> get_versioned E r i st = Some (res, st') \<Longrightarrow> store_reach E D st' L"
| st_search: "store_reach E D st L \<Longrightarrow> sr_dim r = D (key_of r) \<Longrightarrow> search_shard E r q k ef st = Some (res, st') \<Longrightarrow> store_reach E D st' L"
| st_records: "store_reach E D st L \<Longrightarrow> sr_dim r = D (key_of r) \<Longrightarrow> store_records E r st = Some (res, st') \<Longrightarrow> store_reach E D st' L"
| st_drop_shard: "store_reach E D st L \<Longrightarrow> store_reach E D (drop_shard c j st) L"
| st_drop_collection: "store_reach E D st L \<Longrightarrow> store_reach E D (store_drop_collection c st) L"
| st_restart: "store_reach E D st L \<Longrightarrow> store_reach E D (store_crash ks bs st) L"

text \<open>An operation that leaves the shard as it is, whatever it returns.\<close>

lemma with_shard_keeps:
  assumes "store_inv E D L st" "sr_dim r = D (key_of r)" "with_shard E r act st = Some (res, st')"
    and "\<And>s x s'. act s = Some (x, s') \<Longrightarrow> s' = s"
  shows "store_inv E D L st'"
proof -
  have k: "key_of r = \<lparr>sk_collection = sr_collection r, sk_shard_idx = sr_shard_idx r\<rparr>" by (simp add: key_of_def)
  from get_or_open_inv [OF assms(1) k assms(2), of "sr_metric r"] obtain q st1 where
    o: "get_or_open E (sr_collection r) (sr_shard_idx r) (sr_dim r) (sr_metric r) st = Some (q, st1)" "store_inv E D L st1"
      "\<forall>s. q = Inr s \<longrightarrow> st_shards st1 (key_of r) = Some s" by blast
  show ?thesis
  proof (cases q)
    case (Inl e)
    then show ?thesis using assms(3) o by (simp add: with_shard_def)
  next
    case (Inr s)
    then obtain x s' where x: "act s = Some (x, s')" using assms(3) o(1) by (auto simp: with_shard_def split: option.splits)
    have "st1\<lparr>st_shards := (st_shards st1)(key_of r \<mapsto> s)\<rparr> = st1" using o(3) Inr by (simp add: fun_upd_idem)
    then show ?thesis using assms(3) o Inr x assms(4) [OF x] by (cases x) (auto simp: with_shard_def)
  qed
qed

lemma fresh_dir_inv: "dir_inv E dim [] (fresh_disk sw sn sd)"
  by (simp add: dir_inv_def fresh_disk_def afile_new_def empty_file_def store_ok_def af_holds_def slot_holds_def)

lemma store_reach_inv: "store_reach E D st L \<Longrightarrow> bincode_ok E \<Longrightarrow> store_inv E D L st"
proof (induction rule: store_reach.induct)
  case (st_new dirs mb)
  have "dir_inv E (D k) [] (dirs k)" for k
  proof -
    obtain sw sn sd where "dirs k = fresh_disk sw sn sd" using st_new(2) by blast
    then show ?thesis by (simp add: fresh_dir_inv)
  qed
  then show ?case using st_new(1) by (simp add: store_inv_def shard_store_new_def key_inv_def)
next
  case (st_upsert st L r h i v pl oc st')
  then show ?case using store_upsert_inv by blast
next
  case (st_delete st L r h i oc st')
  then show ?case using store_delete_inv by blast
next
  case (st_get st L r i res st')
  show ?case
    by (rule with_shard_keeps [OF st_get.IH [OF st_get.prems] st_get.hyps(2) st_get.hyps(3) [unfolded get_versioned_def]])
      (auto simp: reading_def)
next
  case (st_search st L r q k ef res st')
  show ?case
    by (rule with_shard_keeps [OF st_search.IH [OF st_search.prems] st_search.hyps(2) st_search.hyps(3) [unfolded search_shard_def]]) auto
next
  case (st_records st L r res st')
  show ?case
    by (rule with_shard_keeps [OF st_records.IH [OF st_records.prems] st_records.hyps(2) st_records.hyps(3) [unfolded store_records_def]])
      (auto simp: reading_def)
next
  case (st_drop_shard st L c j)
  then show ?case by (simp add: drop_shard_def close_where_inv)
next
  case (st_drop_collection st L c)
  then show ?case by (simp add: store_drop_collection_def close_where_inv)
next
  case (st_restart st L ks bs)
  then show ?case by (simp add: store_crash_inv)
qed

text \<open>A read of a store with the invariant never panics.\<close>

lemma get_versioned_returns:
  assumes "store_inv E D L st" "sr_dim r = D (key_of r)"
  shows "get_versioned E r i st \<noteq> None"
proof -
  have k: "key_of r = \<lparr>sk_collection = sr_collection r, sk_shard_idx = sr_shard_idx r\<rparr>" by (simp add: key_of_def)
  from get_or_open_inv [OF assms(1) k assms(2), of "sr_metric r"] obtain q st1 where
    o: "get_or_open E (sr_collection r) (sr_shard_idx r) (sr_dim r) (sr_metric r) st = Some (q, st1)" "store_inv E D L st1"
      "\<forall>s. q = Inr s \<longrightarrow> st_shards st1 (key_of r) = Some s" by blast
  have "versioned_point i s \<noteq> None" if "q = Inr s" for s
  proof -
    have "key_inv E (D (key_of r)) (L (key_of r)) (st_shards st1 (key_of r)) (st_dirs st1 (key_of r))"
      using o(2) by (simp add: store_inv_def)
    then have "shard_inv E (L (key_of r)) s" using o(3) that by (simp add: key_inv_def)
    from versioned_point_lww [OF this] show ?thesis by simp
  qed
  then show ?thesis using o(1) by (auto simp: get_versioned_def with_shard_def reading_def split: sum.splits)
qed

text \<open>Opening succeeds when the disk does not fail.\<close>

definition calm_dir :: "shard_disk \<Rightarrow> bool" where
  "calm_dir d \<longleftrightarrow> script (sd_wal d) = [] \<and> script (af_file (sd_snap d)) = [] \<and> script (af_dir (sd_snap d)) = []"

lemma calm_crash: "calm_dir (disk_crash k b d)" "calm_dir (shard_crash k b s)"
  by (simp_all add: calm_dir_def disk_crash_def shard_crash_def af_crash_def crash_def Let_def)

lemma shard_open_calm:
  assumes "0 < dim" "dir_inv E dim rs d" "calm_dir d"
  shows "\<exists>s d'. shard_open E dim m mb batch d = Some (Inr s, d')"
proof -
  have I: "length rs \<le> 2 ^ 32" "list_all (rec_dim dim) rs" "list_all wal_fits rs" "contents (sd_wal d) = wal_log (e_crc E) rs"
    "\<not> present (sd_wal d) \<longrightarrow> contents (sd_wal d) = []"
    "store_ok E (snap_good (e_crc E) dim rs (length (contents (sd_wal d)))) (sd_snap d)"
    using assms(2) unfolding dir_inv_def by blast+
  have c: "script (sd_wal d) = []" "script (af_file (sd_snap d)) = []" "script (af_dir (sd_snap d)) = []"
    using assms(3) by (simp_all add: calm_dir_def)
  have d: "sys_call (af_dir (sd_snap d)) = (Inr (), af_dir (sd_snap d))" using c by (simp add: sys_call_ok)
  obtain snap where load: "snapshot_load E (sd_snap d) = (Inr snap, sd_snap d)"
      "\<forall>sn. snap = Some sn \<longrightarrow> snap_good (e_crc E) dim rs (length (contents (sd_wal d))) sn"
    using snapshot_load_ok [OF I(6) c(2)] by blast
  obtain ix vs off ix' vs' where im: "initial_image dim m snap = Some (ix, vs, off)" "replay E off 0 rs (ix, vs) = Some (Inr (), ix', vs')"
    using replay_from_snapshot [OF assms(1) load(2) I(2,1)] by blast
  have scan: "scan_frames (e_crc E) decode_body (wal_log (e_crc E) rs) 0 [] 0 = (rs, length (wal_log (e_crc E) rs))"
    using wal_codec.scan_log [OF I(3), of "e_crc E" "[]"] by simp
  have "rs = []" if "\<not> present (sd_wal d)"
    using that I(4,5) by (cases rs) (auto simp flip: length_0_conv)
  then have "\<exists>n. wal_recover (e_crc E) (sd_wal d) = (Inr (rs, n), sd_wal d)"
    using c(1) I(4) scan by (cases "present (sd_wal d)") (simp_all add: wal_recover_def sys_call_ok Let_def)
  moreover have "\<exists>w f. wal_open (sd_wal d) batch = (Inr w, f)"
    using c(1) by (simp add: wal_open_def sys_call_ok sys_open_create_ok)
  ultimately show ?thesis using d load(1) im by (auto simp: shard_open_def)
qed

lemma closed_get_ok:
  assumes "store_inv E D L st" "sr_dim r = D (key_of r)" "st_shards st (key_of r) = None" "calm_dir (st_dirs st (key_of r))"
  shows "\<exists>p st'. get_versioned E r i st = Some (Inr p, st')"
proof -
  let ?k = "key_of r"
  have key: "0 < D ?k" "dir_inv E (D ?k) (L ?k) (st_dirs st ?k)"
    using assms(1,3) by (auto simp: store_inv_def key_inv_def dest: spec [of _ ?k])
  from shard_open_calm [OF key assms(4), of "sr_metric r" "st_snapshot_wal_mb st" "st_wal_batch_ms st"] obtain s d where
    o: "shard_open E (D ?k) (sr_metric r) (st_snapshot_wal_mb st) (st_wal_batch_ms st) (st_dirs st ?k) = Some (Inr s, d)" by blast
  have g: "get_versioned E r i st \<noteq> None" by (rule get_versioned_returns [OF assms(1,2)])
  show ?thesis using o assms(2,3) g
    by (cases "versioned_point i s")
      (auto simp: get_versioned_def with_shard_def get_or_open_def key_of_def Let_def reading_def)
qed

lemma crashed_dirs_calm: "calm_dir (st_dirs (store_crash ks bs st) k)"
  by (simp add: store_crash_def calm_crash split: option.split)

lemma restarted_get_ok:
  assumes "store_inv E D L st" "sr_dim r = D (key_of r)"
  shows "\<exists>p st'. get_versioned E r i (store_crash ks bs st) = Some (Inr p, st')"
  by (rule closed_get_ok [OF store_crash_inv [OF assms(1)] assms(2) _ crashed_dirs_calm]) (simp add: store_crash_def)

text \<open>The store a restarted process builds over the directories the crash left, with any snapshot
  threshold.\<close>

lemma rebuilt_store_lww:
  assumes "store_inv E D L st" "sr_dim r = D (key_of r)"
  shows "\<exists>st'. get_versioned E r i (shard_store_new mb 0 (st_dirs (store_crash ks bs st))) =
     Some (Inr (map_option (point_of i) (lww_log (L (key_of r)) i)), st')"
proof -
  let ?st = "shard_store_new mb 0 (st_dirs (store_crash ks bs st))"
  have inv: "store_inv E D L ?st"
    using store_crash_inv [OF assms(1), of ks bs] by (simp add: store_inv_def shard_store_new_def store_crash_def)
  obtain p st' where "get_versioned E r i ?st = Some (Inr p, st')"
    using closed_get_ok [OF inv assms(2) _ , of i] crashed_dirs_calm by (fastforce simp: shard_store_new_def)
  with get_versioned_lww [OF inv assms(2) this] show ?thesis by blast
qed

section \<open>Properties\<close>


text \<open>A store with one point in the collection \<open>c\<close>.\<close>

definition demo_ref :: shard_ref where
  "demo_ref = \<lparr>sr_collection = [99], sr_shard_idx = 0, sr_dim = 1, sr_metric = L2\<rparr>"

definition demo_store :: shard_store where
  "demo_store = shard_store_new 0 0 (\<lambda>_. fresh_disk [] [] [])"

lemma demo_store_reach: "store_reach demo_env (\<lambda>_. 1) demo_store (\<lambda>_. [])"
  unfolding demo_store_def by (rule st_new) auto

lemma demo_store_upsert:
  "\<exists>st. store_upsert demo_env demo_ref (Hlc 5 0) 7 [3] [] demo_store = Some (Inr Applied, st) \<and>
     store_reach demo_env (\<lambda>_. 1) st ((\<lambda>_. [])(key_of demo_ref := [wal_record_upsert (Hlc 5 0) 7 [3] []]))"
proof -
  let ?r = "wal_record_upsert (Hlc 5 0) 7 [3] []"
  obtain s d where s: "shard_open demo_env 1 L2 0 0 (fresh_disk [] [] []) = Some (Inr s, d)" "faultless (sh_wal s)" "sh_threshold s = 0"
    using shard_open_fresh_ok [OF zero_less_one] by blast
  note o = shard_open_fresh [OF _ s(1)]
  have inv: "shard_inv demo_env [] s" "sh_dim s = 1" using o by simp_all
  have "\<not> is_stale s 7 (Hlc 5 0)"
    using stale_image [where i = 7 and P = "\<lambda>g. Hlc 5 0 \<le> g", OF shard_invD(4) [OF inv(1)]] by (simp add: is_stale_def)
  then obtain s' where "upsert_versioned demo_env (Hlc 5 0) 7 [3] [] s = Some (Inr Applied, s')"
    using upsert_faultless [OF inv(1) s(2,3), of "[3]" 7 "Hlc 5 0" "[]"] inv(2) by auto
  then obtain st where st: "store_upsert demo_env demo_ref (Hlc 5 0) 7 [3] [] demo_store = Some (Inr Applied, st)"
    using s(1) by (simp add: store_upsert_def demo_ref_def demo_store_def shard_store_new_def with_shard_def get_or_open_def Let_def)
  have "wal_fits ?r" by (simp add: wal_record_upsert_def fits_def rec_ok_def hlc_ok_def)
  with st_upsert [OF demo_store_reach, of demo_ref "Hlc 5 0" 7 "[3]" "[]" Applied st] st show ?thesis
    by (simp add: demo_ref_def)
qed

lemma demo_lww: "lww_log [wal_record_upsert (Hlc 5 0) 7 [3] []] 7 = Some (Hlc 5 0, Some [3])"
  by (simp add: lww_log_def lww_apply_def wal_record_upsert_def rec_value_def)


text \<open>C39. Dropping a collection closes its shards and leaves their files: the next use of the same
  name and dimension, at once or after a restart, reads every point of the dropped collection.\<close>

theorem dropped_collection_resurrects:
  assumes "bincode_ok E" "store_reach E D st L" "sr_dim r = D (key_of r)"
  shows "(\<forall>p st'. get_versioned E r i (store_drop_collection (sr_collection r) st) = Some (Inr p, st') \<longrightarrow>
      p = map_option (point_of i) (lww_log (L (key_of r)) i)) \<and>
    (\<exists>st'. get_versioned E r i (store_crash ks bs (store_drop_collection (sr_collection r) st)) =
      Some (Inr (map_option (point_of i) (lww_log (L (key_of r)) i)), st'))"
proof -
  have inv: "store_inv E D L (store_drop_collection (sr_collection r) st)"
    unfolding store_drop_collection_def by (rule close_where_inv [OF store_reach_inv [OF assms(2,1)]])
  obtain p st' where "get_versioned E r i (store_crash ks bs (store_drop_collection (sr_collection r) st)) = Some (Inr p, st')"
    using restarted_get_ok [OF inv assms(3)] by blast
  with get_versioned_lww [OF store_crash_inv [OF inv] assms(3)] get_versioned_lww [OF inv assms(3)] show ?thesis by blast
qed

theorem dropped_collection_resurrects_witness:
  "\<exists>st p st'. store_upsert demo_env demo_ref (Hlc 5 0) 7 [3] [] demo_store = Some (Inr Applied, st) \<and>
     get_versioned demo_env demo_ref 7 (store_crash (\<lambda>_. 0) (\<lambda>_. True) (store_drop_collection [99] st)) = Some (Inr (Some p), st') \<and>
     sp_vector p = [3]"
proof -
  obtain st where st: "store_upsert demo_env demo_ref (Hlc 5 0) 7 [3] [] demo_store = Some (Inr Applied, st)"
     "store_reach demo_env (\<lambda>_. 1) st ((\<lambda>_. [])(key_of demo_ref := [wal_record_upsert (Hlc 5 0) 7 [3] []]))"
    using demo_store_upsert by blast
  have "sr_dim demo_ref = 1" "sr_collection demo_ref = [99]" by (simp_all add: demo_ref_def)
  with dropped_collection_resurrects [OF bincode_demo st(2), of demo_ref 7 "\<lambda>_. 0" "\<lambda>_. True"] st(1) show ?thesis
    by (auto simp: demo_lww point_of_def)
qed

end
