(* ===== verification/Demo_Cluster.thy ===== *)
theory Demo_Cluster
  imports Replica_Access Store_Props
begin

text \<open>
  A cluster of three nodes with one collection of one shard on all of them, for concrete runs.
\<close>

definition demo_coll :: collection_schema where
  "demo_coll = \<lparr>cs_dim = 1, cs_metric = MetricL2, cs_shard_count = 1, cs_replication_n = 3\<rparr>"

definition demo_meta :: meta_state where
  "demo_meta = \<lparr>ms_nodes = [(1, [1]), (2, [2]), (3, [3])], ms_collections = [([99], demo_coll)], ms_shard_states = []\<rparr>"

definition demo_net :: net where
  "demo_net = \<lparr>nt_env = demo_env, nt_hash = (\<lambda>_ _. 0),
     nt_at = (\<lambda>a. if a = [1] then Some 1 else if a = [2] then Some 2 else if a = [3] then Some 3 else None)\<rparr>"

definition demo_node :: "shard_store \<Rightarrow> node" where
  "demo_node st = node_new [] demo_meta st empty_file"

definition demo_issued :: issued where
  "demo_issued k i = (if i = 7 then {(Hlc 5 0, Some [3])} else {})"

definition demo_world :: "event list \<Rightarrow> world" where
  "demo_world evs = \<lparr>w_nodes = (\<lambda>_. demo_node demo_store), w_events = evs, w_times = [Some 5], w_spawned = []\<rparr>"

definition demo_event :: "outcome \<Rightarrow> event" where
  "demo_event oc = \<lparr>ev_between = id, ev_outcome = oc, ev_time = None\<rparr>"

lemma demo_sref: "sref_of [99] demo_coll 0 = demo_ref"
  by (simp add: sref_of_def demo_coll_def demo_ref_def metric_from_cluster_def)

lemma demo_replicas: "replicas_with_addrs (\<lambda>_ _. 0) demo_meta [99] 0 = [(1, [1]), (2, [2]), (3, [3])]"
  by code_simp

lemma demo_home_shard: "shard_for_id (\<lambda>_ _. 0) j (cs_shard_count demo_coll) = Some 0"
  by (simp add: shard_for_id_def demo_coll_def)

lemma demo_mem: "store_mem demo_env (\<lambda>_. 1) (\<lambda>_. []) demo_store"
  by (rule store_inv_mem [OF store_reach_inv [OF demo_store_reach bincode_demo]])

lemma demo_world_ok:
  assumes "b \<le> 2 ^ 32"
  shows "world_ok demo_net (\<lambda>_. 1) demo_issued (\<lambda>_. demo_meta) b (\<lambda>_ _. []) (demo_world (map demo_event ocs))"
proof -
  have "node_ok demo_env (\<lambda>_. 1) demo_issued b (\<lambda>_. []) (demo_node demo_store)"
    using assms demo_mem by (auto simp: node_ok_def demo_node_def node_new_def demo_meta_def demo_coll_def)
  then have "nodes_ok demo_net (\<lambda>_. 1) demo_issued (\<lambda>_. demo_meta) b (\<lambda>_ _. []) (\<lambda>_. demo_node demo_store)"
    by (simp add: nodes_ok_def demo_net_def demo_node_def node_new_def)
  moreover have "list_all2 (\<lambda>c e. rely demo_net (\<lambda>_. 1) demo_issued (\<lambda>_. demo_meta) c (ev_between e)) (replicate (length ocs) 0) (map demo_event ocs)"
    by (simp add: list_all2_conv_all_nth demo_event_def rely_id)
  ultimately show ?thesis unfolding world_ok_def demo_world_def
    by (intro exI [of _ "replicate (length ocs) 0"]) (simp add: sum_list_replicate)
qed

section \<open>The stores of the replicas\<close>

definition demo_written :: shard_store where
  "demo_written = snd (the (store_upsert demo_env demo_ref (Hlc 5 0) 7 [3] [] demo_store))"

definition demo_opened :: shard_store where
  "demo_opened = snd (the (get_versioned demo_env demo_ref 7 demo_store))"

lemma demo_write: "store_upsert demo_env demo_ref (Hlc 5 0) 7 [3] [] demo_store = Some (Inr Applied, demo_written)"
  using demo_store_upsert by (auto simp: demo_written_def)

lemma demo_written_reach:
  "store_reach demo_env (\<lambda>_. 1) demo_written ((\<lambda>_. [])(key_of demo_ref := [wal_record_upsert (Hlc 5 0) 7 [3] []]))"
  using demo_store_upsert by (auto simp: demo_written_def)

lemma with_shard_opens:
  assumes "with_shard E r act st = Some (Inr a, st')"
  shows "st_shards st' (key_of r) \<noteq> None"
  using assms by (auto simp: with_shard_def split: option.splits sum.splits prod.splits)

lemma open_read:
  assumes "store_inv E D L st" "sr_dim r = D (key_of r)" "st_shards st (key_of r) \<noteq> None"
  shows "get_versioned E r i st = Some (Inr (map_option (point_of i) (lww_log (L (key_of r)) i)), st)"
proof -
  obtain s where s: "st_shards st (key_of r) = Some s" using assms(3) by auto
  have "key_inv E (D (key_of r)) (L (key_of r)) (st_shards st (key_of r)) (st_dirs st (key_of r))"
    using assms(1) by (simp add: store_inv_def)
  then have "shard_inv E (L (key_of r)) s" using s by (simp add: key_inv_def)
  then have v: "versioned_point i s = Some (map_option (point_of i) (lww_log (L (key_of r)) i))" by (rule versioned_point_lww)
  have "st\<lparr>st_shards := (st_shards st)(key_of r \<mapsto> s)\<rparr> = st" using s by (simp add: fun_upd_idem)
  with s v show ?thesis by (simp add: get_versioned_def with_shard_def get_or_open_def key_of_def reading_def)
qed

lemma demo_read_written: "get_versioned demo_env demo_ref 7 demo_written = Some (Inr (Some (point_of 7 (Hlc 5 0, Some [3]))), demo_written)"
proof -
  have "with_shard demo_env demo_ref (upsert_versioned demo_env (Hlc 5 0) 7 [3] []) demo_store = Some (Inr Applied, demo_written)"
    using demo_write by (simp add: store_upsert_def demo_ref_def)
  from open_read [OF store_reach_inv [OF demo_written_reach bincode_demo] _ with_shard_opens [OF this]] show ?thesis
    by (simp add: demo_lww demo_ref_def)
qed

lemma demo_read_fresh: "get_versioned demo_env demo_ref 7 demo_store = Some (Inr None, demo_opened)"
proof -
  obtain s d where "shard_open demo_env 1 L2 0 0 (fresh_disk [] [] []) = Some (Inr s, d)"
    using shard_open_fresh_ok [OF zero_less_one] by blast
  then obtain p st where p: "get_versioned demo_env demo_ref 7 demo_store = Some (Inr p, st)"
    using get_versioned_returns [OF store_reach_inv [OF demo_store_reach bincode_demo], of demo_ref 7]
    by (cases "versioned_point 7 s") (auto simp: get_versioned_def with_shard_def get_or_open_def demo_ref_def demo_store_def
        shard_store_new_def Let_def reading_def)
  have "p = None" using get_versioned_lww [OF store_reach_inv [OF demo_store_reach bincode_demo] _ p] by (simp add: demo_ref_def)
  with p show ?thesis by (simp add: demo_opened_def)
qed

section \<open>Requests\<close>

definition demo_op :: point_op where
  "demo_op = \<lparr>po_collection = [99], po_shard_idx = 0, po_op = OP_UPSERT, po_id = 7, po_hlc = Hlc 5 0, po_vector = [3], po_payload = []\<rparr>"

lemma demo_op_ok: "op_ok (\<lambda>_. 1) demo_issued demo_coll demo_coll demo_op"
  by (simp add: op_ok_def issued_ok_def demo_issued_def op_value_def demo_op_def OP_UPSERT_def OP_DELETE_def demo_coll_def hlc_ok_def)

lemma demo_reachable: "list_all (reachable_at demo_net) [(1, [1]), (2, [2]), (3, [3])]"
  by (simp add: reachable_at_def demo_net_def)

lemma demo_local_write:
  assumes "nd_shards nd = demo_store"
  shows "on_shards (store_write demo_env demo_ref False (Hlc 5 0) 7 [3] []) nd = Some (Inr Applied, nd\<lparr>nd_shards := demo_written\<rparr>)"
  using assms demo_write by (simp add: on_shards_def store_write_def)

lemma demo_remote_write:
  assumes "nd_shards nd = demo_store" "nd_cluster nd = demo_meta"
  shows "\<exists>ck. replica_write demo_env (request_of demo_op) t nd = Some (Inr True, nd\<lparr>nd_clock := ck, nd_shards := demo_written\<rparr>)"
proof -
  have "hlc_unpack (hlc_pack (Hlc 5 0)) = Hlc 5 0" by (rule hlc_unpack_pack) (simp add: hlc_ok_def)
  then have "replica_write demo_env (request_of demo_op) t nd =
      Some (Inr True, nd\<lparr>nd_clock := snd (clock_update t (Hlc 5 0) (nd_clock nd)), nd_shards := demo_written\<rparr>)"
    using assms demo_local_write [of "nd\<lparr>nd_clock := snd (clock_update t (Hlc 5 0) (nd_clock nd))\<rparr>"]
    by (simp add: replica_write_def with_schema_def demo_meta_def apply_replica_write_def request_of_def demo_op_def Let_def and_then_def
        demo_sref OP_UPSERT_def OP_DELETE_def)
  then show ?thesis by blast
qed

text \<open>The stores and the metadata of the three nodes.\<close>

definition demo_stores :: "(node_id \<Rightarrow> shard_store) \<Rightarrow> world \<Rightarrow> bool" where
  "demo_stores f w \<longleftrightarrow> (\<forall>n. nd_shards (w_nodes w n) = f n \<and> nd_cluster (w_nodes w n) = demo_meta)"

text \<open>A write at node 1 that reaches node 2 and not node 3.\<close>

lemma demo_write_all:
  assumes "demo_stores (\<lambda>_. demo_store) w" "w_events w = [demo_event Answered, demo_event Unreachable]"
  shows "\<exists>w'. write_all (write_one_replica demo_net 1 demo_coll demo_op) [(1, [1]), (2, [2]), (3, [3])] 0 [] w = Some ((2, [3]), w') \<and>
    w_events w' = [] \<and> demo_stores (\<lambda>n. if n = 1 \<or> n = 2 then demo_written else demo_store) w' \<and>
    nd_hint_log (w_nodes w' 1) = nd_hint_log (w_nodes w 1)"
proof -
  let ?w1 = "w\<lparr>w_nodes := (w_nodes w)(1 := (w_nodes w 1)\<lparr>nd_shards := demo_written\<rparr>)\<rparr>"
  have l: "write_one_replica demo_net 1 demo_coll demo_op (1, [1]) w = Some (Inr True, ?w1)"
    using demo_local_write [of "w_nodes w 1"] assms(1)
    by (simp add: write_one_replica_def demo_net_def demo_op_def demo_sref OP_UPSERT_def OP_DELETE_def on_node_def demo_stores_def)
  have "nd_shards (w_nodes w 2) = demo_store" "nd_cluster (w_nodes w 2) = demo_meta" using assms(1) by (simp_all add: demo_stores_def)
  from demo_remote_write [OF this, of None] obtain ck where
    ck: "replica_write demo_env (request_of demo_op) None (w_nodes w 2) = Some (Inr True, (w_nodes w 2)\<lparr>nd_clock := ck, nd_shards := demo_written\<rparr>)" by blast
  let ?w2 = "?w1\<lparr>w_events := [demo_event Unreachable], w_nodes := (w_nodes ?w1)(2 := (w_nodes w 2)\<lparr>nd_clock := ck, nd_shards := demo_written\<rparr>)\<rparr>"
  have r: "write_one_replica demo_net 1 demo_coll demo_op (2, [2]) ?w1 = Some (Inr True, ?w2)"
    using ck assms(2)
    by (simp add: write_one_replica_def demo_net_def rpc_def next_event_def demo_event_def on_node_def and_then_def)
  have u: "write_one_replica demo_net 1 demo_coll demo_op (3, [3]) ?w2 = Some (Inl ConnError, ?w2\<lparr>w_events := []\<rparr>)"
    by (simp add: write_one_replica_def demo_net_def rpc_def next_event_def demo_event_def and_then_def)
  have "write_all (write_one_replica demo_net 1 demo_coll demo_op) [(1, [1]), (2, [2]), (3, [3])] 0 [] w = Some ((2, [3]), ?w2\<lparr>w_events := []\<rparr>)"
    using l r u by simp
  moreover have "demo_stores (\<lambda>n. if n = 1 \<or> n = 2 then demo_written else demo_store) (?w2\<lparr>w_events := []\<rparr>)"
    using assms(1) by (auto simp: demo_stores_def)
  ultimately show ?thesis by (intro exI [of _ "?w2\<lparr>w_events := []\<rparr>"]) simp
qed

lemma demo_replicate:
  assumes "demo_stores (\<lambda>_. demo_store) w" "w_events w = [demo_event Answered, demo_event Unreachable]"
    "script (nd_hint_log (w_nodes w 1)) = []"
  shows "\<exists>w'. replicate_write demo_net 1 demo_meta demo_coll demo_op Quorum w = Some (Inr (), w') \<and>
    w_events w' = [] \<and> demo_stores (\<lambda>n. if n = 1 \<or> n = 2 then demo_written else demo_store) w'"
proof -
  obtain w1 where w1: "write_all (write_one_replica demo_net 1 demo_coll demo_op) [(1, [1]), (2, [2]), (3, [3])] 0 [] w = Some ((2, [3]), w1)"
      "w_events w1 = []" "demo_stores (\<lambda>n. if n = 1 \<or> n = 2 then demo_written else demo_store) w1"
      "script (nd_hint_log (w_nodes w1 1)) = []" using demo_write_all [OF assms(1,2)] assms(3) by auto
  obtain f where f: "buffer_hint (e_crc demo_env) (hint_for demo_op 3) (nd_hint_log (w_nodes w1 1)) = (Inr (), f)"
    using buffer_hint_faultless [OF w1(4)] by blast
  have "replicate_write demo_net 1 demo_meta demo_coll demo_op Quorum w =
      Some (Inr (), w1\<lparr>w_nodes := (w_nodes w1)(1 := (w_nodes w1 1)\<lparr>nd_hint_log := f\<rparr>)\<rparr>)"
    using w1(1) f demo_replicas
    by (simp add: replicate_write_def demo_net_def demo_op_def count_def Let_def on_node_def on_hints_def and_then_def)
  moreover have "demo_stores (\<lambda>n. if n = 1 \<or> n = 2 then demo_written else demo_store)
      (w1\<lparr>w_nodes := (w_nodes w1)(1 := (w_nodes w1 1)\<lparr>nd_hint_log := f\<rparr>)\<rparr>)" using w1(3) by (auto simp: demo_stores_def)
  ultimately show ?thesis using w1(2) by auto
qed

text \<open>The stamp of node 1 at system time 5.\<close>

lemma demo_stamp:
  assumes "w_times w = [Some 5]" "nd_clock (w_nodes w 1) = clock_new"
  shows "\<exists>ck. stamp 1 w = (Hlc 5 0, w\<lparr>w_times := [], w_nodes := (w_nodes w)(1 := (w_nodes w 1)\<lparr>nd_clock := ck\<rparr>)\<rparr>)"
proof -
  have "stamp 1 w = (Hlc 5 0, w\<lparr>w_times := [], w_nodes := (w_nodes w)(1 := (w_nodes w 1)\<lparr>nd_clock := \<lparr>last_hlc = Hlc 5 0\<rparr>\<rparr>)\<rparr>)"
    using assms by (simp add: stamp_def next_time_def clock_now_def clock_new_def hlc_ZERO_def wall_now_ms_def hlc_new_def Let_def)
  then show ?thesis by blast
qed

lemma demo_next: "next_event (demo_world (demo_event oc # evs)) = (demo_event oc, demo_world evs)"
  unfolding next_event_def demo_world_def by (simp add: demo_event_def)

lemma demo_upsert:
  "\<exists>w1. coordinate_upsert demo_net 1 [99] [(7, [3], [])] Quorum (demo_world (map demo_event [Answered, Answered, Unreachable])) = Some (Inr 1, w1) \<and>
     fst (stamp 1 (snd (next_event (demo_world (map demo_event [Answered, Answered, Unreachable]))))) = Hlc 5 0 \<and>
     w_events w1 = [] \<and> demo_stores (\<lambda>n. if n = 1 \<or> n = 2 then demo_written else demo_store) w1"
proof -
  let ?w = "demo_world [demo_event Answered, demo_event Answered, demo_event Unreachable]"
  let ?u = "snd (next_event ?w)"
  have n: "next_event ?w = (demo_event Answered, demo_world [demo_event Answered, demo_event Unreachable])"
    by (rule demo_next)
  have sch: "schema_of 1 [99] ?w = Some (Inr (demo_meta, demo_coll), ?u)"
    unfolding schema_of_def n by (simp add: Let_def demo_world_def demo_node_def node_new_def demo_meta_def)
  obtain ck where st: "stamp 1 ?u = (Hlc 5 0, ?u\<lparr>w_times := [], w_nodes := (w_nodes ?u)(1 := (w_nodes ?u 1)\<lparr>nd_clock := ck\<rparr>)\<rparr>)"
    using demo_stamp [of ?u] unfolding n by (auto simp: demo_world_def demo_node_def node_new_def)
  let ?w1 = "?u\<lparr>w_times := [], w_nodes := (w_nodes ?u)(1 := (w_nodes ?u 1)\<lparr>nd_clock := ck\<rparr>)\<rparr>"
  have "demo_stores (\<lambda>_. demo_store) ?w1" "w_events ?w1 = [demo_event Answered, demo_event Unreachable]" "script (nd_hint_log (w_nodes ?w1 1)) = []"
    unfolding n by (auto simp: demo_stores_def demo_world_def demo_node_def node_new_def empty_file_def)
  from demo_replicate [OF this] obtain w' where
    w': "replicate_write demo_net 1 demo_meta demo_coll demo_op Quorum ?w1 = Some (Inr (), w')" "w_events w' = []"
      "demo_stores (\<lambda>n. if n = 1 \<or> n = 2 then demo_written else demo_store) w'" by blast
  have len: "length [3 :: f32] = unat (cs_dim demo_coll)" by (simp add: demo_coll_def)
  have sh: "shard_for_id (nt_hash demo_net) 7 (cs_shard_count demo_coll) = Some 0" using demo_home_shard by (simp add: demo_net_def)
  have "coordinate_upsert demo_net 1 [99] [(7, [3], [])] Quorum ?w = Some (Inr 1, w')"
    using w'(1) len by (simp add: coordinate_upsert_def sch sh st and_then_def Let_def flip: demo_op_def)
  with w'(2,3) st show ?thesis by auto
qed

text \<open>A read at node 2 that reaches all three replicas.\<close>

lemma demo_remote_read:
  assumes "nd_cluster nd = demo_meta" "get_versioned demo_env demo_ref 7 (nd_shards nd) = Some (Inr p, st)"
  shows "replica_get demo_env \<lparr>gq_collection = [99], gq_shard_idx = 0, gq_ids = [7]\<rparr> t nd =
    Some (Inr (case p of None \<Rightarrow> [] | Some q \<Rightarrow> [replica_of q]), nd\<lparr>nd_shards := st\<rparr>)"
  using assms by (simp add: replica_get_def with_schema_def demo_meta_def apply_replica_get_def demo_sref on_shards_def and_then_def
      replica_of_def split: option.split)

lemma demo_get:
  assumes "demo_stores (\<lambda>n. if n = 1 \<or> n = 2 then demo_written else demo_store) w" "w_events w = []"
  shows "\<exists>w2. coordinate_get demo_net 2 [99] [7] Quorum w = Some (Inr [(7, [3])], w2)"
proof -
  let ?p = "point_of 7 (Hlc 5 0, Some [3])"
  let ?r = "read_one_replica demo_net 2 demo_coll [99] 0 7"
  have st: "stored_of (replica_of ?p) = ?p" by (rule stored_of_replica) (simp add: hlc_ok_def)
  have nd: "nd_cluster (w_nodes w n) = demo_meta" "nd_shards (w_nodes w 1) = demo_written" "nd_shards (w_nodes w 2) = demo_written"
    "nd_shards (w_nodes w 3) = demo_store" for n using assms(1) by (auto simp: demo_stores_def)
  let ?w3 = "w\<lparr>w_nodes := (w_nodes w)(3 := (w_nodes w 3)\<lparr>nd_shards := demo_opened\<rparr>)\<rparr>"
  have same: "w\<lparr>w_nodes := (w_nodes w)(n := (w_nodes w n)\<lparr>nd_shards := nd_shards (w_nodes w n)\<rparr>)\<rparr> = w" for n by simp
  have "?r (1, [1]) w = Some (Inr (Some ?p), w)"
    using demo_remote_read [OF nd(1), of 1 "Some ?p" demo_written None] demo_read_written nd(2) assms(2) st same [of 1]
    by (simp add: read_one_replica_def demo_net_def rpc_def next_event_def quiet_event_def on_node_def and_then_def)
  moreover have "?r (2, [2]) w = Some (Inr (Some ?p), w)"
    using demo_read_written nd(3) same [of 2]
    by (simp add: read_one_replica_def demo_net_def on_node_def on_shards_def demo_sref)
  moreover have "?r (3, [3]) w = Some (Inr None, ?w3)"
    using demo_remote_read [OF nd(1), of 3 None demo_opened None] demo_read_fresh nd(4) assms(2)
    by (simp add: read_one_replica_def demo_net_def rpc_def next_event_def quiet_event_def on_node_def and_then_def)
  ultimately have all: "read_all ?r [(1, [1]), (2, [2]), (3, [3])] [] w =
      Some ([(1, [1], Some ?p), (2, [2], Some ?p), (3, [3], None)], ?w3)" by simp
  have win: "max_by_hlc (List.map_filter (snd \<circ> snd) [(1 :: node_id, [1 :: byte], Some ?p), (2, [2], Some ?p), (3, [3], None)]) = Some ?p"
    by (simp add: List.map_filter_def)
  have sch: "schema_of 2 [99] w = Some (Inr (demo_meta, demo_coll), w)"
    using assms(2) nd(1) [of 2] by (simp add: schema_of_def next_event_def demo_meta_def)
  have sh: "shard_for_id (nt_hash demo_net) 7 (cs_shard_count demo_coll) = Some 0" using demo_home_shard by (simp add: demo_net_def)
  have rep: "replicas_with_addrs (nt_hash demo_net) demo_meta [99] 0 = [(1, [1]), (2, [2]), (3, [3])]" using demo_replicas by (simp add: demo_net_def)
  have "\<exists>w2. spawn_read_repair demo_net 2 [99] 0 demo_coll [(1, [1], Some ?p), (2, [2], Some ?p), (3, [3], None)] ?p ?w3 = Some w2"
    by (simp add: spawn_read_repair_def behind_def)
  then show ?thesis using sch sh rep all win
    by (auto simp: coordinate_get_def and_then_def count_def point_of_def)
qed

section \<open>Other starting points\<close>

lemma demo_op_hint_fits: "hint_fits (hint_for demo_op n)"
  by (simp add: hint_for_def demo_op_def fits_def hint_ok_def encode_hint_split hint_record_def utf8_lead_def hlc_ok_def)

text \<open>A world in which node \<open>m\<close> has the store \<open>st\<close> with the logs \<open>l\<close> and the others are new.\<close>

definition demo_world_at :: "node_id \<Rightarrow> node \<Rightarrow> world" where
  "demo_world_at m nd = \<lparr>w_nodes = (\<lambda>_. demo_node demo_store)(m := nd), w_events = [], w_times = [], w_spawned = []\<rparr>"

lemma demo_world_at_ok:
  assumes "node_ok demo_env (\<lambda>_. 1) demo_issued b l nd" "nd_cluster nd = demo_meta" "b \<le> 2 ^ 32"
  shows "world_ok demo_net (\<lambda>_. 1) demo_issued (\<lambda>_. demo_meta) b ((\<lambda>_ _. [])(m := l)) (demo_world_at m nd)"
proof -
  have "node_ok demo_env (\<lambda>_. 1) demo_issued b (\<lambda>_. []) (demo_node demo_store)"
    using assms demo_mem by (auto simp: node_ok_def demo_node_def node_new_def demo_meta_def demo_coll_def)
  then show ?thesis using assms(1,2) unfolding world_ok_def demo_world_at_def
    by (intro exI [of _ "[]"]) (simp add: nodes_ok_def demo_net_def demo_node_def node_new_def)
qed

definition demo_logs :: logs where
  "demo_logs = (\<lambda>_. [])(key_of demo_ref := [wal_record_upsert (Hlc 5 0) 7 [3] []])"

lemma demo_logs_lww: "lww_log (demo_logs k) i = Some x \<longleftrightarrow> k = key_of demo_ref \<and> i = 7 \<and> x = (Hlc 5 0, Some [3])"
  by (auto simp: demo_logs_def lww_log_def lww_apply_def wal_record_upsert_def rec_value_def)

lemma demo_node_ok:
  assumes "store_reach demo_env (\<lambda>_. 1) st demo_logs" "b \<le> 99"
  shows "node_ok demo_env (\<lambda>_. 1) demo_issued b demo_logs (demo_node st)"
proof -
  have "store_mem demo_env (\<lambda>_. 1) demo_logs st" by (rule store_inv_mem [OF store_reach_inv [OF assms(1) bincode_demo]])
  moreover have "length (demo_logs k) + b \<le> 2 ^ 32" for k using assms(2) by (simp add: demo_logs_def)
  ultimately show ?thesis
    unfolding node_ok_def by (auto simp: demo_logs_lww demo_issued_def demo_node_def node_new_def demo_meta_def demo_coll_def)
qed

lemma demo_written_logs: "store_reach demo_env (\<lambda>_. 1) demo_written demo_logs"
  using demo_written_reach by (simp add: demo_logs_def)

lemma demo_written_open: "st_shards demo_written \<lparr>sk_collection = [99], sk_shard_idx = 0\<rparr> \<noteq> None"
proof -
  have "with_shard demo_env demo_ref (upsert_versioned demo_env (Hlc 5 0) 7 [3] []) demo_store = Some (Inr Applied, demo_written)"
    using demo_write by (simp add: store_upsert_def demo_ref_def)
  from with_shard_opens [OF this] show ?thesis by (simp add: key_of_def demo_ref_def)
qed

lemma demo_records: "store_records demo_env demo_ref demo_written = Some (Inr [(7, Hlc 5 0, False, [3])], demo_written)"
proof -
  obtain s where s: "st_shards demo_written (key_of demo_ref) = Some s" using demo_written_open by (auto simp: key_of_def demo_ref_def)
  have inv: "store_inv demo_env (\<lambda>_. 1) demo_logs demo_written" by (rule store_reach_inv [OF demo_written_logs bincode_demo])
  then have "key_inv demo_env 1 (demo_logs (key_of demo_ref)) (st_shards demo_written (key_of demo_ref)) (st_dirs demo_written (key_of demo_ref))"
    by (simp add: store_inv_def)
  then have "shard_inv demo_env (demo_logs (key_of demo_ref)) s" using s by (simp add: key_inv_def)
  from image_ok_records [OF shard_invD(4) [OF this]] obtain rows where
    r: "shard_records s = Some rows" "distinct (map fst rows)"
      "\<forall>i h tomb x. (i, h, tomb, x) \<in> set rows \<longleftrightarrow> (\<exists>v. lww_log (demo_logs (key_of demo_ref)) i = Some (h, v) \<and> tomb = (v = None) \<and>
         x = (case v of None \<Rightarrow> [] | Some x \<Rightarrow> x))" by blast
  then have set: "set rows = {(7, Hlc 5 0, False, [3])}" by (auto simp: demo_logs_lww)
  then have "length rows = 1" using distinct_card [OF r(2)] by simp
  then obtain row where "rows = [row]" by (auto simp: length_Suc_conv)
  with set have "rows = [(7, Hlc 5 0, False, [3])]" by simp
  moreover have "demo_written\<lparr>st_shards := (st_shards demo_written)(key_of demo_ref \<mapsto> s)\<rparr> = demo_written" using s by (simp add: fun_upd_idem)
  ultimately show ?thesis using s r(1) by (simp add: store_records_def with_shard_def get_or_open_def key_of_def reading_def)
qed

end
