(* ===== verification/Router_Props.thy ===== *)
theory Router_Props
  imports Demo_Cluster
begin

text \<open>
  The properties of the coordinator: quorums overlap, a read quorum sees every acknowledged
  write, a replica that missed a write has a durable hint.
\<close>

section \<open>Replica lists\<close>

lemma distinct_walk: "distinct acc \<Longrightarrow> distinct (walk want ns acc)"
  by (induction want ns acc rule: walk.induct) (auto simp: Let_def)

lemma distinct_meta_replicas: "distinct (meta_replicas_for_shard X s c i)"
  by (simp add: meta_replicas_for_shard_def ring_replicas_for_shard_def distinct_walk Let_def split: option.split)

lemma map_filter_Cons: "List.map_filter f (x # xs) = (case f x of None \<Rightarrow> List.map_filter f xs | Some y \<Rightarrow> y # List.map_filter f xs)"
  by (cases "f x") (simp_all add: List.map_filter_def)

lemma fst_with_addrs: "map fst (List.map_filter (with_addr meta) ns) = filter (\<lambda>n. map_of (ms_nodes meta) n \<noteq> None) ns"
  by (induction ns) (auto simp: map_filter_Cons with_addr_def List.map_filter_def split: option.splits)

lemma distinct_replicas [simp]: "distinct (map fst (replicas_with_addrs X meta c i))"
  by (simp add: replicas_with_addrs_def fst_with_addrs distinct_meta_replicas)

section \<open>Consistency levels\<close>

lemma count_bounds: "1 \<le> count cons n" "0 < n \<Longrightarrow> count cons n \<le> n"
  by (auto simp: count_def split: consistency.splits)

section \<open>Winners\<close>

lemma max_by_hlc_props:
  "(max_by_hlc ps = None \<longleftrightarrow> ps = []) \<and> (\<forall>q. max_by_hlc ps = Some q \<longrightarrow> q \<in> set ps \<and> (\<forall>p \<in> set ps. sp_hlc p \<le> sp_hlc q))"
  by (induction ps) (auto split: option.splits if_splits intro: order_trans [OF _ less_imp_le])

lemma set_map_filter: "y \<in> set (List.map_filter f xs) \<longleftrightarrow> (\<exists>x \<in> set xs. f x = Some y)"
  by (induction xs) (auto simp: map_filter_Cons List.map_filter_def split: option.splits)

section \<open>Steps of a coordinator keep the invariant\<close>

lemma schema_of_ok:
  assumes "world_ok N D G M b L w"
  shows "\<exists>L'. world_ok N D G M b L' (snd (next_event w)) \<and> grow L L' \<and>
    schema_of me c w = Some (case map_of (ms_collections (M me)) c of
      None \<Rightarrow> Inl (RNotFound c) | Some schema \<Rightarrow> Inr (M me, schema), snd (next_event w))"
proof -
  from next_event_ok [OF assms] obtain L' where L': "world_ok N D G M b L' (snd (next_event w))" "grow L L'" by blast
  then have "nd_cluster (w_nodes (snd (next_event w)) me) = M me" by (auto simp: world_ok_def nodes_ok_def)
  with L' show ?thesis by (auto simp: schema_of_def Let_def split: option.split)
qed

lemma schema_dim:
  assumes "world_ok N D G M b L w" "map_of (ms_collections (M me)) c = Some schema"
  shows "D \<lparr>sk_collection = c, sk_shard_idx = i\<rparr> = unat (cs_dim schema)"
  using assms unfolding world_ok_def nodes_ok_def node_ok_def by metis

lemma stamp_ok:
  "world_ok N D G M b L (snd (stamp me w)) = world_ok N D G M b L w"
  "hlc_ok (fst (stamp me w))"
proof -
  obtain t w1 where t: "next_time w = (t, w1)" by fastforce
  have w1: "w_nodes w1 = w_nodes w" "w_events w1 = w_events w" using t by (auto simp: next_time_def split: list.splits)
  obtain h ck where h: "clock_now t (nd_clock (w_nodes w me)) = (h, ck)" by fastforce
  have s: "stamp me w = (h, w1\<lparr>w_nodes := (w_nodes w1)(me := (w_nodes w1 me)\<lparr>nd_clock := ck\<rparr>)\<rparr>)"
    using t h w1 by (simp add: stamp_def)
  show "world_ok N D G M b L (snd (stamp me w)) = world_ok N D G M b L w"
    unfolding s by (rule world_ok_fields) (simp_all add: w1)
  have "h = last_hlc ck" using h by (auto simp: clock_now_def Let_def)
  with clock_now_ok [of t "nd_clock (w_nodes w me)"] h show "hlc_ok (fst (stamp me w))" by (simp add: s clock_ok_def)
qed

lemma on_hints_ok:
  assumes "on_node me (on_hints act) w = Some (r, w')"
  shows "world_ok N D G M b L w' = world_ok N D G M b L w"
proof -
  from assms obtain f where "w' = w\<lparr>w_nodes := (w_nodes w)(me := (w_nodes w me)\<lparr>nd_hint_log := f\<rparr>)\<rparr>"
    by (auto simp: on_node_def on_hints_def split: prod.splits)
  then show ?thesis by (intro world_ok_fields) simp_all
qed

lemma on_hints_total: "\<exists>r w'. on_node me (on_hints act) w = Some (r, w')"
  by (auto simp: on_node_def on_hints_def split: prod.splits)

text \<open>A replicated write: it does not panic, keeps the invariant, and if it is acknowledged enough
  replicas hold it.\<close>

lemma replicate_write_ok:
  assumes "list_all (reachable_at N) (replicas_with_addrs (nt_hash N) meta (po_collection p) (po_shard_idx p))"
    and "op_ok D G schema schema p"
    and "world_ok N D G M (b + length (replicas_with_addrs (nt_hash N) meta (po_collection p) (po_shard_idx p))) L w"
  shows "\<exists>r w' L'. replicate_write N me meta schema p cons w = Some (r, w') \<and> world_ok N D G M b L' w' \<and> grow L L' \<and>
    (r = Inr () \<longrightarrow> (\<exists>k un. k + length un = length (replicas_with_addrs (nt_hash N) meta (po_collection p) (po_shard_idx p)) \<and>
       count cons (length (replicas_with_addrs (nt_hash N) meta (po_collection p) (po_shard_idx p))) \<le> k \<and>
       (\<forall>n \<in> fst ` set (replicas_with_addrs (nt_hash N) meta (po_collection p) (po_shard_idx p)). n \<notin> set un \<longrightarrow> holds_op p L' n)))"
proof -
  let ?rs = "replicas_with_addrs (nt_hash N) meta (po_collection p) (po_shard_idx p)"
  show ?thesis
  proof (cases "?rs = []")
    case True
    then show ?thesis using assms(3) by (auto simp: replicate_write_def Let_def)
  next
    case False
    from point_access.write_all_law [OF assms(1) conjI [OF assms(3,2)], of me 0 "[]"] obtain k un w1 L1 where
      a: "write_all (write_one_replica N me schema p) ?rs 0 [] w = Some ((k, un), w1)" "world_ok N D G M b L1 w1" "grow L L1"
        "k + length un = length ?rs" "\<forall>n \<in> fst ` set ?rs. n \<notin> set un \<longrightarrow> holds_op p L1 n" by auto
    obtain r w' where h: "on_node me (on_hints (buffer_hints (e_crc (nt_env N)) (map (hint_for p) un))) w1 = Some (r, w')"
      using on_hints_total by blast
    let ?r = "case r of Inl e \<Rightarrow> Inl e | Inr _ \<Rightarrow>
       if count cons (length ?rs) \<le> k then Inr () else Inl (RWriteQuorum (po_collection p) (po_shard_idx p) (count cons (length ?rs)) k)"
    have "replicate_write N me meta schema p cons w = Some (?r, w')"
      using False a(1) h by (cases r) (simp_all add: replicate_write_def Let_def and_then_def)
    moreover have "world_ok N D G M b L1 w'" using a(2) on_hints_ok [OF h] by simp
    moreover have "count cons (length ?rs) \<le> k" if "?r = Inr ()" using that by (auto split: sum.splits if_splits)
    ultimately show ?thesis using a(3-5) by blast
  qed
qed


text \<open>One read: the merged reply.\<close>

lemma read_quorum_ok:
  assumes "list_all (reachable_at N) (replicas_with_addrs (nt_hash N) meta (po_collection p) (po_shard_idx p))"
    and "op_ok D G schema schema' p" "world_ok N D G M b L w"
    and "k + length un = length (replicas_with_addrs (nt_hash N) meta (po_collection p) (po_shard_idx p))"
    and "\<forall>n \<in> fst ` set (replicas_with_addrs (nt_hash N) meta (po_collection p) (po_shard_idx p)). n \<notin> set un \<longrightarrow> holds_op p L n"
  shows "\<exists>resp w' L'. read_all (read_one_replica N me schema' (po_collection p) (po_shard_idx p) (po_id p))
      (replicas_with_addrs (nt_hash N) meta (po_collection p) (po_shard_idx p)) [] w = Some (resp, w') \<and>
    world_ok N D G M b L' w' \<and> grow L L' \<and>
    length resp \<le> length (replicas_with_addrs (nt_hash N) meta (po_collection p) (po_shard_idx p)) \<and>
    (\<forall>q. max_by_hlc (List.map_filter (snd \<circ> snd) resp) = Some q \<longrightarrow> issued_point G (op_key p) (po_id p) q) \<and>
    (length (replicas_with_addrs (nt_hash N) meta (po_collection p) (po_shard_idx p)) < k + length resp \<longrightarrow>
      (\<exists>q. max_by_hlc (List.map_filter (snd \<circ> snd) resp) = Some q \<and> po_hlc p \<le> sp_hlc q))"
proof -
  let ?rs = "replicas_with_addrs (nt_hash N) meta (po_collection p) (po_shard_idx p)"
  from point_access.read_all_law [OF assms(1) conjI [OF assms(3,2)], of me "[]"] obtain resp w' L' where
    r: "read_all (read_one_replica N me schema' (po_collection p) (po_shard_idx p) (po_id p)) ?rs [] w = Some (resp, w')"
      "world_ok N D G M b L' w'" "grow L L'"
      "list_all (replica_access.reply_ok (holds_op p) (\<lambda>q. po_hlc p \<le> sp_hlc q) (issued_point G (op_key p) (po_id p)) L) resp"
      "subseq (map (\<lambda>r. (fst r, fst (snd r))) resp) ?rs" by auto
  let ?vs = "List.map_filter (snd \<circ> snd) resp"
  have good: "issued_point G (op_key p) (po_id p) q" if "q \<in> set ?vs" for q
    using that r(4) by (auto simp: set_map_filter list_all_iff point_access.reply_ok_def)
  have "\<exists>q. max_by_hlc ?vs = Some q \<and> po_hlc p \<le> sp_hlc q" if enough: "length ?rs < k + length resp"
  proof -
    obtain x q where "x \<in> set resp" "snd (snd x) = Some q" "po_hlc p \<le> sp_hlc q"
      using point_access.quorum_reply [OF distinct_replicas r(5,4) assms(5) enough assms(4)] by blast
    then have "q \<in> set ?vs" by (auto simp: set_map_filter)
    moreover from this obtain m where "max_by_hlc ?vs = Some m" "sp_hlc q \<le> sp_hlc m"
      using max_by_hlc_props [of ?vs] by (cases "max_by_hlc ?vs") auto
    ultimately show ?thesis using \<open>po_hlc p \<le> sp_hlc q\<close> by auto
  qed
  moreover have "length resp \<le> length ?rs" using list_emb_length [OF r(5)] by simp
  ultimately show ?thesis using r(1-3) good max_by_hlc_props [of ?vs] by blast
qed

section \<open>Acknowledged writes\<close>

text \<open>At least \<open>q\<close> of the replicas have stored the write.\<close>

definition acked_on :: "point_op \<Rightarrow> (node_id \<times> str) list \<Rightarrow> nat \<Rightarrow> (node_id \<Rightarrow> logs) \<Rightarrow> bool" where
  "acked_on p rs q L \<longleftrightarrow> (\<exists>k un. k + length un = length rs \<and> q \<le> k \<and> (\<forall>n \<in> fst ` set rs. n \<notin> set un \<longrightarrow> holds_op p L n))"

lemma acked_on_grow:
  assumes "acked_on p rs q L" "grow L L'"
  shows "acked_on p rs q L'"
  using assms(1) point_access.grow_has [OF assms(2)] unfolding acked_on_def by metis

lemma replicate_write_acked:
  assumes "list_all (reachable_at N) rs" "rs = replicas_with_addrs (nt_hash N) meta (po_collection p) (po_shard_idx p)"
    and "op_ok D G schema schema p" "world_ok N D G M (b + length rs) L w"
    and "replicate_write N me meta schema p cons w = Some (Inr (), w')"
  shows "\<exists>L'. world_ok N D G M b L' w' \<and> grow L L' \<and> acked_on p rs (count cons (length rs)) L'"
  using replicate_write_ok [of N meta p D G schema M b L w me cons] assms unfolding acked_on_def by auto

text \<open>The operation a coordinator sends for a version of a point.\<close>

definition op_of :: "str \<Rightarrow> u32 \<Rightarrow> u64 \<Rightarrow> hlc \<Rightarrow> vec option \<Rightarrow> bytes \<Rightarrow> point_op" where
  "op_of c i j h u pl = \<lparr>po_collection = c, po_shard_idx = i, po_op = (if u = None then OP_DELETE else OP_UPSERT), po_id = j, po_hlc = h,
     po_vector = (case u of Some v \<Rightarrow> v | None \<Rightarrow> []), po_payload = pl\<rparr>"

lemma op_of_sel [simp]:
  "po_collection (op_of c i j h u pl) = c" "po_shard_idx (op_of c i j h u pl) = i" "po_id (op_of c i j h u pl) = j" "po_hlc (op_of c i j h u pl) = h"
  "op_key (op_of c i j h u pl) = \<lparr>sk_collection = c, sk_shard_idx = i\<rparr>" "op_value (op_of c i j h u pl) = u"
  by (simp_all add: op_of_def op_key_def op_value_def OP_UPSERT_def OP_DELETE_def split: option.split)

text \<open>The write of one point: an upsert of \<open>v\<close> for \<open>Some v\<close>, a delete for \<open>None\<close>.\<close>

definition write_point :: "net \<Rightarrow> node_id \<Rightarrow> str \<Rightarrow> u64 \<Rightarrow> vec option \<Rightarrow> bytes \<Rightarrow> consistency \<Rightarrow> world \<Rightarrow> ((router_error + u64) \<times> world) option" where
  "write_point N me c j u pl cons w =
     (case u of Some v \<Rightarrow> coordinate_upsert N me c [(j, v, pl)] cons w | None \<Rightarrow> coordinate_delete N me c [j] cons w)"

lemma write_point_acked:
  assumes w: "world_ok N D G M (b + length rs) L w" and rs: "rs = replicas_with_addrs (nt_hash N) (M me) c i"
    and schema: "map_of (ms_collections (M me)) c = Some schema" "shard_for_id (nt_hash N) j (cs_shard_count schema) = Some i"
    and dir: "list_all (reachable_at N) rs" and h: "h = fst (stamp me (snd (next_event w)))"
    and iss: "issued_ok G" "(h, u) \<in> G \<lparr>sk_collection = c, sk_shard_idx = i\<rparr> j"
    and wr: "write_point N me c j u pl cons w = Some (Inr a, w1)"
  shows "\<exists>L1 pl'. world_ok N D G M b L1 w1 \<and> grow L L1 \<and> op_ok D G schema schema (op_of c i j h u pl') \<and>
    acked_on (op_of c i j h u pl') rs (count cons (length rs)) L1"
proof -
  define pl' where "pl' = (if u = None then [] else pl)"
  let ?p = "op_of c i j h u pl'"
  have op: "op_ok D G schema schema ?p" using iss schema_dim [where i = i, OF w schema(1)] by (simp add: op_ok_def)
  from schema_of_ok [OF w, of me c] schema(1) obtain L0 where
    s: "world_ok N D G M (b + length rs) L0 (snd (next_event w))" "grow L L0" "schema_of me c w = Some (Inr (M me, schema), snd (next_event w))" by auto
  obtain w0 where st: "stamp me (snd (next_event w)) = (h, w0)" using h by (cases "stamp me (snd (next_event w))") simp
  have w0: "world_ok N D G M (b + length rs) L0 w0" using s(1) stamp_ok(1) [of N D G M "b + length rs" L0 me "snd (next_event w)"] st by simp
  have "replicate_write N me (M me) schema ?p cons w0 = Some (Inr (), w1)"
    using wr s(3) schema(2) st
    by (cases u) (auto simp: write_point_def op_of_def pl'_def coordinate_upsert_def coordinate_delete_def and_then_def Let_def
        split: option.splits sum.splits if_splits)
  from replicate_write_acked [OF dir _ op w0 this] rs grow_trans [OF s(2)] op show ?thesis by auto
qed

text \<open>A read whose quorum overlaps with the acknowledgements.\<close>

lemma get_sees_acked:
  assumes w: "world_ok N D G M b L w" and rs: "rs = replicas_with_addrs (nt_hash N) (M me) c i"
    and schema: "map_of (ms_collections (M me)) c = Some schema" "shard_for_id (nt_hash N) j (cs_shard_count schema) = Some i"
    and dir: "list_all (reachable_at N) rs" and op: "op_ok D G schema schema (op_of c i j h u pl)" "acked_on (op_of c i j h u pl) rs q L"
    and quorum: "length rs < q + count cons (length rs)" and get: "coordinate_get N me c [j] cons w = Some (Inr out, w')"
  shows "\<exists>g x. (g, x) \<in> G \<lparr>sk_collection = c, sk_shard_idx = i\<rparr> j \<and> h \<le> g \<and> out = (case x of None \<Rightarrow> [] | Some v \<Rightarrow> [(j, v)])"
proof -
  let ?p = "op_of c i j h u pl" and ?w = "snd (next_event w)"
  from schema_of_ok [OF w, of me c] schema(1) obtain L' where
    s: "world_ok N D G M b L' ?w" "grow L L'" "schema_of me c w = Some (Inr (M me, schema), ?w)" by auto
  obtain k un where k: "k + length un = length rs" "q \<le> k" "\<forall>n \<in> fst ` set rs. n \<notin> set un \<longrightarrow> holds_op ?p L' n"
    using acked_on_grow [OF op(2) s(2)] unfolding acked_on_def by blast
  obtain resp w1 where r: "read_all (read_one_replica N me schema c i j) rs [] ?w = Some (resp, w1)"
      "\<forall>q. max_by_hlc (List.map_filter (snd \<circ> snd) resp) = Some q \<longrightarrow> issued_point G (op_key ?p) j q"
      "length rs < k + length resp \<longrightarrow> (\<exists>q. max_by_hlc (List.map_filter (snd \<circ> snd) resp) = Some q \<and> h \<le> sp_hlc q)"
    using read_quorum_ok [of N "M me" ?p D G schema schema M b L' ?w k un me] dir op(1) s(1) rs k(1,3) by auto
  have g: "get_ids N me c cons (M me) schema [] [j] ?w = Some (Inr out, w')" using get s(3) by (simp add: coordinate_get_def and_then_def)
  then have n: "\<not> length resp < count cons (length rs)" using schema(2) rs r(1) by (auto simp: Let_def split: if_splits)
  then obtain m where m: "max_by_hlc (List.map_filter (snd \<circ> snd) resp) = Some m" "h \<le> sp_hlc m" using r(3) quorum k(2) by auto
  have "out = (if sp_tombstone m then [] else [(sp_id m, sp_vector m)])"
    using g schema(2) rs r(1) n m(1) by (auto simp: Let_def split: if_splits option.splits)
  moreover have "sp_id m = j" "(sp_hlc m, if sp_tombstone m then None else Some (sp_vector m)) \<in> G \<lparr>sk_collection = c, sk_shard_idx = i\<rparr> j"
    using r(2) m(1) by (auto simp: issued_point_def version_of_def)
  ultimately show ?thesis using m(2) by (intro exI [of _ "sp_hlc m"] exI [of _ "if sp_tombstone m then None else Some (sp_vector m)"]) simp
qed

section \<open>Properties\<close>

text \<open>Every level asks for at least one and at most all replicas, and the pairs of levels that
  are meant to overlap do: two quorums, or one replica against all of them.\<close>

theorem quorum_levels_overlap:
  assumes "0 < n"
  shows "1 \<le> count cons n \<and> count cons n \<le> n \<and> n < count Quorum n + count Quorum n \<and> n < count One n + count All n \<and>
    count (from_proto v) n = (if v = 1 then 1 else if v = 3 then n else n div 2 + 1)"
  using assms by (auto simp: count_def from_proto_def split: consistency.splits)

theorem quorum_levels_overlap_witness: "count Quorum 3 = 2 \<and> (3::nat) < count Quorum 3 + count Quorum 3"
  using quorum_levels_overlap [of 3 Quorum 0] by (simp add: count_def)

text \<open>C1. A write that was acknowledged, an upsert or a delete, is seen by every later read whose quorum
  overlaps with the write's, at any coordinator, whichever requests of either were lost or reached an
  unreachable or failing replica and whatever other clients, repairs, hint replays and transfers did
  meanwhile (within the rely condition): the read returns a version of that point that someone
  issued, at least as new as the write; if nothing newer was issued it returns the written vector,
  or nothing after a delete.\<close>

theorem acked_write_seen_by_quorum_read:
  assumes w: "world_ok N D G M (2 * length rs) L w" and rs: "rs = replicas_with_addrs (nt_hash N) (M me) c i"
    and schema: "map_of (ms_collections (M me)) c = Some schema" "shard_for_id (nt_hash N) j (cs_shard_count schema) = Some i"
    and same: "M me' = M me" and dir: "list_all (reachable_at N) rs"
    and h: "h = fst (stamp me (snd (next_event w)))"
    and iss: "issued_ok G" "(h, u) \<in> G \<lparr>sk_collection = c, sk_shard_idx = i\<rparr> j"
    and quorum: "length rs < count cw (length rs) + count cr (length rs)"
    and wr: "(case u of Some v \<Rightarrow> coordinate_upsert N me c [(j, v, pl)] cw w | None \<Rightarrow> coordinate_delete N me c [j] cw w) = Some (Inr a, w1)"
    and get: "coordinate_get N me' c [j] cr w1 = Some (Inr out, w2)"
  shows "(\<exists>g x. (g, x) \<in> G \<lparr>sk_collection = c, sk_shard_idx = i\<rparr> j \<and> h \<le> g \<and> out = (case x of None \<Rightarrow> [] | Some v \<Rightarrow> [(j, v)])) \<and>
    ((\<forall>g x. (g, x) \<in> G \<lparr>sk_collection = c, sk_shard_idx = i\<rparr> j \<and> h \<le> g \<longrightarrow> (g, x) = (h, u)) \<longrightarrow>
       out = (case u of None \<Rightarrow> [] | Some v \<Rightarrow> [(j, v)]))"
proof -
  have wp: "write_point N me c j u pl cw w = Some (Inr a, w1)" using wr by (simp add: write_point_def)
  have w': "world_ok N D G M (length rs + length rs) L w" using w by (simp add: mult_2)
  obtain L1 pl' where a: "world_ok N D G M (length rs) L1 w1" "op_ok D G schema schema (op_of c i j h u pl')"
      "acked_on (op_of c i j h u pl') rs (count cw (length rs)) L1"
    using write_point_acked [where M = M and me = me and c = c and i = i, OF w' rs schema dir h iss wp] by blast
  have "rs = replicas_with_addrs (nt_hash N) (M me') c i" "map_of (ms_collections (M me')) c = Some schema" using rs schema(1) same by simp_all
  from get_sees_acked [where M = M and me = me' and c = c and i = i, OF a(1) this schema(2) dir a(2,3) quorum get] show ?thesis by blast
qed

theorem acked_write_seen_by_quorum_read_witness:
  "\<exists>w1 w2 out. coordinate_upsert demo_net 1 [99] [(7, [3], [])] Quorum (demo_world (map demo_event [Answered, Answered, Unreachable])) = Some (Inr 1, w1) \<and>
     coordinate_get demo_net 2 [99] [7] Quorum w1 = Some (Inr out, w2) \<and> out = [(7, [3])]"
proof -
  let ?w = "demo_world (map demo_event [Answered, Answered, Unreachable])"
  obtain w1 where w1: "coordinate_upsert demo_net 1 [99] [(7, [3], [])] Quorum ?w = Some (Inr 1, w1)"
      "fst (stamp 1 (snd (next_event ?w))) = Hlc 5 0" "w_events w1 = []"
      "demo_stores (\<lambda>n. if n = 1 \<or> n = 2 then demo_written else demo_store) w1" using demo_upsert by blast
  obtain w2 out where w2: "coordinate_get demo_net 2 [99] [7] Quorum w1 = Some (Inr out, w2)" using demo_get [OF w1(4,3)] by blast
  have rs: "[(1, [1]), (2, [2]), (3, [3])] = replicas_with_addrs (nt_hash demo_net) demo_meta [99] 0"
    using demo_replicas by (simp add: demo_net_def)
  have ok: "world_ok demo_net (\<lambda>_. 1) demo_issued (\<lambda>_. demo_meta) (2 * length [(1 :: node_id, [1 :: byte]), (2, [2]), (3, [3])]) (\<lambda>_ _. []) ?w"
    by (rule demo_world_ok) simp
  have sch: "map_of (ms_collections demo_meta) [99] = Some demo_coll" "shard_for_id (nt_hash demo_net) 7 (cs_shard_count demo_coll) = Some 0"
    using demo_home_shard by (simp_all add: demo_meta_def demo_net_def)
  have iss: "issued_ok demo_issued" "(Hlc 5 0, Some [3]) \<in> demo_issued \<lparr>sk_collection = [99], sk_shard_idx = 0\<rparr> 7"
    by (simp_all add: issued_ok_def demo_issued_def hlc_ok_def)
  have "out = [(7, [3])]"
    using acked_write_seen_by_quorum_read [where u = "Some [3]" and pl = "[]" and cw = Quorum and a = 1, OF ok rs sch refl demo_reachable w1(2) [symmetric] iss _ _ w2]
      w1(1) by (simp add: count_def demo_issued_def)
  with w1(1) w2 show ?thesis by blast
qed

end
