(* ===== verification/Scatter.thy ===== *)
theory Scatter
  imports Router_Props
begin

text \<open>
  Scattered search (\<open>coordinate_search\<close>): one answer per shard, merged into the top \<open>k\<close>.
\<close>

section \<open>Merging top lists\<close>

definition top_k :: "('a \<Rightarrow> 'a \<Rightarrow> bool) \<Rightarrow> nat \<Rightarrow> 'a list \<Rightarrow> 'a list" where
  "top_k le k xs = take k (sort_by le xs)"

lemma take_insort_by: "take k (insort_by le x xs) = take k (insort_by le x (take k xs))"
proof (induction xs arbitrary: k)
  case Nil
  then show ?case by simp
next
  case (Cons y ys)
  show ?case
  proof (cases k)
    case (Suc m)
    show ?thesis
    proof (cases "le x y")
      case True
      then show ?thesis using Suc by (cases m) simp_all
    next
      case False
      then show ?thesis using Suc Cons.IH [of m] by simp
    qed
  qed simp
qed

lemma take_foldr_insort: "take k (foldr (insort_by le) zs ys) = take k (foldr (insort_by le) zs (take k ys))"
proof (induction zs)
  case (Cons z zs)
  then show ?case
    using take_insort_by [of k le z "foldr (insort_by le) zs ys"] take_insort_by [of k le z "foldr (insort_by le) zs (take k ys)"] by simp
qed simp

lemma sort_by_append: "sort_by le (xs @ ys) = foldr (insort_by le) xs (sort_by le ys)"
  by (simp add: sort_by_def)

lemma sort_by_sorted: "sorted_wrt le xs \<Longrightarrow> sort_by le xs = xs"
  unfolding sort_by_def by (induction xs) (case_tac xs, auto)+

text \<open>A list sorted by a relation that is antisymmetric on its elements is unique.\<close>

lemma sorted_by_unique:
  assumes "\<forall>a \<in> set xs. \<forall>b \<in> set xs. le a b \<longrightarrow> le b a \<longrightarrow> a = b" "sorted_wrt le xs" "sorted_wrt le ys" "mset xs = mset ys"
  shows "xs = ys"
  using assms
proof (induction xs arbitrary: ys)
  case (Cons x xs)
  then obtain y zs where ys: "ys = y # zs" by (cases ys) auto
  have set: "set (x # xs) = set ys" using Cons.prems(4) by (metis set_mset_mset)
  have "x = y"
  proof (rule ccontr)
    assume n: "x \<noteq> y"
    then have "x \<in> set zs" "y \<in> set xs" using set ys by auto
    then have "le y x" "le x y" using Cons.prems(2,3) ys by auto
    then show False using n Cons.prems(1) set ys by auto
  qed
  then show ?case using Cons ys by auto
qed simp

definition linear_on :: "'a set \<Rightarrow> ('a \<Rightarrow> 'a \<Rightarrow> bool) \<Rightarrow> bool" where
  "linear_on A le \<longleftrightarrow> total_preorder_on A le \<and> (\<forall>a \<in> A. \<forall>b \<in> A. le a b \<longrightarrow> le b a \<longrightarrow> a = b)"

lemma linear_on_subset: "linear_on A le \<Longrightarrow> B \<subseteq> A \<Longrightarrow> linear_on B le"
  unfolding linear_on_def total_preorder_on_def by (meson subsetD)

lemma sort_by_perm:
  assumes "linear_on (set xs) le" "mset xs = mset ys"
  shows "sort_by le xs = sort_by le ys"
proof (rule sorted_by_unique)
  have set: "set ys = set xs" using assms(2) by (metis set_mset_mset)
  show "sorted_wrt le (sort_by le xs)" "sorted_wrt le (sort_by le ys)"
    using assms(1) set by (auto simp: linear_on_def intro: sorted_sort_by)
qed (use assms in \<open>auto simp: linear_on_def\<close>)

lemma top_k_tail: "linear_on (set ys) le \<Longrightarrow> top_k le k (zs @ top_k le k ys) = top_k le k (zs @ ys)"
proof -
  assume lin: "linear_on (set ys) le"
  have "sorted_wrt le (take k (sort_by le ys))"
    using lin by (auto simp: linear_on_def intro: sorted_wrt_take sorted_sort_by)
  then have "sort_by le (take k (sort_by le ys)) = take k (sort_by le ys)" by (rule sort_by_sorted)
  then show ?thesis
    using take_foldr_insort [of k le zs "sort_by le ys"] by (simp add: top_k_def sort_by_append)
qed

lemma set_top_k: "set (top_k le k xs) \<subseteq> set xs"
  by (auto simp: top_k_def dest: in_set_takeD)

lemma top_k_merge:
  "linear_on (\<Union>xs \<in> set xss. set xs) le \<Longrightarrow> top_k le k (concat (map (top_k le k) xss)) = top_k le k (concat xss)"
proof (induction xss)
  case Nil
  then show ?case by simp
next
  case (Cons xs xss)
  let ?c = "concat (map (top_k le k) xss)"
  have sub: "set ?c \<subseteq> (\<Union>xs \<in> set xss. set xs)" using set_top_k by fastforce
  have lin: "linear_on (set xs \<union> (\<Union>xs \<in> set xss. set xs)) le" using Cons.prems by simp
  have "top_k le k (top_k le k xs @ ?c) = top_k le k (?c @ top_k le k xs)"
    unfolding top_k_def [of le k "_ @ _"]
    by (intro arg_cong [of _ _ "take k"] sort_by_perm linear_on_subset [OF lin]) (use sub set_top_k [of le k xs] in auto)
  also have "\<dots> = top_k le k (?c @ xs)" by (rule top_k_tail [OF linear_on_subset [OF lin]]) simp
  also have "\<dots> = top_k le k (xs @ ?c)"
    unfolding top_k_def [of le k "_ @ _"]
    by (intro arg_cong [of _ _ "take k"] sort_by_perm linear_on_subset [OF lin]) (use sub in auto)
  also have "\<dots> = top_k le k (xs @ top_k le k ?c)" by (rule top_k_tail [symmetric, OF linear_on_subset [OF lin]]) (use sub in auto)
  also have "\<dots> = top_k le k (xs @ top_k le k (concat xss))" using Cons by (simp add: linear_on_subset [OF lin])
  also have "\<dots> = top_k le k (xs @ concat xss)" by (rule top_k_tail [OF linear_on_subset [OF lin]]) auto
  finally show ?case by simp
qed

text \<open>Scores without NaN of distinct points are linearly ordered.\<close>

lemma score_le_linear:
  assumes "\<forall>(j, s) \<in> A. \<not> f32_is_nan s" "inj_on fst A"
  shows "linear_on A score_le"
proof -
  have "a = b" if "a \<in> A" "b \<in> A" "score_le a b" "score_le b a" for a b
  proof -
    have "f32_cmp_eq (snd a) (snd b)" using that(3,4) by (auto simp: score_le_def f32_cmp_eq_def split: if_splits)
    then have "fst a = fst b" using that(3,4) by (auto simp: score_le_def f32_cmp_eq_def)
    then show ?thesis using assms(2) that(1,2) by (auto dest: inj_onD)
  qed
  then show ?thesis using score_le_total [OF assms(1)] by (auto simp: linear_on_def)
qed

section \<open>The answers of the shards\<close>

text \<open>A hit that some issued live version of the point explains.\<close>

definition hit_issued :: "net \<Rightarrow> issued \<Rightarrow> vec \<Rightarrow> shard_key \<Rightarrow> u64 \<times> f32 \<Rightarrow> bool" where
  "hit_issued N G q k hit \<longleftrightarrow> (\<exists>g x metric. (g, Some x) \<in> G k (fst hit) \<and> snd hit = e_K (nt_env N) metric x q)"

definition answer_ok :: "net \<Rightarrow> issued \<Rightarrow> vec \<Rightarrow> shard_key \<Rightarrow> (u64 \<times> f32) list \<Rightarrow> bool" where
  "answer_ok N G q k hits \<longleftrightarrow> distinct (map fst hits) \<and> list_all (hit_issued N G q k) hits"

lemma hits_answer:
  assumes "world_ok N D G M b L w" "distinct (map fst hits)" "list_all (hit_of (nt_env N) q (lww_log (L n k))) hits"
  shows "answer_ok N G q k hits"
proof -
  have "hit_issued N G q k h" if "hit_of (nt_env N) q (lww_log (L n k)) h" for h
    using that issued_contents [OF assms(1)] by (fastforce simp: hit_of_def hit_issued_def)
  then show ?thesis using assms(2,3) by (auto simp: answer_ok_def list_all_iff)
qed

lemma search_one_ok:
  assumes "D \<lparr>sk_collection = c, sk_shard_idx = i\<rparr> = unat (cs_dim schema)" "world_ok N D G M b L w"
  shows "\<exists>r w' L'. search_one_replica N me schema c i q k ef x w = Some (r, w') \<and> world_ok N D G M b L' w' \<and> grow L L' \<and>
    (\<forall>hits. r = Inr hits \<longrightarrow> answer_ok N G q \<lparr>sk_collection = c, sk_shard_idx = i\<rparr> hits)"
proof -
  let ?k = "\<lparr>sk_collection = c, sk_shard_idx = i\<rparr>"
  have w: "world_ok N D G M (b + 0) L w" using assms(2) by simp
  have R: "\<And>l l' :: logs. l = l' \<Longrightarrow> logs_grow l l'" by simp
  show ?thesis
  proof (cases "fst x = me")
    case True
    from on_node_ok [OF search_law [where D = D and c = c and i = i and q = q and k = k and ef = ef, OF assms(1)] R w, of me] obtain r w' L' where
      r: "on_node me (on_shards (search_shard (nt_env N) (sref_of c schema i) q k ef)) w = Some (r, w')" "world_ok N D G M b L' w'" "grow L L'"
        "\<forall>a. ok_of r = Some a \<longrightarrow> length a \<le> k \<and> distinct (map fst a) \<and> list_all (hit_of (nt_env N) q (lww_log (L' me ?k))) a" by blast
    then show ?thesis using True hits_answer [OF r(2)] by (cases r) (auto simp: search_one_replica_def)
  next
    case False
    let ?req = "\<lparr>sq_collection = c, sq_shard_idx = i, sq_vector = q, sq_k = of_nat k, sq_ef_search = of_nat ef\<rparr>"
    from rpc_ok [where handler = "replica_search (nt_env N) ?req", OF replica_search_law [where D = D and req = ?req] R w, of "snd x"] obtain r w' L' where
      r: "rpc N (snd x) (replica_search (nt_env N) ?req) w = Some (r, w')" "world_ok N D G M b L' w'" "grow L L'"
        "\<forall>a. r = Inr a \<longrightarrow> (\<exists>n. distinct (map rs_id a) \<and> list_all (hit_of (nt_env N) q (lww_log (L' n ?k))) (map (\<lambda>r. (rs_id r, rs_score r)) a))"
      by fastforce
    have "answer_ok N G q ?k (map (\<lambda>r. (rs_id r, rs_score r)) a)" if "r = Inr a" for a
      using r(4) that by (auto intro!: hits_answer [OF r(2)] simp: comp_def)
    then show ?thesis using False r(1-3) by (cases r) (auto simp: search_one_replica_def and_then_def)
  qed
qed

lemma first_answer_ok:
  assumes "\<And>x w L. world_ok N D G M b L w \<Longrightarrow> \<exists>r w' L'. ask x w = Some (r, w') \<and> world_ok N D G M b L' w' \<and> grow L L' \<and> (\<forall>a. r = Inr a \<longrightarrow> P a)"
    and "world_ok N D G M b L w"
  shows "\<exists>r w' L'. first_answer ask xs w = Some (r, w') \<and> world_ok N D G M b L' w' \<and> grow L L' \<and> (\<forall>a. r = Some a \<longrightarrow> P a)"
  using assms(2)
proof (induction xs arbitrary: w L)
  case Nil
  then show ?case by auto
next
  case (Cons x xs)
  from assms(1) [OF Cons.prems] obtain r w1 L1 where
    r: "ask x w = Some (r, w1)" "world_ok N D G M b L1 w1" "grow L L1" "\<forall>a. r = Inr a \<longrightarrow> P a" by blast
  show ?case
  proof (cases r)
    case (Inl e)
    then show ?thesis using r Cons.IH [OF r(2)] grow_trans [OF r(3)] by (cases e) fastforce
  next
    case (Inr a)
    then show ?thesis using r by auto
  qed
qed

lemma search_shards_ok:
  assumes "\<And>i. D \<lparr>sk_collection = c, sk_shard_idx = i\<rparr> = unat (cs_dim schema)" "world_ok N D G M b L w"
  shows "\<exists>r w' L'. search_shards N me c q k ef meta schema ss merged w = Some (r, w') \<and> world_ok N D G M b L' w' \<and> grow L L' \<and>
    (\<forall>out. r = Inr out \<longrightarrow> (\<exists>answers. out = merged @ concat answers \<and>
       list_all2 (\<lambda>s. answer_ok N G q \<lparr>sk_collection = c, sk_shard_idx = of_nat s\<rparr>) ss answers))"
  using assms(2)
proof (induction ss arbitrary: merged w L)
  case Nil
  then show ?case by auto
next
  case (Cons s ss)
  let ?i = "of_nat s :: u32"
  let ?ask = "search_one_replica N me schema c ?i q k ef"
  show ?case
  proof (cases "replicas_with_addrs (nt_hash N) meta c ?i = []")
    case True
    then show ?thesis using Cons.prems by auto
  next
    case False
    from first_answer_ok [where ask = ?ask, OF search_one_ok [where D = D and c = c and i = ?i, OF assms(1)] Cons.prems, of "search_order (nt_hash N) meta c ?i"]
    obtain r w1 L1 where r: "first_answer ?ask (search_order (nt_hash N) meta c ?i) w = Some (r, w1)" "world_ok N D G M b L1 w1" "grow L L1"
        "\<forall>a. r = Some a \<longrightarrow> answer_ok N G q \<lparr>sk_collection = c, sk_shard_idx = ?i\<rparr> a" by blast
    show ?thesis
    proof (cases r)
      case None
      then show ?thesis using False r by auto
    next
      case (Some hits)
      from Cons.IH [OF r(2), of "merged @ hits"] obtain r' w' L' where
        i: "search_shards N me c q k ef meta schema ss (merged @ hits) w1 = Some (r', w')" "world_ok N D G M b L' w'" "grow L1 L'"
          "\<forall>out. r' = Inr out \<longrightarrow> (\<exists>answers. out = (merged @ hits) @ concat answers \<and>
             list_all2 (\<lambda>s. answer_ok N G q \<lparr>sk_collection = c, sk_shard_idx = of_nat s\<rparr>) ss answers)" by blast
      have "\<exists>answers. out = merged @ concat answers \<and> list_all2 (\<lambda>s. answer_ok N G q \<lparr>sk_collection = c, sk_shard_idx = of_nat s\<rparr>) (s # ss) answers"
        if out: "r' = Inr out" for out
      proof -
        obtain answers where "out = (merged @ hits) @ concat answers"
            "list_all2 (\<lambda>s. answer_ok N G q \<lparr>sk_collection = c, sk_shard_idx = of_nat s\<rparr>) ss answers" using i(4) out by blast
        then show ?thesis using r(4) Some by (intro exI [of _ "hits # answers"]) simp
      qed
      then show ?thesis using False r(1) Some i(1,2) grow_trans [OF r(3) i(3)] by auto
    qed
  qed
qed

text \<open>A search that gets past the check of the dimension merges what the shards return.\<close>

lemma coordinate_search_cases:
  assumes "world_ok N D G M b L w"
  obtains e w' where "coordinate_search N me c q k ef w = Some (Inl e, w')"
  | schema answers w' where "map_of (ms_collections (M me)) c = Some schema" "length q = unat (cs_dim schema)"
      "list_all2 (\<lambda>s. answer_ok N G q \<lparr>sk_collection = c, sk_shard_idx = of_nat s\<rparr>) [0..<unat (cs_shard_count schema)] answers"
      "coordinate_search N me c q k ef w = Some (Inr (take k (sort_by score_le (concat answers))), w')"
proof -
  obtain L0 where s0: "world_ok N D G M b L0 (snd (next_event w))"
      "schema_of me c w = Some (case map_of (ms_collections (M me)) c of None \<Rightarrow> Inl (RNotFound c) | Some schema \<Rightarrow> Inr (M me, schema), snd (next_event w))"
    using schema_of_ok [OF assms] by blast
  show thesis
  proof (cases "\<exists>schema. map_of (ms_collections (M me)) c = Some schema \<and> length q = unat (cs_dim schema)")
    case False
    then have "\<exists>e. coordinate_search N me c q k ef w = Some (Inl e, snd (next_event w))"
      using s0(2) by (cases "map_of (ms_collections (M me)) c") (simp_all add: coordinate_search_def and_then_def Let_def)
    then show thesis using that(1) by blast
  next
    case True
    then obtain schema where sch: "map_of (ms_collections (M me)) c = Some schema" "length q = unat (cs_dim schema)" by blast
    from search_shards_ok [OF schema_dim [OF s0(1) sch(1)] s0(1), of me q k ef "M me" "[0..<unat (cs_shard_count schema)]" "[]"] obtain r w' where
      r: "search_shards N me c q k ef (M me) schema [0..<unat (cs_shard_count schema)] [] (snd (next_event w)) = Some (r, w')"
        "\<forall>out. r = Inr out \<longrightarrow> (\<exists>answers. out = concat answers \<and>
           list_all2 (\<lambda>s. answer_ok N G q \<lparr>sk_collection = c, sk_shard_idx = of_nat s\<rparr>) [0..<unat (cs_shard_count schema)] answers)" by auto
    have e: "coordinate_search N me c q k ef w = Some (case r of Inl e \<Rightarrow> Inl e | Inr merged \<Rightarrow> Inr (take k (sort_by score_le merged)), w')"
      using s0(2) sch r(1) by (cases r) (simp_all add: coordinate_search_def and_then_def Let_def)
    show thesis
    proof (cases r)
      case (Inl x)
      then show thesis using e that(1) by simp
    next
      case (Inr merged)
      with r(2) obtain answers where "merged = concat answers"
          "list_all2 (\<lambda>s. answer_ok N G q \<lparr>sk_collection = c, sk_shard_idx = of_nat s\<rparr>) [0..<unat (cs_shard_count schema)] answers" by blast
      then show thesis using that(2) [OF sch] e Inr by simp
    qed
  qed
qed

lemma merged_answers:
  assumes "\<forall>(j, s) \<in> \<Union> (set ` set cands). \<not> f32_is_nan s" "inj_on fst (\<Union> (set ` set cands))"
  shows "take k (sort_by score_le (concat (map (\<lambda>xs. take k (sort_by score_le xs)) cands))) = take k (sort_by score_le (concat cands))"
  using top_k_merge [OF score_le_linear [OF assms], of k] by (simp add: top_k_def [abs_def])



end
