(* ===== verification/Raft_Store.thy ===== *)
theory Raft_Store
  imports Atomic_File Meta
begin

text \<open>
  The durable storage under the metadata Raft (\<open>qv-cluster/src/raft/store.rs\<close>): the log store
  (entries, purge watermark, committed id, vote) and the state-machine store (the applied
  \<open>MetaState\<close>, last applied id, membership, snapshot), each one JSON file replaced atomically.

  Of \<open>openraft\<close> the code uses the index of a log id, the three entry payloads and opaque votes
  and memberships: the last two are type variables \<open>'v\<close> and \<open>'m\<close>.  \<open>serde_json\<close> is the
  record \<open>json\<close> of functions, with its round trip as the named hypothesis \<open>json_ok\<close>.  The
  formatted snapshot id is kept as the data it is formatted from.
\<close>

section \<open>openraft's data\<close>

record log_id =
  leader_id :: "u64 \<times> u64"
  lid_index :: u64

datatype 'm payload = Blank | Normal meta_request | Membership 'm

record 'm entry =
  en_log_id :: log_id
  en_payload :: "'m payload"

type_synonym 'm stored_membership = "log_id option \<times> 'm"

datatype snapshot_id = Restored "log_id option" | Built "log_id option" nat

record 'm snapshot_meta =
  sm_last_log_id :: "log_id option"
  sm_last_membership :: "'m stored_membership"
  sm_snapshot_id :: snapshot_id

record 'm stored_snapshot =
  ss_meta :: "'m snapshot_meta"
  ss_data :: bytes

section \<open>Images and serde\_json\<close>

record ('m, 'v) log_disk =
  ld_last_purged :: "log_id option"
  ld_log :: "(u64 \<times> 'm entry) list"
  ld_committed :: "log_id option"
  ld_vote :: "'v option"

record 'm sm_disk =
  sd_last_applied :: "log_id option"
  sd_last_membership :: "'m stored_membership"
  sd_state :: meta_state

datatype json_error = JsonError

record ('m, 'v) json =
  j_log_ser :: "('m, 'v) log_disk \<Rightarrow> json_error + bytes"
  j_log_de :: "bytes \<Rightarrow> json_error + ('m, 'v) log_disk"
  j_sm_ser :: "'m sm_disk \<Rightarrow> json_error + bytes"
  j_sm_de :: "bytes \<Rightarrow> json_error + 'm sm_disk"
  j_meta_ser :: "meta_state \<Rightarrow> json_error + bytes"
  j_meta_de :: "bytes \<Rightarrow> json_error + meta_state"

definition json_ok :: "('m, 'v) json \<Rightarrow> bool" where
  "json_ok J \<longleftrightarrow>
     (\<forall>x bs. j_log_ser J x = Inr bs \<longrightarrow> j_log_de J bs = Inr x) \<and>
     (\<forall>x bs. j_sm_ser J x = Inr bs \<longrightarrow> j_sm_de J bs = Inr x) \<and>
     (\<forall>x bs. j_meta_ser J x = Inr bs \<longrightarrow> j_meta_de J bs = Inr x)"

datatype storage_error = SeJson json_error | SeIo io_error

text \<open>\<open>persist\<close>: serialize an image and replace the file.\<close>

definition persist_as :: "('d \<Rightarrow> json_error + bytes) \<Rightarrow> 'd \<Rightarrow> afile \<Rightarrow> (storage_error + unit) \<times> afile" where
  "persist_as ser d af = (case ser d of
     Inl e \<Rightarrow> (Inl (SeJson e), af)
   | Inr bs \<Rightarrow> (case atomic_write bs af of
        (Inl e, af) \<Rightarrow> (Inl (SeIo e), af)
      | (Inr _, af) \<Rightarrow> (Inr (), af)))"

definition read_json :: "(bytes \<Rightarrow> json_error + 'd) \<Rightarrow> afile \<Rightarrow> (storage_error + 'd option) \<times> afile" where
  "read_json de af =
     (if \<not> present (af_file af) then (Inr None, af)
      else case sys_call (af_file af) of
        (Inl e, f) \<Rightarrow> (Inl (SeIo e), af\<lparr>af_file := f\<rparr>)
      | (Inr _, f) \<Rightarrow> (case de (contents f) of
           Inl e \<Rightarrow> (Inl (SeJson e), af\<lparr>af_file := f\<rparr>)
         | Inr d \<Rightarrow> (Inr (Some d), af\<lparr>af_file := f\<rparr>)))"

definition open_dir :: "afile \<Rightarrow> (storage_error + unit) \<times> afile" where
  "open_dir af = (case sys_call (af_dir af) of
     (Inl e, d) \<Rightarrow> (Inl (SeIo e), af\<lparr>af_dir := d\<rparr>)
   | (Inr _, d) \<Rightarrow> (Inr (), af\<lparr>af_dir := d\<rparr>))"

section \<open>The log store\<close>

record ('m, 'v) log_store =
  ls_disk :: "('m, 'v) log_disk"
  ls_af :: afile

definition log_disk_default :: "('m, 'v) log_disk" where
  "log_disk_default = \<lparr>ld_last_purged = None, ld_log = [], ld_committed = None, ld_vote = None\<rparr>"

definition log_store_open :: "('m, 'v) json \<Rightarrow> afile \<Rightarrow> (storage_error + ('m, 'v) log_store) \<times> afile" where
  "log_store_open J af =
     on_ok (open_dir af) (\<lambda>_ af.
     on_ok (read_json (j_log_de J) af) (\<lambda>disk af.
     (Inr \<lparr>ls_disk = (case disk of Some d \<Rightarrow> d | None \<Rightarrow> log_disk_default), ls_af = af\<rparr>, af)))"

definition log_persist :: "('m, 'v) json \<Rightarrow> ('m, 'v) log_store \<Rightarrow> (storage_error + unit) \<times> ('m, 'v) log_store" where
  "log_persist J ls = (case persist_as (j_log_ser J) (ls_disk ls) (ls_af ls) of (r, af) \<Rightarrow> (r, ls\<lparr>ls_af := af\<rparr>))"

definition on_disk :: "(('m, 'v) log_disk \<Rightarrow> ('m, 'v) log_disk) \<Rightarrow> ('m, 'v) log_store \<Rightarrow> ('m, 'v) log_store" where
  "on_disk f ls = ls\<lparr>ls_disk := f (ls_disk ls)\<rparr>"

definition try_get_log_entries :: "(u64 \<Rightarrow> bool) \<Rightarrow> ('m, 'v) log_store \<Rightarrow> 'm entry list" where
  "try_get_log_entries rb ls = map snd (filter (\<lambda>(k, _). rb k) (ld_log (ls_disk ls)))"

text \<open>The purge watermark and the last log id.\<close>

definition get_log_state :: "('m, 'v) log_store \<Rightarrow> log_id option \<times> log_id option" where
  "get_log_state ls =
     (let log = ld_log (ls_disk ls);
          last_id = (if log = [] then None else Some (en_log_id (snd (last log))));
          last_purged = ld_last_purged (ls_disk ls);
          last_id = (case last_id of None \<Rightarrow> last_purged | Some x \<Rightarrow> Some x)
      in (last_purged, last_id))"

definition save_vote :: "('m, 'v) json \<Rightarrow> 'v \<Rightarrow> ('m, 'v) log_store \<Rightarrow> (storage_error + unit) \<times> ('m, 'v) log_store" where
  "save_vote J v ls = log_persist J (on_disk (\<lambda>d. d\<lparr>ld_vote := Some v\<rparr>) ls)"

definition read_vote :: "('m, 'v) log_store \<Rightarrow> 'v option" where
  "read_vote ls = ld_vote (ls_disk ls)"

definition save_committed ::
  "('m, 'v) json \<Rightarrow> log_id option \<Rightarrow> ('m, 'v) log_store \<Rightarrow> (storage_error + unit) \<times> ('m, 'v) log_store" where
  "save_committed J c ls = log_persist J (on_disk (\<lambda>d. d\<lparr>ld_committed := c\<rparr>) ls)"

definition read_committed :: "('m, 'v) log_store \<Rightarrow> log_id option" where
  "read_committed ls = ld_committed (ls_disk ls)"

definition insert_entries :: "'m entry list \<Rightarrow> (u64 \<times> 'm entry) list \<Rightarrow> (u64 \<times> 'm entry) list" where
  "insert_entries es log = foldl (\<lambda>m e. bt_insert (lid_index (en_log_id e)) e m) log es"

text \<open>\<open>Ok\<close> is also the moment the \<open>LogFlushed\<close> callback fires.\<close>

definition log_append ::
  "('m, 'v) json \<Rightarrow> 'm entry list \<Rightarrow> ('m, 'v) log_store \<Rightarrow> (storage_error + unit) \<times> ('m, 'v) log_store" where
  "log_append J es ls = log_persist J (on_disk (\<lambda>d. d\<lparr>ld_log := insert_entries es (ld_log d)\<rparr>) ls)"

definition log_truncate ::
  "('m, 'v) json \<Rightarrow> log_id \<Rightarrow> ('m, 'v) log_store \<Rightarrow> (storage_error + unit) \<times> ('m, 'v) log_store" where
  "log_truncate J li ls =
     log_persist J (on_disk (\<lambda>d. d\<lparr>ld_log := bt_retain (\<lambda>k _. \<not> lid_index li \<le> k) (ld_log d)\<rparr>) ls)"

definition log_purge ::
  "('m, 'v) json \<Rightarrow> log_id \<Rightarrow> ('m, 'v) log_store \<Rightarrow> (storage_error + unit) \<times> ('m, 'v) log_store" where
  "log_purge J li ls =
     log_persist J (on_disk (\<lambda>d. d\<lparr>ld_last_purged := Some li, ld_log := bt_retain (\<lambda>k _. \<not> k \<le> lid_index li) (ld_log d)\<rparr>) ls)"

section \<open>The state-machine store\<close>

record 'm sm_store =
  sms_disk :: "'m sm_disk"
  sms_af :: afile
  sms_snapshot :: "'m stored_snapshot option"
  sms_snapshot_idx :: nat

definition sm_disk_default :: "'m \<Rightarrow> 'm sm_disk" where
  "sm_disk_default m0 = \<lparr>sd_last_applied = None, sd_last_membership = (None, m0), sd_state = meta_default\<rparr>"

text \<open>\<open>m0\<close> is the default membership.\<close>

definition sm_store_open :: "('m, 'v) json \<Rightarrow> 'm \<Rightarrow> afile \<Rightarrow> (storage_error + 'm sm_store) \<times> afile" where
  "sm_store_open J m0 af =
     on_ok (open_dir af) (\<lambda>_ af.
     on_ok (read_json (j_sm_de J) af) (\<lambda>disk af.
     let disk = (case disk of Some d \<Rightarrow> d | None \<Rightarrow> sm_disk_default m0);
         data = (case j_meta_ser J (sd_state disk) of Inr bs \<Rightarrow> bs | Inl _ \<Rightarrow> []);
         snap = (case sd_last_applied disk of
            None \<Rightarrow> None
          | Some _ \<Rightarrow> Some \<lparr>ss_meta = \<lparr>sm_last_log_id = sd_last_applied disk, sm_last_membership = sd_last_membership disk,
              sm_snapshot_id = Restored (sd_last_applied disk)\<rparr>, ss_data = data\<rparr>)
     in (Inr \<lparr>sms_disk = disk, sms_af = af, sms_snapshot = snap, sms_snapshot_idx = 0\<rparr>, af)))"

definition sm_persist :: "('m, 'v) json \<Rightarrow> 'm sm_store \<Rightarrow> (storage_error + unit) \<times> 'm sm_store" where
  "sm_persist J s = (case persist_as (j_sm_ser J) (sms_disk s) (sms_af s) of (r, af) \<Rightarrow> (r, s\<lparr>sms_af := af\<rparr>))"

definition read_state :: "'m sm_store \<Rightarrow> meta_state" where
  "read_state s = sd_state (sms_disk s)"

definition applied_state :: "'m sm_store \<Rightarrow> log_id option \<times> 'm stored_membership" where
  "applied_state s = (sd_last_applied (sms_disk s), sd_last_membership (sms_disk s))"

definition build_snapshot :: "('m, 'v) json \<Rightarrow> 'm sm_store \<Rightarrow> (storage_error + 'm stored_snapshot) \<times> 'm sm_store" where
  "build_snapshot J s = (case j_meta_ser J (sd_state (sms_disk s)) of
     Inl e \<Rightarrow> (Inl (SeJson e), s)
   | Inr data \<Rightarrow>
       let idx = sms_snapshot_idx s + 1;
           last_applied = sd_last_applied (sms_disk s);
           meta = \<lparr>sm_last_log_id = last_applied, sm_last_membership = sd_last_membership (sms_disk s),
                   sm_snapshot_id = Built last_applied idx\<rparr>;
           stored = \<lparr>ss_meta = meta, ss_data = data\<rparr>
       in (Inr stored, s\<lparr>sms_snapshot_idx := idx, sms_snapshot := Some stored\<rparr>))"

text \<open>One entry of the loop of \<open>apply\<close>.\<close>

definition apply_entry :: "'m entry \<Rightarrow> 'm sm_disk \<Rightarrow> meta_response \<times> 'm sm_disk" where
  "apply_entry e d =
     (let d = d\<lparr>sd_last_applied := Some (en_log_id e)\<rparr> in
      case en_payload e of
        Blank \<Rightarrow> (response ''blank'', d)
      | Normal req \<Rightarrow> (case meta_apply req (sd_state d) of (resp, st) \<Rightarrow> (resp, d\<lparr>sd_state := st\<rparr>))
      | Membership mem \<Rightarrow> (response ''membership'', d\<lparr>sd_last_membership := (Some (en_log_id e), mem)\<rparr>))"

fun apply_entries :: "'m entry list \<Rightarrow> 'm sm_disk \<Rightarrow> meta_response list \<times> 'm sm_disk" where
  "apply_entries [] d = ([], d)"
| "apply_entries (e # es) d =
     (let (resp, d) = apply_entry e d; (resps, d) = apply_entries es d in (resp # resps, d))"

definition sm_apply ::
  "('m, 'v) json \<Rightarrow> 'm entry list \<Rightarrow> 'm sm_store \<Rightarrow> (storage_error + meta_response list) \<times> 'm sm_store" where
  "sm_apply J es s =
     (let (resps, d) = apply_entries es (sms_disk s) in
      on_ok (sm_persist J (s\<lparr>sms_disk := d\<rparr>)) (\<lambda>_ s. (Inr resps, s)))"

text \<open>\<open>begin_receiving_snapshot\<close>: the buffer openraft collects the bytes in.\<close>

definition begin_receiving_snapshot :: "'m sm_store \<Rightarrow> (storage_error + bytes) \<times> 'm sm_store" where
  "begin_receiving_snapshot s = (Inr [], s)"

definition install_snapshot ::
  "('m, 'v) json \<Rightarrow> 'm snapshot_meta \<Rightarrow> bytes \<Rightarrow> 'm sm_store \<Rightarrow> (storage_error + unit) \<times> 'm sm_store" where
  "install_snapshot J meta bs s = (case j_meta_de J bs of
     Inl e \<Rightarrow> (Inl (SeJson e), s)
   | Inr st \<Rightarrow>
       on_ok (sm_persist J (s\<lparr>sms_disk := \<lparr>sd_last_applied = sm_last_log_id meta, sd_last_membership = sm_last_membership meta,
          sd_state = st\<rparr>\<rparr>)) (\<lambda>_ s.
       (Inr (), s\<lparr>sms_snapshot := Some \<lparr>ss_meta = meta, ss_data = bs\<rparr>\<rparr>)))"

definition get_current_snapshot :: "'m sm_store \<Rightarrow> 'm stored_snapshot option" where
  "get_current_snapshot s = sms_snapshot s"

section \<open>The abstract log\<close>

definition log_map :: "('m, 'v) log_store \<Rightarrow> u64 \<rightharpoonup> 'm entry" where
  "log_map ls = map_of (ld_log (ls_disk ls))"

definition log_inv :: "('m, 'v) log_store \<Rightarrow> bool" where
  "log_inv ls \<longleftrightarrow> bt_ok (ld_log (ls_disk ls)) \<and> (\<forall>k e. log_map ls k = Some e \<longrightarrow> lid_index (en_log_id e) = k)"

lemma insert_entries_simps [simp]:
  "insert_entries [] m = m" "insert_entries (e # es) m = insert_entries es (bt_insert (lid_index (en_log_id e)) e m)"
  by (simp_all add: insert_entries_def)

lemma bt_ok_insert_entries: "bt_ok m \<Longrightarrow> bt_ok (insert_entries es m)"
  by (induction es arbitrary: m) simp_all

lemma map_of_insert_entries:
  "map_of (insert_entries es m) = map_of m ++ map_of (rev (map (\<lambda>e. (lid_index (en_log_id e), e)) es))"
proof (induction es arbitrary: m)
  case (Cons e es)
  show ?case unfolding insert_entries_simps Cons.IH map_of_bt_insert
    by (simp add: map_add_assoc [symmetric] map_add_def fun_eq_iff split: option.splits)
qed simp

section \<open>Durability of a replaced image\<close>

text \<open>The file holds the image \<open>d\<close>, whichever of its two names a crash leaves.\<close>

definition image_on :: "(bytes \<Rightarrow> json_error + 'd) \<Rightarrow> 'd \<Rightarrow> afile \<Rightarrow> bool" where
  "image_on de d af \<longleftrightarrow> present (af_file af) \<and> af_old af = af_file af \<and> synced (af_file af) = length (contents (af_file af)) \<and>
     de (contents (af_file af)) = Inr d"

text \<open>Either that, or nothing was written yet and \<open>d\<close> is the default.\<close>

definition holds_image :: "(bytes \<Rightarrow> json_error + 'd) \<Rightarrow> 'd \<Rightarrow> 'd \<Rightarrow> afile \<Rightarrow> bool" where
  "holds_image de d0 d af \<longleftrightarrow> image_on de d af \<or> d = d0 \<and> \<not> present (af_file af) \<and> \<not> present (af_old af)"

lemma persist_image:
  assumes "persist_as ser d af = (Inr u, af')" "script (af_dir af) = []" "\<And>bs. ser d = Inr bs \<Longrightarrow> de bs = Inr d"
  shows "image_on de d af' \<and> script (af_dir af') = []"
proof -
  obtain bs v where b: "ser d = Inr bs" "atomic_write bs af = (Inr v, af')"
    using assms(1) by (auto simp: persist_as_def split: sum.splits prod.splits)
  from atomic_write_cases [OF b(2)] atomic_write_synced [OF b(2) assms(2)] assms(3) [OF b(1)]
  show ?thesis by (simp add: image_on_def)
qed

lemma read_json_crashed:
  assumes "holds_image de d0 d af"
  shows "\<exists>r. read_json de (af_crash b af) = (Inr r, af_crash b af) \<and> (case r of Some x \<Rightarrow> x | None \<Rightarrow> d0) = d"
  using assms unfolding holds_image_def
proof
  assume "image_on de d af"
  then show ?thesis by (auto simp: image_on_def read_json_def af_crash_def Let_def crash_def sys_call_ok)
next
  assume "d = d0 \<and> \<not> present (af_file af) \<and> \<not> present (af_old af)"
  then show ?thesis by (cases b) (simp_all add: read_json_def af_crash_def Let_def crash_def)
qed

lemma open_dir_crashed: "open_dir (af_crash b af) = (Inr (), af_crash b af)"
  by (simp add: open_dir_def af_crash_def Let_def crash_def sys_call_ok)

lemma json_okD:
  assumes "json_ok J"
  shows "j_log_ser J x = Inr bs \<Longrightarrow> j_log_de J bs = Inr x" "j_sm_ser J y = Inr bs \<Longrightarrow> j_sm_de J bs = Inr y"
    "j_meta_ser J z = Inr bs \<Longrightarrow> j_meta_de J bs = Inr z"
  using assms by (simp_all add: json_ok_def)

section \<open>Histories of the log store\<close>

datatype ('m, 'v) log_op = SaveVote 'v | SaveCommitted "log_id option" | Append "'m entry list" | Truncate log_id | Purge log_id

fun log_exec :: "('m, 'v) json \<Rightarrow> ('m, 'v) log_op \<Rightarrow> ('m, 'v) log_store \<Rightarrow> (storage_error + unit) \<times> ('m, 'v) log_store" where
  "log_exec J (SaveVote v) ls = save_vote J v ls"
| "log_exec J (SaveCommitted c) ls = save_committed J c ls"
| "log_exec J (Append es) ls = log_append J es ls"
| "log_exec J (Truncate li) ls = log_truncate J li ls"
| "log_exec J (Purge li) ls = log_purge J li ls"

text \<open>All operations returned \<open>Ok\<close>.\<close>

fun log_run :: "('m, 'v) json \<Rightarrow> ('m, 'v) log_op list \<Rightarrow> ('m, 'v) log_store \<Rightarrow> ('m, 'v) log_store option" where
  "log_run J [] ls = Some ls"
| "log_run J (p # ps) ls = (case log_exec J p ls of (Inr _, ls) \<Rightarrow> log_run J ps ls | (Inl _, _) \<Rightarrow> None)"

text \<open>What Raft asks of a log: a map from indices to entries, a watermark, a committed id and a
  vote.\<close>

record ('m, 'v) raft_log =
  ra_purged :: "log_id option"
  ra_map :: "u64 \<rightharpoonup> 'm entry"
  ra_committed :: "log_id option"
  ra_vote :: "'v option"

definition log_abs :: "('m, 'v) log_store \<Rightarrow> ('m, 'v) raft_log" where
  "log_abs ls = \<lparr>ra_purged = ld_last_purged (ls_disk ls), ra_map = log_map ls,
     ra_committed = ld_committed (ls_disk ls), ra_vote = ld_vote (ls_disk ls)\<rparr>"

fun log_spec :: "('m, 'v) log_op \<Rightarrow> ('m, 'v) raft_log \<Rightarrow> ('m, 'v) raft_log" where
  "log_spec (SaveVote v) a = a\<lparr>ra_vote := Some v\<rparr>"
| "log_spec (SaveCommitted c) a = a\<lparr>ra_committed := c\<rparr>"
| "log_spec (Append es) a = a\<lparr>ra_map := ra_map a ++ map_of (rev (map (\<lambda>e. (lid_index (en_log_id e), e)) es))\<rparr>"
| "log_spec (Truncate li) a = a\<lparr>ra_map := ra_map a |` {k. k < lid_index li}\<rparr>"
| "log_spec (Purge li) a = a\<lparr>ra_purged := Some li, ra_map := ra_map a |` {k. lid_index li < k}\<rparr>"

definition log_empty :: "('m, 'v) raft_log" where
  "log_empty = \<lparr>ra_purged = None, ra_map = Map.empty, ra_committed = None, ra_vote = None\<rparr>"

definition log_good :: "('m, 'v) json \<Rightarrow> ('m, 'v) log_store \<Rightarrow> bool" where
  "log_good J ls \<longleftrightarrow> log_inv ls \<and> script (af_dir (ls_af ls)) = [] \<and>
     holds_image (j_log_de J) log_disk_default (ls_disk ls) (ls_af ls)"

lemma log_persist_good:
  assumes "json_ok J" "log_persist J ls = (Inr u, ls')" "script (af_dir (ls_af ls)) = []" "log_inv ls"
  shows "log_good J ls' \<and> ls_disk ls' = ls_disk ls"
proof -
  obtain af where a: "persist_as (j_log_ser J) (ls_disk ls) (ls_af ls) = (Inr u, af)" "ls' = ls\<lparr>ls_af := af\<rparr>"
    using assms(2) by (auto simp: log_persist_def split: prod.splits)
  have "image_on (j_log_de J) (ls_disk ls) af \<and> script (af_dir af) = []"
    by (rule persist_image [OF a(1) assms(3)]) (rule json_okD(1) [OF assms(1)])
  with a(2) assms(4) show ?thesis by (simp add: log_good_def holds_image_def log_inv_def log_map_def)
qed

lemma map_of_entries: "map_of (rev (map (\<lambda>e. (lid_index (en_log_id e), e)) es)) k = Some e \<Longrightarrow> lid_index (en_log_id e) = k"
  by (auto dest!: map_of_SomeD)

lemma bt_retain_restrict:
  assumes "bt_ok m"
  shows "map_of (bt_retain (\<lambda>k _. P k) m) = map_of m |` {k. P k}"
  by (rule ext) (simp add: map_of_bt_retain [OF assms] restrict_map_def split: option.splits)

lemma log_exec_good:
  assumes "json_ok J" "log_good J ls" "log_exec J p ls = (Inr u, ls')"
  shows "log_good J ls' \<and> log_abs ls' = log_spec p (log_abs ls)"
proof -
  have inv: "bt_ok (ld_log (ls_disk ls))" "\<And>k e. map_of (ld_log (ls_disk ls)) k = Some e \<Longrightarrow> lid_index (en_log_id e) = k"
    and dir: "script (af_dir (ls_af ls)) = []"
    using assms(2) by (auto simp: log_good_def log_inv_def log_map_def)
  have step: "log_good J ls' \<and> log_abs ls' = a"
    if "log_persist J (on_disk f ls) = (Inr u, ls')" "log_inv (on_disk f ls)" "log_abs (on_disk f ls) = a" for f a
    using log_persist_good [OF assms(1) that(1) _ that(2)] that(3) dir by (auto simp: on_disk_def log_abs_def log_map_def)
  note defs = log_inv_def log_abs_def on_disk_def log_map_def
  show ?thesis
  proof (cases p)
    case (SaveVote v)
    with assms(3) have "log_persist J (on_disk (\<lambda>d. d\<lparr>ld_vote := Some v\<rparr>) ls) = (Inr u, ls')" by (simp add: save_vote_def)
    then show ?thesis by (rule step) (use inv SaveVote in \<open>simp_all add: defs\<close>)
  next
    case (SaveCommitted c)
    with assms(3) have "log_persist J (on_disk (\<lambda>d. d\<lparr>ld_committed := c\<rparr>) ls) = (Inr u, ls')" by (simp add: save_committed_def)
    then show ?thesis by (rule step) (use inv SaveCommitted in \<open>simp_all add: defs\<close>)
  next
    case (Append es)
    with assms(3) have "log_persist J (on_disk (\<lambda>d. d\<lparr>ld_log := insert_entries es (ld_log d)\<rparr>) ls) = (Inr u, ls')"
      by (simp add: log_append_def)
    then show ?thesis
      by (rule step) (use inv map_of_entries Append in \<open>auto simp: defs bt_ok_insert_entries map_of_insert_entries map_add_Some_iff\<close>)
  next
    case (Truncate li)
    with assms(3) have "log_persist J (on_disk (\<lambda>d. d\<lparr>ld_log := bt_retain (\<lambda>k _. \<not> lid_index li \<le> k) (ld_log d)\<rparr>) ls) = (Inr u, ls')"
      by (simp add: log_truncate_def)
    then show ?thesis
      by (rule step) (use inv Truncate in \<open>auto simp: defs bt_retain_restrict restrict_map_def not_le split: if_splits\<close>)
  next
    case (Purge li)
    with assms(3) have "log_persist J (on_disk (\<lambda>d. d\<lparr>ld_last_purged := Some li, ld_log := bt_retain (\<lambda>k _. \<not> k \<le> lid_index li) (ld_log d)\<rparr>) ls) = (Inr u, ls')"
      by (simp add: log_purge_def)
    then show ?thesis
      by (rule step) (use inv Purge in \<open>auto simp: defs bt_retain_restrict restrict_map_def not_le split: if_splits\<close>)
  qed
qed

lemma log_run_good:
  assumes "json_ok J" "log_good J ls" "log_run J ps ls = Some ls'"
  shows "log_good J ls' \<and> log_abs ls' = foldl (\<lambda>a p. log_spec p a) (log_abs ls) ps"
  using assms(2,3)
proof (induction ps arbitrary: ls)
  case (Cons p ps)
  obtain u ls1 where "log_exec J p ls = (Inr u, ls1)" "log_run J ps ls1 = Some ls'"
    using Cons.prems(2) by (auto split: prod.splits sum.splits)
  with Cons.IH [of ls1] log_exec_good [OF assms(1) Cons.prems(1)] show ?case by fastforce
qed simp

end
