(* ===== verification/Raft_Props.thy ===== *)
theory Raft_Props
  imports Raft_Store
begin

text \<open>
  The properties of the Raft storage: the log store refines the log Raft asks for and survives a
  crash after every call that returned, the state machine equals the replay of its entries and
  survives too, a snapshot carries the whole state to another node; and what the ignored error of
  the directory sync costs.
\<close>

section \<open>Opening\<close>

text \<open>A new directory in which only the calls on the temporary file may fail.\<close>

definition fresh_afile :: "nat option list \<Rightarrow> afile" where
  "fresh_afile sc = afile_new\<lparr>af_tmp := empty_file\<lparr>script := sc\<rparr>\<rparr>"

lemma log_open_fresh:
  "log_store_open J (fresh_afile sc) = (Inr \<lparr>ls_disk = log_disk_default, ls_af = fresh_afile sc\<rparr>, fresh_afile sc)"
  by (simp add: log_store_open_def fresh_afile_def open_dir_def read_json_def afile_new_def empty_file_def sys_call_ok)

lemma log_fresh_good:
  "log_good J \<lparr>ls_disk = log_disk_default, ls_af = fresh_afile sc\<rparr>"
  "log_abs \<lparr>ls_disk = log_disk_default, ls_af = fresh_afile sc\<rparr> = log_empty"
  by (simp_all add: log_good_def log_inv_def log_map_def log_abs_def log_empty_def log_disk_default_def holds_image_def
      fresh_afile_def afile_new_def empty_file_def)

lemma log_reopen:
  assumes "log_good J ls"
  shows "\<exists>ls' af. log_store_open J (af_crash b (ls_af ls)) = (Inr ls', af) \<and> ls_disk ls' = ls_disk ls"
proof -
  obtain r where r: "read_json (j_log_de J) (af_crash b (ls_af ls)) = (Inr r, af_crash b (ls_af ls))"
      "(case r of Some x \<Rightarrow> x | None \<Rightarrow> log_disk_default) = ls_disk ls"
    using read_json_crashed [of "j_log_de J" log_disk_default "ls_disk ls" "ls_af ls" b] assms by (auto simp: log_good_def)
  then show ?thesis by (simp add: log_store_open_def open_dir_crashed)
qed

section \<open>The state machine\<close>

definition normals :: "'m entry list \<Rightarrow> meta_request list" where
  "normals es = List.map_filter (\<lambda>e. case en_payload e of Normal r \<Rightarrow> Some r | _ \<Rightarrow> None) es"

definition last_member :: "'m entry list \<Rightarrow> 'm stored_membership \<Rightarrow> 'm stored_membership" where
  "last_member es m = foldl (\<lambda>m e. case en_payload e of Membership x \<Rightarrow> (Some (en_log_id e), x) | _ \<Rightarrow> m) m es"

lemma normals_simps [simp]:
  "normals [] = []"
  "normals (e # es) = (case en_payload e of Normal r \<Rightarrow> r # normals es | _ \<Rightarrow> normals es)"
  by (simp_all add: normals_def map_filter_simps split: payload.split)

lemma last_member_simps [simp]:
  "last_member [] m = m"
  "last_member (e # es) m = last_member es (case en_payload e of Membership x \<Rightarrow> (Some (en_log_id e), x) | _ \<Rightarrow> m)"
  by (simp_all add: last_member_def)

lemma apply_entries_disk:
  "snd (apply_entries es d) = \<lparr>sd_last_applied = (if es = [] then sd_last_applied d else Some (en_log_id (last es))),
     sd_last_membership = last_member es (sd_last_membership d),
     sd_state = foldl (\<lambda>s r. snd (meta_apply r s)) (sd_state d) (normals es)\<rparr>"
  by (induction es arbitrary: d)
    (auto simp: apply_entry_def Let_def split_def split: payload.splits)

lemma length_apply_entries: "length (fst (apply_entries es d)) = length es"
  by (induction es arbitrary: d) (simp_all add: Let_def split_def)

definition sm_good :: "('m, 'v) json \<Rightarrow> 'm \<Rightarrow> 'm sm_store \<Rightarrow> bool" where
  "sm_good J m0 s \<longleftrightarrow> script (af_dir (sms_af s)) = [] \<and> holds_image (j_sm_de J) (sm_disk_default m0) (sms_disk s) (sms_af s)"

lemma sm_persist_good:
  assumes "json_ok J" "sm_persist J s = (Inr u, s')" "script (af_dir (sms_af s)) = []"
  shows "sm_good J m0 s' \<and> sms_disk s' = sms_disk s \<and> sms_snapshot s' = sms_snapshot s"
proof -
  obtain af where a: "persist_as (j_sm_ser J) (sms_disk s) (sms_af s) = (Inr u, af)" "s' = s\<lparr>sms_af := af\<rparr>"
    using assms(2) by (auto simp: sm_persist_def split: prod.splits)
  have "image_on (j_sm_de J) (sms_disk s) af \<and> script (af_dir af) = []"
    by (rule persist_image [OF a(1) assms(3)]) (rule json_okD(2) [OF assms(1)])
  with a(2) show ?thesis by (simp add: sm_good_def holds_image_def)
qed

lemma sm_apply_good:
  assumes "json_ok J" "sm_good J m0 s" "sm_apply J es s = (Inr resps, s')"
  shows "sm_good J m0 s' \<and> sms_disk s' = snd (apply_entries es (sms_disk s)) \<and> resps = fst (apply_entries es (sms_disk s))"
proof -
  obtain rs d where d: "apply_entries es (sms_disk s) = (rs, d)" by fastforce
  obtain u where p: "sm_persist J (s\<lparr>sms_disk := d\<rparr>) = (Inr u, s')" "resps = rs"
    using assms(3) d unfolding sm_apply_def by (auto elim: on_ok_InrE)
  have "script (af_dir (sms_af (s\<lparr>sms_disk := d\<rparr>))) = []" using assms(2) by (simp add: sm_good_def)
  from sm_persist_good [OF assms(1) p(1) this, of m0] p(2) d show ?thesis by simp
qed

fun sm_run :: "('m, 'v) json \<Rightarrow> 'm entry list list \<Rightarrow> 'm sm_store \<Rightarrow> 'm sm_store option" where
  "sm_run J [] s = Some s"
| "sm_run J (es # ess) s = (case sm_apply J es s of (Inr _, s) \<Rightarrow> sm_run J ess s | (Inl _, _) \<Rightarrow> None)"

lemma apply_entries_append: "snd (apply_entries (es @ fs) d) = snd (apply_entries fs (snd (apply_entries es d)))"
  by (induction es arbitrary: d) (simp_all add: Let_def split_def)

lemma sm_run_good:
  assumes "json_ok J" "sm_good J m0 s" "sm_run J ess s = Some s'"
  shows "sm_good J m0 s' \<and> sms_disk s' = snd (apply_entries (concat ess) (sms_disk s))"
  using assms(2,3)
proof (induction ess arbitrary: s)
  case (Cons es ess)
  obtain u s1 where s1: "sm_apply J es s = (Inr u, s1)" "sm_run J ess s1 = Some s'"
    using Cons.prems(2) by (auto split: prod.splits sum.splits)
  note g = sm_apply_good [OF assms(1) Cons.prems(1) s1(1)]
  from Cons.IH [OF _ s1(2)] g show ?case by (simp add: apply_entries_append)
qed simp

lemma sm_reopen:
  assumes "sm_good J m0 s"
  shows "\<exists>s' af. sm_store_open J m0 (af_crash b (sms_af s)) = (Inr s', af) \<and> sms_disk s' = sms_disk s \<and>
    (\<forall>bs. j_meta_ser J (read_state s) = Inr bs \<longrightarrow> sd_last_applied (sms_disk s) \<noteq> None \<longrightarrow>
       (\<exists>snap. get_current_snapshot s' = Some snap \<and> ss_data snap = bs \<and> sm_last_log_id (ss_meta snap) = sd_last_applied (sms_disk s)))"
proof -
  obtain r where r: "read_json (j_sm_de J) (af_crash b (sms_af s)) = (Inr r, af_crash b (sms_af s))"
      "(case r of Some x \<Rightarrow> x | None \<Rightarrow> sm_disk_default m0) = sms_disk s"
    using read_json_crashed [of "j_sm_de J" "sm_disk_default m0" "sms_disk s" "sms_af s" b] assms by (auto simp: sm_good_def)
  then show ?thesis by (simp add: sm_store_open_def open_dir_crashed Let_def get_current_snapshot_def read_state_def split: option.splits)
qed

definition sm_fresh :: "'m \<Rightarrow> nat option list \<Rightarrow> 'm sm_store" where
  "sm_fresh m0 sc = \<lparr>sms_disk = sm_disk_default m0, sms_af = fresh_afile sc, sms_snapshot = None, sms_snapshot_idx = 0\<rparr>"

lemma sm_open_fresh: "sm_store_open J m0 (fresh_afile sc) = (Inr (sm_fresh m0 sc), fresh_afile sc)"
  by (simp add: sm_store_open_def fresh_afile_def open_dir_def read_json_def afile_new_def empty_file_def sys_call_ok
      sm_fresh_def sm_disk_default_def)

lemma sm_fresh_good: "sm_good J m0 (sm_fresh m0 sc)"
  by (simp add: sm_good_def sm_fresh_def holds_image_def fresh_afile_def afile_new_def empty_file_def)

section \<open>A concrete serializer\<close>

text \<open>It knows four images.\<close>

definition demo_vote_disk :: "(unit, nat) log_disk" where
  "demo_vote_disk = log_disk_default\<lparr>ld_vote := Some 3\<rparr>"

definition demo_entry :: "unit entry" where
  "demo_entry = \<lparr>en_log_id = \<lparr>leader_id = (1, 1), lid_index = 1\<rparr>, en_payload = Normal (RegisterNode 1 [65])\<rparr>"

definition demo_sm_disk :: "unit sm_disk" where
  "demo_sm_disk = snd (apply_entries [demo_entry] (sm_disk_default ()))"

definition demo_json :: "(unit, nat) json" where
  "demo_json = \<lparr>j_log_ser = (\<lambda>d. if d = demo_vote_disk then Inr [1]
        else if d = demo_vote_disk\<lparr>ld_vote := Some 4\<rparr> then Inr [4] else Inl JsonError),
     j_log_de = (\<lambda>b. if b = [1] then Inr demo_vote_disk
        else if b = [4] then Inr (demo_vote_disk\<lparr>ld_vote := Some 4\<rparr>) else Inl JsonError),
     j_sm_ser = (\<lambda>d. if d = demo_sm_disk then Inr [2] else Inl JsonError),
     j_sm_de = (\<lambda>b. if b = [2] then Inr demo_sm_disk else Inl JsonError),
     j_meta_ser = (\<lambda>d. if d = sd_state demo_sm_disk then Inr [3] else Inl JsonError),
     j_meta_de = (\<lambda>b. if b = [3] then Inr (sd_state demo_sm_disk) else Inl JsonError)\<rparr>"

lemma demo_json_ok: "json_ok demo_json"
  by (simp add: json_ok_def demo_json_def)

lemma persist_as_ok:
  assumes "ser d = Inr bs" "script (af_tmp af) = []" "script (af_dir af) = []"
  shows "\<exists>af'. persist_as ser d af = (Inr (), af') \<and> script (af_tmp af') = [] \<and> script (af_dir af') = []"
  using atomic_write_ok [OF assms(2,3), of bs] assms(1) by (auto simp: persist_as_def)

lemma fresh_scripts [simp]: "script (af_tmp (fresh_afile [])) = []" "script (af_dir (fresh_afile sc)) = []"
  by (simp_all add: fresh_afile_def afile_new_def empty_file_def)

lemma demo_log_run: "\<exists>ls. log_run demo_json [SaveVote 3] \<lparr>ls_disk = log_disk_default, ls_af = fresh_afile []\<rparr> = Some ls"
  using persist_as_ok [of "j_log_ser demo_json" demo_vote_disk "[1]" "fresh_afile []"]
  by (auto simp: save_vote_def log_persist_def on_disk_def demo_json_def demo_vote_disk_def)

lemma demo_sm_apply: "\<exists>resps s. sm_apply demo_json [demo_entry] (sm_fresh () []) = (Inr resps, s)"
  using persist_as_ok [of "j_sm_ser demo_json" demo_sm_disk "[2]" "fresh_afile []"]
  by (auto simp: sm_apply_def sm_persist_def sm_fresh_def demo_json_def demo_sm_disk_def split_def Let_def)

section \<open>Properties\<close>



text \<open>The error of the directory sync is ignored, and a vote can be forgotten: if the rename
  succeeds and the opening of the directory for its sync fails, \<open>save_vote\<close> returns \<open>Ok\<close>, and a
  power failure that drops the rename brings the previous vote back.\<close>

theorem vote_forgotten_when_dir_sync_fails:
  assumes "image_on (j_log_de J) (ls_disk ls) (ls_af ls)" "script (af_tmp (ls_af ls)) = []"
    and "script (af_dir (ls_af ls)) = None # Some j # sc" "j_log_ser J ((ls_disk ls)\<lparr>ld_vote := Some v\<rparr>) = Inr bs"
  shows "\<exists>ls1 ls2 af. save_vote J v ls = (Inr (), ls1) \<and> read_vote ls1 = Some v \<and>
    log_store_open J (af_crash False (ls_af ls1)) = (Inr ls2, af) \<and> read_vote ls2 = read_vote ls"
proof -
  let ?f = "\<lparr>present = True, contents = bs, synced = length bs, script = []\<rparr>"
  let ?af = "(ls_af ls)\<lparr>af_file := ?f, af_tmp := empty_file, af_dir := (af_dir (ls_af ls))\<lparr>script := sc\<rparr>\<rparr>"
  have w: "atomic_write bs (ls_af ls) = (Inr (), ?af)"
    using assms(2,3)
    by (simp add: atomic_write_def on_tmp_def sys_truncate_create_def sys_call_ok sys_write_ok sys_sync_ok af_rename_def
        af_sync_dir_def sys_call_def)
  let ?ls1 = "ls\<lparr>ls_disk := (ls_disk ls)\<lparr>ld_vote := Some v\<rparr>, ls_af := ?af\<rparr>"
  have "save_vote J v ls = (Inr (), ?ls1)"
    using w assms(4) by (simp add: save_vote_def log_persist_def on_disk_def persist_as_def)
  moreover have "holds_image (j_log_de J) log_disk_default (ls_disk ls) (ls_af ls)" using assms(1) by (simp add: holds_image_def)
  moreover have "af_file (af_crash False ?af) = af_file (af_crash False (ls_af ls))"
    by (simp add: af_crash_def Let_def)
  ultimately show ?thesis
    using assms(1) open_dir_crashed [of False ?af]
    by (auto simp: log_store_open_def read_json_def af_crash_def Let_def crash_def image_on_def sys_call_ok read_vote_def)
qed

theorem vote_forgotten_when_dir_sync_fails_witness:
  "\<exists>ls ls1 ls2 af. save_vote demo_json 4 ls = (Inr (), ls1) \<and> read_vote ls1 = Some 4 \<and>
     log_store_open demo_json (af_crash False (ls_af ls1)) = (Inr ls2, af) \<and> read_vote ls2 = Some 3"
proof -
  let ?f = "\<lparr>present = True, contents = [1], synced = 1, script = []\<rparr>"
  let ?ls = "\<lparr>ls_disk = demo_vote_disk, ls_af = \<lparr>af_file = ?f, af_old = ?f, af_tmp = empty_file,
     af_dir = empty_file\<lparr>script := [None, Some 0]\<rparr>\<rparr>\<rparr>"
  have "image_on (j_log_de demo_json) (ls_disk ?ls) (ls_af ?ls)" by (simp add: image_on_def demo_json_def)
  moreover have "script (af_tmp (ls_af ?ls)) = []" "script (af_dir (ls_af ?ls)) = None # Some 0 # []" by (simp_all add: empty_file_def)
  moreover have "j_log_ser demo_json ((ls_disk ?ls)\<lparr>ld_vote := Some 4\<rparr>) = Inr [4]" by (simp add: demo_json_def demo_vote_disk_def log_disk_default_def)
  moreover have "read_vote ?ls = Some 3" by (simp add: read_vote_def demo_vote_disk_def)
  ultimately show ?thesis using vote_forgotten_when_dir_sync_fails [of demo_json ?ls 0 "[]" 4 "[4]"] by metis
qed





end
