(* ===== verification/Decimal.thy ===== *)
theory Decimal
  imports Disk
begin

text \<open>
  Decimal numbers as text: how the standard library prints an unsigned integer and how
  \<open>u64::from_str\<close> reads one (an optional plus sign, at least one digit, no overflow).
\<close>

text \<open>Texts of the program are bytes; this is one written as a string.\<close>

definition ascii :: "string \<Rightarrow> bytes" where
  "ascii s = map of_char s"

section \<open>Printing\<close>

function digits :: "nat \<Rightarrow> nat list" where
  "digits n = (if n < 10 then [n] else digits (n div 10) @ [n mod 10])"
  by pat_completeness auto

termination
  by (relation "measure id") auto

declare digits.simps [simp del]

definition dec_bytes :: "nat \<Rightarrow> bytes" where
  "dec_bytes n = map (\<lambda>d. of_nat (48 + d)) (digits n)"

definition dec_string :: "nat \<Rightarrow> string" where
  "dec_string n = map (\<lambda>d. char_of (48 + d)) (digits n)"

lemma digits_range: "d \<in> set (digits n) \<Longrightarrow> d < 10"
proof (induction n rule: digits.induct)
  case (1 n)
  show ?case
  proof (cases "n < 10")
    case True
    then show ?thesis using 1(2) by (simp add: digits.simps [of n])
  next
    case False
    then have "d \<in> set (digits (n div 10)) \<or> d = n mod 10" using 1(2) by (auto simp: digits.simps [of n])
    then show ?thesis using 1(1) [OF False] by auto
  qed
qed

lemma digits_neq_Nil [simp]: "digits n \<noteq> []"
  by (simp add: digits.simps [of n])

lemma digits_value: "foldl (\<lambda>a d. a * 10 + d) 0 (digits n) = n"
proof (induction n rule: digits.induct)
  case (1 n)
  show ?case
  proof (cases "n < 10")
    case False
    then show ?thesis using 1 [OF False] by (simp add: digits.simps [of n])
  qed (simp add: digits.simps [of n])
qed

section \<open>Parsing\<close>

definition is_digit :: "byte \<Rightarrow> bool" where
  "is_digit b \<longleftrightarrow> 48 \<le> b \<and> b \<le> 57"

definition digit_val :: "byte \<Rightarrow> nat" where
  "digit_val b = unat b - 48"

fun parse_digits :: "nat \<Rightarrow> bytes \<Rightarrow> nat option" where
  "parse_digits acc [] = Some acc"
| "parse_digits acc (b # bs) =
     (if \<not> is_digit b then None
      else let x = acc * 10 + digit_val b in if x < 2 ^ 64 then parse_digits x bs else None)"

definition parse_u64 :: "bytes \<Rightarrow> u64 option" where
  "parse_u64 s = (let ds = (case s of b # bs \<Rightarrow> if b = 43 then bs else s | [] \<Rightarrow> []) in
     if ds = [] then None else map_option of_nat (parse_digits 0 ds))"

definition dec_value :: "nat \<Rightarrow> bytes \<Rightarrow> nat" where
  "dec_value acc bs = foldl (\<lambda>a b. a * 10 + digit_val b) acc bs"

lemma dec_value_simps [simp]:
  "dec_value acc [] = acc" "dec_value acc (b # bs) = dec_value (acc * 10 + digit_val b) bs"
  by (simp_all add: dec_value_def)

lemma dec_value_ge: "acc \<le> dec_value acc bs"
proof (induction bs arbitrary: acc)
  case (Cons b bs)
  show ?case using Cons.IH [of "acc * 10 + digit_val b"] by simp
qed simp

lemma parse_digits_eq:
  assumes "acc < 2 ^ 64"
  shows "parse_digits acc bs = (if list_all is_digit bs \<and> dec_value acc bs < 2 ^ 64 then Some (dec_value acc bs) else None)"
  using assms
proof (induction bs arbitrary: acc)
  case (Cons b bs)
  let ?x = "acc * 10 + digit_val b"
  show ?case
  proof (cases "?x < 2 ^ 64")
    case True
    then show ?thesis using Cons.IH [OF True] by (auto simp: Let_def)
  next
    case False
    then have "\<not> dec_value ?x bs < 2 ^ 64" using dec_value_ge [of ?x bs] by linarith
    with False show ?thesis by simp
  qed
qed simp

text \<open>The plus sign is no digit, so at most one is dropped.\<close>

definition unsigned_part :: "bytes \<Rightarrow> bytes" where
  "unsigned_part s = (case s of b # bs \<Rightarrow> if b = 43 then bs else s | [] \<Rightarrow> [])"

lemma parse_u64_eq:
  "parse_u64 s = Some n \<longleftrightarrow> unsigned_part s \<noteq> [] \<and> list_all is_digit (unsigned_part s) \<and> dec_value 0 (unsigned_part s) = unat n"
proof -
  let ?ds = "unsigned_part s"
  have u: "unat (of_nat m :: u64) = m" if "m < 2 ^ 64" for m using that by (simp add: unat_of_nat)
  have "parse_u64 s = (if ?ds = [] then None else map_option of_nat (parse_digits 0 ?ds))"
    by (simp add: parse_u64_def unsigned_part_def Let_def)
  also have "\<dots> = Some n \<longleftrightarrow> ?ds \<noteq> [] \<and> list_all is_digit ?ds \<and> dec_value 0 ?ds < 2 ^ 64 \<and> of_nat (dec_value 0 ?ds) = n"
    by (auto simp: parse_digits_eq)
  also have "\<dots> \<longleftrightarrow> ?ds \<noteq> [] \<and> list_all is_digit ?ds \<and> dec_value 0 ?ds = unat n"
    using u [of "dec_value 0 ?ds"] unsigned_less [of n, where 'a = nat] by auto
  finally show ?thesis .
qed

lemma digit_byte: "d < 10 \<Longrightarrow> is_digit (of_nat (48 + d)) \<and> digit_val (of_nat (48 + d)) = d \<and> (of_nat (48 + d) :: byte) \<noteq> 43 \<and> (of_nat (48 + d) :: byte) \<noteq> 64"
proof -
  assume d: "d < 10"
  have u: "unat (of_nat (48 + d) :: byte) = 48 + d" using d by (subst unat_of_nat) simp
  have le: "(48 :: byte) \<le> of_nat (48 + d)" "(of_nat (48 + d) :: byte) \<le> 57" using d u by (simp_all only: word_le_nat_alt) simp_all
  have "(of_nat (48 + d) :: byte) \<noteq> 43" "(of_nat (48 + d) :: byte) \<noteq> 64"
    using d u arg_cong [of "of_nat (48 + d)" "43 :: byte" unat] arg_cong [of "of_nat (48 + d)" "64 :: byte" unat] by auto
  then show ?thesis using u le by (simp add: is_digit_def digit_val_def)
qed

lemma dec_value_bytes: "list_all (\<lambda>d. d < 10) ds \<Longrightarrow> dec_value acc (map (\<lambda>d. of_nat (48 + d)) ds) = foldl (\<lambda>a d. a * 10 + d) acc ds"
  using digit_byte by (induction ds arbitrary: acc) auto

lemma dec_bytes_parts:
  "unsigned_part (dec_bytes n) = dec_bytes n" "dec_bytes n \<noteq> []" "list_all is_digit (dec_bytes n)" "dec_value 0 (dec_bytes n) = n" "64 \<notin> set (dec_bytes n)"
proof -
  have r: "\<forall>d \<in> set (digits n). d < 10" using digits_range by blast
  have b: "\<forall>b \<in> set (dec_bytes n). is_digit b \<and> b \<noteq> 43 \<and> b \<noteq> 64" using r digit_byte by (auto simp: dec_bytes_def)
  show "dec_bytes n \<noteq> []" "list_all is_digit (dec_bytes n)" "64 \<notin> set (dec_bytes n)" using b by (auto simp: dec_bytes_def list_all_iff)
  then show "unsigned_part (dec_bytes n) = dec_bytes n" using b by (auto simp: unsigned_part_def split: list.splits)
  show "dec_value 0 (dec_bytes n) = n" using r dec_value_bytes [of "digits n" 0] digits_value [of n] by (simp add: dec_bytes_def list_all_iff)
qed

lemma parse_u64_dec: "parse_u64 (dec_bytes (unat n)) = Some n"
  by (simp add: parse_u64_eq dec_bytes_parts)

end
