(* ===== verification/Manager.thy ===== *)
theory Manager
  imports Router Raft_Props Decimal "HOL-Library.Sublist"
begin

text \<open>
  The cluster manager (\<open>qv-cluster/src/manager.rs\<close>): the operations of a node on the metadata
  plane.  The Raft instance it drives is openraft's; its calls are the fields of \<open>raft\<close>, each a
  function of the calling node and the world that returns the error's text or a result and the
  world afterwards (the log is replicated and applied by the nodes while the call waits).  The
  serialisation of requests is serde_json's.
\<close>

section \<open>What openraft and serde_json provide\<close>

record raft =
  rf_client_write :: "node_id \<Rightarrow> meta_request \<Rightarrow> world \<Rightarrow> (string + meta_response) \<times> world"
  rf_is_initialized :: "node_id \<Rightarrow> world \<Rightarrow> (string + bool) \<times> world"
  rf_initialize :: "node_id \<Rightarrow> (node_id \<times> str) list \<Rightarrow> world \<Rightarrow> (string + unit) \<times> world"
  rf_add_learner :: "node_id \<Rightarrow> node_id \<Rightarrow> str \<Rightarrow> bool \<Rightarrow> world \<Rightarrow> (string + unit) \<times> world"
  rf_change_membership :: "node_id \<Rightarrow> node_id set \<Rightarrow> bool \<Rightarrow> world \<Rightarrow> (string + unit) \<times> world"
  rf_voters :: "node_id \<Rightarrow> world \<Rightarrow> node_id set"
  rf_leader :: "node_id \<Rightarrow> world \<Rightarrow> node_id option"

record meta_json =
  mj_ser :: "meta_request \<Rightarrow> string + bytes"
  mj_de :: "bytes \<Rightarrow> string + meta_request"

datatype manager_error = MRaft string | MNotLeader string | MSerde string | MInvalid string

text \<open>\<open>map_err\<close>.\<close>

definition map_err :: "('e \<Rightarrow> 'f) \<Rightarrow> ('e + 'a) \<times> 'w \<Rightarrow> ('f + 'a) \<times> 'w" where
  "map_err f x = (map_sum f id (fst x), snd x)"

lemma map_err_simps [simp]:
  "map_err f (Inl e, w) = (Inl (f e), w)" "map_err f (Inr a, w) = (Inr a, w)"
  by (simp_all add: map_err_def)

lemma map_err_Inr: "map_err f x = (Inr a, w) \<longleftrightarrow> x = (Inr a, w)"
  by (cases x; cases "fst x") auto

lemma map_err_Inl: "map_err f x = (Inl e, w) \<longleftrightarrow> (\<exists>e'. x = (Inl e', w) \<and> e = f e')"
  by (cases x; cases "fst x") auto

lemma on_ok_Inl:
  "on_ok x k = (Inl e, w') \<longleftrightarrow> x = (Inl e, w') \<or> (\<exists>a w. x = (Inr a, w) \<and> k a w = (Inl e, w'))"
  by (cases x; cases "fst x") auto

section \<open>Starting the manager\<close>

record raft_config =
  rc_cluster_name :: string
  rc_heartbeat_interval :: nat
  rc_election_timeout_min :: nat
  rc_election_timeout_max :: nat
  rc_snapshot_logs_since_last :: nat

definition meta_raft_config :: raft_config where
  "meta_raft_config = \<lparr>rc_cluster_name = ''quorvec-meta'', rc_heartbeat_interval = 250, rc_election_timeout_min = 1000,
     rc_election_timeout_max = 1500, rc_snapshot_logs_since_last = 1024\<rparr>"

record ('r, 'm) cluster_manager =
  cm_node_id :: node_id
  cm_advertise_addr :: str
  cm_raft :: 'r
  cm_sm :: "'m sm_store"

text \<open>\<open>validate\<close> is the check of openraft's configuration, \<open>raft_new\<close> its constructor, \<open>display\<close> the text
  of a storage error; the two files are those of the log and of the state machine.\<close>

definition manager_start ::
  "(raft_config \<Rightarrow> string + raft_config) \<Rightarrow> (node_id \<Rightarrow> raft_config \<Rightarrow> ('m, 'v) log_store \<Rightarrow> 'm sm_store \<Rightarrow> string + 'r) \<Rightarrow>
   (storage_error \<Rightarrow> string) \<Rightarrow> ('m, 'v) json \<Rightarrow> 'm \<Rightarrow> node_id \<Rightarrow> str \<Rightarrow> afile \<times> afile \<Rightarrow>
   (manager_error + ('r, 'm) cluster_manager) \<times> (afile \<times> afile)" where
  "manager_start validate raft_new display J m0 me addr fs =
     (case validate meta_raft_config of
        Inl e \<Rightarrow> (Inl (MRaft (''invalid raft config: '' @ e)), fs)
      | Inr config \<Rightarrow>
          (case log_store_open J (fst fs) of
             (Inl e, lf) \<Rightarrow> (Inl (MRaft (''open durable raft log store: '' @ display e)), (lf, snd fs))
           | (Inr ls, lf) \<Rightarrow>
               (case sm_store_open J m0 (snd fs) of
                  (Inl e, sf) \<Rightarrow> (Inl (MRaft (''open durable raft state machine: '' @ display e)), (lf, sf))
                | (Inr sm, sf) \<Rightarrow>
                    (case raft_new me config ls sm of
                       Inl e \<Rightarrow> (Inl (MRaft (''raft init: '' @ e)), (lf, sf))
                     | Inr raft \<Rightarrow> (Inr \<lparr>cm_node_id = me, cm_advertise_addr = addr, cm_raft = raft, cm_sm = sm\<rparr>, (lf, sf))))))"

section \<open>Metadata writes\<close>

definition manager_write :: "raft \<Rightarrow> node_id \<Rightarrow> meta_request \<Rightarrow> world \<Rightarrow> (manager_error + string) \<times> world" where
  "manager_write R me req w =
     on_ok (map_err (\<lambda>s. if sublist ''ForwardToLeader'' s \<or> sublist ''not the leader'' s then MNotLeader ('': '' @ s)
                          else MRaft (''client_write: '' @ s))
        (rf_client_write R me req w))
       (\<lambda>resp w. (Inr (resp_note resp), w))"

definition create_collection :: "raft \<Rightarrow> node_id \<Rightarrow> str \<Rightarrow> collection_schema \<Rightarrow> world \<Rightarrow> (manager_error + string) \<times> world" where
  "create_collection R me name schema w = on_ok (manager_write R me (CreateCollection name schema) w) (\<lambda>resp w. (Inr resp, w))"

definition drop_collection :: "raft \<Rightarrow> node_id \<Rightarrow> str \<Rightarrow> world \<Rightarrow> (manager_error + string) \<times> world" where
  "drop_collection R me name w = on_ok (manager_write R me (DropCollection name) w) (\<lambda>resp w. (Inr resp, w))"

definition set_shard_state ::
  "raft \<Rightarrow> node_id \<Rightarrow> str \<Rightarrow> u32 \<Rightarrow> node_id \<Rightarrow> shard_state \<Rightarrow> world \<Rightarrow> (manager_error + string) \<times> world" where
  "set_shard_state R me c i n st w = manager_write R me (SetShardState c i n st) w"

definition commit_meta_request_bytes :: "raft \<Rightarrow> meta_json \<Rightarrow> node_id \<Rightarrow> bytes \<Rightarrow> world \<Rightarrow> (manager_error + string) \<times> world" where
  "commit_meta_request_bytes R MJ me bs w =
     (case mj_de MJ bs of
        Inl e \<Rightarrow> (Inl (MInvalid (''bad MetaRequest: '' @ e)), w)
      | Inr req \<Rightarrow> manager_write R me req w)"

definition encode_set_shard_state :: "meta_json \<Rightarrow> str \<Rightarrow> u32 \<Rightarrow> node_id \<Rightarrow> shard_state \<Rightarrow> manager_error + bytes" where
  "encode_set_shard_state MJ c i n st = map_sum MSerde id (mj_ser MJ (SetShardState c i n st))"

section \<open>Membership\<close>

definition bootstrap :: "raft \<Rightarrow> node_id \<Rightarrow> str \<Rightarrow> world \<Rightarrow> (manager_error + unit) \<times> world" where
  "bootstrap R me addr w =
     on_ok (map_err (\<lambda>e. MRaft (''is_initialized: '' @ e)) (rf_is_initialized R me w)) (\<lambda>already w.
     if already then (Inr (), w)
     else on_ok (map_err (\<lambda>e. MRaft (''initialize: '' @ e)) (rf_initialize R me [(me, addr)] w)) (\<lambda>_ w.
     on_ok (manager_write R me (RegisterNode me addr) w) (\<lambda>_ w. (Inr (), w))))"

definition join_node :: "raft \<Rightarrow> node_id \<Rightarrow> node_id \<Rightarrow> str \<Rightarrow> world \<Rightarrow> (manager_error + unit) \<times> world" where
  "join_node R me new_id addr w =
     on_ok (manager_write R me (RegisterNode new_id addr) w) (\<lambda>_ w.
     on_ok (map_err (\<lambda>e. MRaft (''add_learner: '' @ e)) (rf_add_learner R me new_id addr True w)) (\<lambda>_ w.
     let voters = insert new_id (rf_voters R me w) in
     on_ok (map_err (\<lambda>e. MRaft (''change_membership(join): '' @ e)) (rf_change_membership R me voters True w)) (\<lambda>_ w. (Inr (), w))))"

definition leave_node :: "raft \<Rightarrow> node_id \<Rightarrow> node_id \<Rightarrow> world \<Rightarrow> (manager_error + unit) \<times> world" where
  "leave_node R me n w =
     (let voters = rf_voters R me w in
      if n \<notin> voters then (Inl (MInvalid (''node '' @ dec_string (unat n) @ '' is not a current voter'')), w)
      else if voters - {n} = {} then (Inl (MInvalid ''refusing to remove the last voter''), w)
      else on_ok (map_err (\<lambda>e. MRaft (''change_membership(leave): '' @ e)) (rf_change_membership R me (voters - {n}) False w)) (\<lambda>_ w.
        on_ok (manager_write R me (DeregisterNode n) w) (\<lambda>_ w. (Inr (), w))))"

section \<open>Metadata reads\<close>

definition metadata :: "node_id \<Rightarrow> world \<Rightarrow> meta_state \<times> world" where
  "metadata me w = (let w = snd (next_event w) in (nd_cluster (w_nodes w me), w))"

definition is_leader :: "raft \<Rightarrow> node_id \<Rightarrow> world \<Rightarrow> bool" where
  "is_leader R me w \<longleftrightarrow> rf_leader R me w = Some me"

definition leader_addr :: "raft \<Rightarrow> node_id \<Rightarrow> world \<Rightarrow> str option \<times> world" where
  "leader_addr R me w =
     (case rf_leader R me w of
        None \<Rightarrow> (None, w)
      | Some l \<Rightarrow> (case metadata me w of (meta, w) \<Rightarrow> (map_of (ms_nodes meta) l, w)))"

definition schema_with_defaults :: "u32 \<Rightarrow> meta_metric \<Rightarrow> u32 \<Rightarrow> u32 \<Rightarrow> collection_schema" where
  "schema_with_defaults dim metric shard_count replication_n =
     \<lparr>cs_dim = dim, cs_metric = metric, cs_shard_count = (if shard_count = 0 then 8 else shard_count),
      cs_replication_n = (if replication_n = 0 then 3 else replication_n)\<rparr>"

end
