(* ===== verification/Service.thy ===== *)
theory Service
  imports Manager
begin

text \<open>
  The client service (\<open>qv-node/src/service.rs\<close>) and the part of the internal service that
  commits forwarded metadata requests (\<open>meta_write\<close> of \<open>qv-node/src/internal_service.rs\<close>): every
  handler checks and translates its request, calls the manager or the coordinator and turns the
  result into a response or a status.  A status is its code and what its text is the display of.
\<close>

section \<open>Statuses\<close>

datatype code = InvalidArgument | NotFound | AlreadyExists | FailedPrecondition | Unavailable | Internal

datatype cause = Text string | AboutCollection str string | OfManager manager_error | OfRouter router_error

type_synonym client_status = "code \<times> cause"

fun manager_err_to_status :: "manager_error \<Rightarrow> client_status" where
  "manager_err_to_status (MNotLeader s) = (FailedPrecondition, OfManager (MNotLeader s))"
| "manager_err_to_status (MInvalid s) = (InvalidArgument, OfManager (MInvalid s))"
| "manager_err_to_status (MSerde s) = (Internal, OfManager (MSerde s))"
| "manager_err_to_status (MRaft s) = (Internal, OfManager (MRaft s))"

definition router_err_to_status :: "router_error \<Rightarrow> client_status" where
  "router_err_to_status e =
     (case e of
        RNotFound _ \<Rightarrow> NotFound
      | RDimMismatch _ _ \<Rightarrow> InvalidArgument
      | RNoReplica _ _ \<Rightarrow> Unavailable
      | RWriteQuorum _ _ _ _ \<Rightarrow> Unavailable
      | RReadQuorum _ _ _ _ \<Rightarrow> Unavailable
      | RShard _ \<Rightarrow> Internal
      | RHint _ \<Rightarrow> Internal, OfRouter e)"

section \<open>Requests\<close>

record create_req =
  cq_name :: str
  cq_dim :: u32
  cq_metric :: int
  cq_shard_count :: u32
  cq_replication_n :: u32

record client_point =
  cp_id :: u64
  cp_vector :: vec
  cp_payload :: "bytes option"

record scored_point =
  sc_id :: u64
  sc_score :: f32
  sc_payload :: "bytes option"

record cluster_info_resp =
  ci_nodes :: "(node_id \<times> str) list"
  ci_shard_map :: "(str \<times> u32 \<times> node_id \<times> int) list"
  ci_raft_leader :: u64
  ci_version :: string

definition VERSION :: string where
  "VERSION = ''quorvec '' @ ''0.1.0'' @ '' (M3 cluster)''"

text \<open>The numbers of the protocol's enumerations.\<close>

definition metric_from_proto :: "int \<Rightarrow> client_status + meta_metric" where
  "metric_from_proto m =
     (if m = 1 then Inr MetricL2 else if m = 2 then Inr MetricCosine
      else Inl (InvalidArgument, Text ''metric must be L2 or COSINE''))"

fun shard_state_to_proto :: "shard_state \<Rightarrow> int" where
  "shard_state_to_proto Active = 1"
| "shard_state_to_proto Syncing = 2"
| "shard_state_to_proto Dead = 3"

section \<open>Join targets\<close>

text \<open>\<open>split_once\<close>: at the first occurrence.\<close>

fun split_once :: "'a \<Rightarrow> 'a list \<Rightarrow> ('a list \<times> 'a list) option" where
  "split_once c [] = None"
| "split_once c (x # xs) = (if x = c then Some ([], xs) else map_option (\<lambda>(a, b). (x # a, b)) (split_once c xs))"

lemma split_once_eq: "split_once c xs = Some (a, b) \<longleftrightarrow> xs = a @ c # b \<and> c \<notin> set a"
proof (induction xs arbitrary: a)
  case (Cons x xs)
  show ?case
  proof (cases "x = c")
    case True
    then show ?thesis by (cases a) auto
  next
    case False
    have "split_once c (x # xs) = Some (a, b) \<longleftrightarrow> (\<exists>a'. a = x # a' \<and> split_once c xs = Some (a', b))" using False by auto
    then show ?thesis using Cons.IH False by (cases a) auto
  qed
qed simp

definition parse_join_target :: "str \<Rightarrow> (u64 \<times> str) option" where
  "parse_join_target s =
     (case split_once 64 s of
        None \<Rightarrow> None
      | Some (id_str, addr) \<Rightarrow>
          (case parse_u64 id_str of
             None \<Rightarrow> None
           | Some i \<Rightarrow> if addr = [] then None else Some (i, addr)))"

section \<open>Metadata handlers\<close>

definition svc_create_collection :: "raft \<Rightarrow> node_id \<Rightarrow> create_req \<Rightarrow> world \<Rightarrow> (client_status + unit) \<times> world" where
  "svc_create_collection R me req w =
     (if cq_name req = [] then (Inl (InvalidArgument, Text ''collection name is empty''), w)
      else if cq_dim req = 0 then (Inl (InvalidArgument, Text ''dim must be > 0''), w)
      else case metric_from_proto (cq_metric req) of
        Inl e \<Rightarrow> (Inl e, w)
      | Inr metric \<Rightarrow>
          let schema = schema_with_defaults (cq_dim req) metric (cq_shard_count req) (cq_replication_n req) in
          on_ok (map_err manager_err_to_status (create_collection R me (cq_name req) schema w)) (\<lambda>reply w.
          if reply = ''exists'' then (Inl (AlreadyExists, AboutCollection (cq_name req) ''already exists''), w)
          else (Inr (), w)))"

definition svc_drop_collection :: "raft \<Rightarrow> node_id \<Rightarrow> str \<Rightarrow> world \<Rightarrow> (client_status + unit) \<times> world" where
  "svc_drop_collection R me name w =
     on_ok (map_err manager_err_to_status (drop_collection R me name w)) (\<lambda>reply w.
     let nd = w_nodes w me;
         w = w\<lparr>w_nodes := (w_nodes w)(me := nd\<lparr>nd_shards := store_drop_collection name (nd_shards nd)\<rparr>)\<rparr> in
     if reply = ''absent'' then (Inl (NotFound, AboutCollection name ''not found''), w)
     else (Inr (), w))"

definition svc_join :: "raft \<Rightarrow> node_id \<Rightarrow> str \<Rightarrow> world \<Rightarrow> (client_status + u64) \<times> world" where
  "svc_join R me target w =
     (case parse_join_target target of
        None \<Rightarrow> (Inl (InvalidArgument, Text (''join target must be '' @ [CHR 0x27] @ ''node_id@host:port'' @ [CHR 0x27])), w)
      | Some (new_id, addr) \<Rightarrow>
          on_ok (map_err manager_err_to_status (join_node R me new_id addr w)) (\<lambda>_ w. (Inr new_id, w)))"

definition svc_leave :: "raft \<Rightarrow> node_id \<Rightarrow> u64 \<Rightarrow> world \<Rightarrow> (client_status + unit) \<times> world" where
  "svc_leave R me n w = on_ok (map_err manager_err_to_status (leave_node R me n w)) (\<lambda>_ w. (Inr (), w))"

definition svc_cluster_info :: "hash_fn \<Rightarrow> raft \<Rightarrow> node_id \<Rightarrow> world \<Rightarrow> cluster_info_resp \<times> world" where
  "svc_cluster_info X R me w =
     (case metadata me w of (meta, w) \<Rightarrow>
       (\<lparr>ci_nodes = ms_nodes meta,
         ci_shard_map = map (\<lambda>a. (sa_collection a, sa_shard_idx a, sa_node_id a, shard_state_to_proto (sa_state a))) (shard_map X meta),
         ci_raft_leader = (case rf_leader R me w of Some l \<Rightarrow> l | None \<Rightarrow> 0),
         ci_version = VERSION\<rparr>, w))"

datatype meta_status = MetaFailedPrecondition | MetaInternal manager_error

definition meta_write :: "raft \<Rightarrow> meta_json \<Rightarrow> node_id \<Rightarrow> bytes \<Rightarrow> world \<Rightarrow> (meta_status + bool \<times> string) \<times> world" where
  "meta_write R MJ me bs w =
     (case commit_meta_request_bytes R MJ me bs w of
        (Inr reply, w) \<Rightarrow> (Inr (True, reply), w)
      | (Inl e, w) \<Rightarrow> (Inl (case e of MNotLeader _ \<Rightarrow> MetaFailedPrecondition | _ \<Rightarrow> MetaInternal e), w))"

section \<open>Data handlers\<close>

text \<open>\<open>map_err(router_err_to_status)?\<close> and the translation of the result.\<close>

definition respond :: "('a \<Rightarrow> 'b) \<Rightarrow> ((router_error + 'a) \<times> world) option \<Rightarrow> ((client_status + 'b) \<times> world) option" where
  "respond f x = map_option (\<lambda>(r, w). (map_sum router_err_to_status f r, w)) x"

definition svc_upsert ::
  "net \<Rightarrow> node_id \<Rightarrow> str \<Rightarrow> client_point list \<Rightarrow> int \<Rightarrow> world \<Rightarrow> ((client_status + u64) \<times> world) option" where
  "svc_upsert N me c points cons w =
     respond id (coordinate_upsert N me c
       (map (\<lambda>p. (cp_id p, cp_vector p, case cp_payload p of Some b \<Rightarrow> b | None \<Rightarrow> [])) points) (from_proto cons) w)"

definition svc_delete ::
  "net \<Rightarrow> node_id \<Rightarrow> str \<Rightarrow> u64 list \<Rightarrow> int \<Rightarrow> world \<Rightarrow> ((client_status + u64) \<times> world) option" where
  "svc_delete N me c ids cons w = respond id (coordinate_delete N me c ids (from_proto cons) w)"

definition svc_get ::
  "net \<Rightarrow> node_id \<Rightarrow> str \<Rightarrow> u64 list \<Rightarrow> int \<Rightarrow> world \<Rightarrow> ((client_status + client_point list) \<times> world) option" where
  "svc_get N me c ids cons w =
     respond (map (\<lambda>(j, v). \<lparr>cp_id = j, cp_vector = v, cp_payload = None\<rparr>)) (coordinate_get N me c ids (from_proto cons) w)"

definition svc_search ::
  "net \<Rightarrow> node_id \<Rightarrow> str \<Rightarrow> vec \<Rightarrow> u32 \<Rightarrow> u32 \<Rightarrow> world \<Rightarrow> ((client_status + scored_point list) \<times> world) option" where
  "svc_search N me c q k ef w =
     (let k = unat (if k = 0 then DEFAULT_K else k); ef = unat (if ef = 0 then DEFAULT_EF_SEARCH else ef) in
      respond (map (\<lambda>(j, s). \<lparr>sc_id = j, sc_score = s, sc_payload = None\<rparr>)) (coordinate_search N me c q k ef w))"

definition svc_health :: string where
  "svc_health = ''ok''"

end
