(* ===== verification/Handoff.thy ===== *)
theory Handoff
  imports Router_Props
begin

text \<open>
  Hinted handoff: a replica that a write did not reach has a durable hint at the coordinator, and
  replaying the hints brings every target it reaches up to date.
\<close>

section \<open>The hint log of a coordinator\<close>

text \<open>The log is intact, and other activity keeps it so.\<close>

definition hints_ok :: "(bytes \<Rightarrow> u32) \<Rightarrow> node_id \<Rightarrow> world \<Rightarrow> bool" where
  "hints_ok crc me w \<longleftrightarrow> (\<exists>hs. hint_file crc hs (nd_hint_log (w_nodes w me))) \<and>
     list_all (\<lambda>e. \<forall>ns. (\<exists>hs. hint_file crc hs (nd_hint_log (ns me))) \<longrightarrow>
       (\<exists>hs. hint_file crc hs (nd_hint_log (ev_between e ns me)))) (w_events w)"

definition keeps_hints :: "(node \<Rightarrow> ('r \<times> node) option) \<Rightarrow> bool" where
  "keeps_hints act \<longleftrightarrow> (\<forall>nd r nd'. act nd = Some (r, nd') \<longrightarrow> nd_hint_log nd' = nd_hint_log nd)"

lemma on_shards_keeps_hints: "keeps_hints (on_shards act)"
  by (auto simp: keeps_hints_def on_shards_def)

lemma with_schema_keeps_hints:
  assumes "\<And>schema. keeps_hints (act schema)"
  shows "keeps_hints (with_schema c act)"
  using assms by (fastforce simp: keeps_hints_def with_schema_def split: option.splits)

lemma replica_write_keeps_hints: "keeps_hints (replica_write E req t)"
proof -
  have "keeps_hints (apply_replica_write E t req schema)" for schema
    by (auto simp: keeps_hints_def apply_replica_write_def Let_def and_then_def on_shards_def split: option.splits prod.splits sum.splits)
  then show ?thesis unfolding replica_write_def by (rule with_schema_keeps_hints)
qed

lemma replica_get_keeps_hints: "keeps_hints (replica_get E req t)"
proof -
  have "get_points E sref is out nd = Some (r, nd') \<Longrightarrow> nd_hint_log nd' = nd_hint_log nd" for sref "is" out nd r nd'
  proof (induction E sref "is" out nd rule: get_points.induct)
    case (2 E sref i "is" out nd)
    then show ?case by (fastforce simp: and_then_def on_shards_def split: option.splits prod.splits sum.splits)
  qed simp
  then have "keeps_hints (apply_replica_get E c i ids schema)" for c i ids schema
    by (auto simp: keeps_hints_def apply_replica_get_def)
  then show ?thesis unfolding replica_get_def by (rule with_schema_keeps_hints)
qed

lemma next_event_hints:
  assumes "hints_ok crc me w"
  shows "hints_ok crc me (snd (next_event w))"
proof (cases "w_events w")
  case Nil
  then show ?thesis using assms by (simp add: next_event_def)
next
  case (Cons e es)
  then have "\<exists>hs. hint_file crc hs (nd_hint_log (ev_between e (w_nodes w) me))" using assms unfolding hints_ok_def by auto
  then show ?thesis using assms Cons by (simp add: hints_ok_def next_event_def)
qed

lemma on_node_hints: "keeps_hints act \<Longrightarrow> on_node n act w = Some (r, w') \<Longrightarrow> hints_ok crc me w \<Longrightarrow> hints_ok crc me w'"
  by (auto simp: hints_ok_def on_node_def keeps_hints_def)

lemma rpc_hints:
  assumes "\<And>t. keeps_hints (handler t)" "rpc N addr handler w = Some (r, w')" "hints_ok crc me w"
  shows "hints_ok crc me w'"
proof -
  obtain ev w1 where ev: "next_event w = (ev, w1)" by fastforce
  have "hints_ok crc me w1" using next_event_hints [OF assms(3)] ev by simp
  then show ?thesis using assms(2) ev on_node_hints [OF assms(1)]
    by (fastforce simp: rpc_def split: option.splits if_splits)
qed

lemma write_one_hints:
  assumes "write_one_replica N me0 schema p x w = Some (r, w')" "hints_ok crc me w"
  shows "hints_ok crc me w'"
proof (cases "fst x = me0")
  case True
  with assms show ?thesis using on_node_hints [OF on_shards_keeps_hints] by (fastforce simp: write_one_replica_def)
next
  case False
  with assms obtain r0 where "rpc N (snd x) (replica_write (nt_env N) (request_of p)) w = Some (r0, w')"
    by (auto simp: write_one_replica_def and_then_def split: option.splits sum.splits)
  from rpc_hints [where handler = "replica_write (nt_env N) (request_of p)", OF replica_write_keeps_hints this assms(2)] show ?thesis .
qed

lemma read_one_hints:
  assumes "read_one_replica N me0 schema c i j x w = Some (r, w')" "hints_ok crc me w"
  shows "hints_ok crc me w'"
proof (cases "fst x = me0")
  case True
  with assms show ?thesis using on_node_hints [OF on_shards_keeps_hints] by (fastforce simp: read_one_replica_def)
next
  case False
  with assms obtain r0 where "rpc N (snd x) (replica_get (nt_env N) \<lparr>gq_collection = c, gq_shard_idx = i, gq_ids = [j]\<rparr>) w = Some (r0, w')"
    by (auto simp: read_one_replica_def and_then_def split: option.splits sum.splits)
  from rpc_hints [where handler = "replica_get (nt_env N) \<lparr>gq_collection = c, gq_shard_idx = i, gq_ids = [j]\<rparr>",
      OF replica_get_keeps_hints this assms(2)] show ?thesis .
qed

text \<open>The contract of replica access also holds with the coordinator's hint log in the invariant.\<close>

interpretation hinted_access: replica_access
  "\<lambda>b L w. (world_ok N D G M b L w \<and> op_ok D G schema schema' p) \<and> hints_ok crc me w" grow "holds_op p" "\<lambda>q. po_hlc p \<le> sp_hlc q"
  "issued_point G (op_key p) (po_id p)" "reachable_at N" "write_one_replica N me schema p"
  "read_one_replica N me' schema' (po_collection p) (po_shard_idx p) (po_id p)"
  for N D G M schema schema' p me me' crc
proof
  fix x b L w
  assume x: "reachable_at N x" and w: "(world_ok N D G M b L w \<and> op_ok D G schema schema' p) \<and> hints_ok crc me w"
  from point_access.read1_law [OF x conjunct1 [OF w], of me'] obtain r w' L' where
    r: "read_one_replica N me' schema' (po_collection p) (po_shard_idx p) (po_id p) x w = Some (r, w')"
      "world_ok N D G M b L' w' \<and> op_ok D G schema schema' p" "grow L L'"
      "\<forall>y. r = Inr y \<longrightarrow> (holds_op p L' (fst x) \<longrightarrow> (\<exists>q. y = Some q \<and> po_hlc p \<le> sp_hlc q)) \<and>
        (\<forall>q. y = Some q \<longrightarrow> issued_point G (op_key p) (po_id p) q)" by auto
  with read_one_hints [OF r(1) conjunct2 [OF w]]
  show "\<exists>r w' L'. read_one_replica N me' schema' (po_collection p) (po_shard_idx p) (po_id p) x w = Some (r, w') \<and>
      ((world_ok N D G M b L' w' \<and> op_ok D G schema schema' p) \<and> hints_ok crc me w') \<and> grow L L' \<and>
      (\<forall>y. r = Inr y \<longrightarrow> (holds_op p L' (fst x) \<longrightarrow> (\<exists>q. y = Some q \<and> po_hlc p \<le> sp_hlc q)) \<and>
        (\<forall>q. y = Some q \<longrightarrow> issued_point G (op_key p) (po_id p) q))" by blast
next
  fix x b L w
  assume x: "reachable_at N x" and w: "(world_ok N D G M (Suc b) L w \<and> op_ok D G schema schema' p) \<and> hints_ok crc me w"
  from point_access.write1_law [OF x conjunct1 [OF w], of me] obtain r w' L' where
    r: "write_one_replica N me schema p x w = Some (r, w')" "world_ok N D G M b L' w' \<and> op_ok D G schema schema' p" "grow L L'"
      "r = Inr True \<longrightarrow> holds_op p L' (fst x)" by auto
  with write_one_hints [OF r(1) conjunct2 [OF w]]
  show "\<exists>r w' L'. write_one_replica N me schema p x w = Some (r, w') \<and>
      ((world_ok N D G M b L' w' \<and> op_ok D G schema schema' p) \<and> hints_ok crc me w') \<and> grow L L' \<and>
      (r = Inr True \<longrightarrow> holds_op p L' (fst x))" by blast
qed (use grow_trans in \<open>auto simp: grow_def logs_grow_def holds_op_def\<close>)

lemma buffer_hints_file:
  assumes "hint_file crc hs f" "list_all hint_fits gs" "buffer_hints crc gs f = (Inr u, f')"
  shows "hint_file crc (hs @ gs) f'"
  using assms
proof (induction gs arbitrary: hs f)
  case (Cons g gs)
  then obtain f1 where "buffer_hint crc g f = (Inr (), f1)" "buffer_hints crc gs f1 = (Inr u, f')" by (auto elim: on_ok_InrE)
  with Cons.IH [OF buffer_hint_file] Cons.prems show ?case by simp
qed simp

text \<open>C6. No replica misses a write silently: once the write has been replicated, with or without a
  quorum, every replica of the shard either stores the write or a newer version, or has a hint for
  it in the coordinator's hint log, on stable storage: after any crash the log reads back as other
  hints followed by these, in replica order.  An acknowledgement means that enough replicas are not among them.\<close>

theorem missed_replica_has_durable_hint:
  assumes w: "world_ok N D G M (length rs) L w" and rs: "rs = replicas_with_addrs (nt_hash N) meta (po_collection p) (po_shard_idx p)"
    and dir: "list_all (reachable_at N) rs" and op: "op_ok D G schema schema p"
    and hints: "hints_ok (e_crc (nt_env N)) me w" and fits: "\<forall>n. hint_fits (hint_for p n)"
    and res: "replicate_write N me meta schema p cons w = Some (r, w')" "\<forall>e. r \<noteq> Inl (RHint e)" "rs \<noteq> []"
  shows "\<exists>L' hs missed. world_ok N D G M 0 L' w' \<and> (\<forall>n \<in> fst ` set rs. n \<in> set missed \<or> holds_op p L' n) \<and>
    (r = Inr () \<longrightarrow> count cons (length rs) \<le> length rs - length missed) \<and>
    (\<forall>k. fst (read_all_hints (e_crc (nt_env N)) (crash k (nd_hint_log (w_nodes w' me)))) = Inr (hs @ map (hint_for p) missed))"
proof -
  let ?crc = "e_crc (nt_env N)"
  have w0: "world_ok N D G M (0 + length rs) L w" using w by simp
  from hinted_access.write_all_law [OF dir conjI [OF conjI [OF w0 op] hints], of 0 "[]"] obtain k un w1 L1 where
    a: "write_all (write_one_replica N me schema p) rs 0 [] w = Some ((k, un), w1)" "world_ok N D G M 0 L1 w1" "hints_ok ?crc me w1"
      "k + length un = length rs" "\<forall>n \<in> fst ` set rs. n \<notin> set un \<longrightarrow> holds_op p L1 n" by auto
  obtain q f where q: "buffer_hints ?crc (map (hint_for p) un) (nd_hint_log (w_nodes w1 me)) = (q, f)" by fastforce
  let ?w = "w1\<lparr>w_nodes := (w_nodes w1)(me := (w_nodes w1 me)\<lparr>nd_hint_log := f\<rparr>)\<rparr>"
  have h: "on_node me (on_hints (buffer_hints ?crc (map (hint_for p) un))) w1 = Some (map_sum RHint id q, ?w)"
    using q by (simp add: on_node_def on_hints_def)
  have r: "r = (case q of Inl e \<Rightarrow> Inl (RHint e) | Inr _ \<Rightarrow>
      if count cons (length rs) \<le> k then Inr () else Inl (RWriteQuorum (po_collection p) (po_shard_idx p) (count cons (length rs)) k))"
    and w': "w' = ?w"
    using res(1,3) a(1) h unfolding rs by (cases q; simp add: replicate_write_def Let_def and_then_def)+
  obtain u where u: "q = Inr u" using r res(2) by (cases q) auto
  obtain hs where hs: "hint_file ?crc hs (nd_hint_log (w_nodes w1 me))" using a(3) by (auto simp: hints_ok_def)
  have "hint_file ?crc (hs @ map (hint_for p) un) f"
    using buffer_hints_file [OF hs _ q [unfolded u]] fits by (simp add: list_all_iff)
  then have "\<forall>k. fst (read_all_hints ?crc (crash k (nd_hint_log (w_nodes w' me)))) = Inr (hs @ map (hint_for p) un)"
    using hint_read_crash by (simp add: w' read_all_hints_def)
  moreover have "world_ok N D G M 0 L1 w'" unfolding w' using a(2) on_hints_ok [OF h] by simp
  moreover have "r = Inr () \<longrightarrow> count cons (length rs) \<le> length rs - length un" using r u a(4) by (auto split: if_splits)
  ultimately show ?thesis using a(5) by blast
qed

theorem missed_replica_has_durable_hint_witness:
  "\<exists>w' L' hs missed. replicate_write demo_net 1 demo_meta demo_coll demo_op Quorum (demo_world (map demo_event [Answered, Unreachable])) = Some (Inr (), w') \<and>
     (\<forall>n \<in> {1, 2, 3}. n \<in> set missed \<or> holds_op demo_op L' n) \<and>
     fst (read_all_hints (e_crc demo_env) (crash 0 (nd_hint_log (w_nodes w' 1)))) = Inr (hs @ map (hint_for demo_op) missed)"
proof -
  let ?w = "demo_world (map demo_event [Answered, Unreachable])" and ?rs = "[(1 :: node_id, [1 :: byte]), (2, [2]), (3, [3])]"
  have ok: "world_ok demo_net (\<lambda>_. 1) demo_issued (\<lambda>_. demo_meta) (length ?rs) (\<lambda>_ _. []) ?w" by (rule demo_world_ok) simp
  have rs: "?rs = replicas_with_addrs (nt_hash demo_net) demo_meta (po_collection demo_op) (po_shard_idx demo_op)"
    using demo_replicas by (simp add: demo_net_def demo_op_def)
  have "hint_file (e_crc (nt_env demo_net)) [] (nd_hint_log (w_nodes ?w 1))"
    by (simp add: demo_world_def demo_node_def node_new_def empty_file_def hint_file_def)
  then have hints: "hints_ok (e_crc (nt_env demo_net)) 1 ?w" by (auto simp: hints_ok_def demo_world_def demo_event_def)
  obtain w' where w': "replicate_write demo_net 1 demo_meta demo_coll demo_op Quorum ?w = Some (Inr (), w')"
    using demo_replicate [of ?w] by (auto simp: demo_stores_def demo_world_def demo_node_def node_new_def empty_file_def)
  have fits: "\<forall>n. hint_fits (hint_for demo_op n)" by (simp add: demo_op_hint_fits)
  from missed_replica_has_durable_hint [OF ok rs demo_reachable demo_op_ok hints fits w'] obtain L' hs missed where
    "\<forall>n \<in> fst ` set ?rs. n \<in> set missed \<or> holds_op demo_op L' n"
    "\<forall>k. fst (read_all_hints (e_crc (nt_env demo_net)) (crash k (nd_hint_log (w_nodes w' 1)))) = Inr (hs @ map (hint_for demo_op) missed)" by auto
  with w' show ?thesis
    by (intro exI [of _ w'] exI [of _ L'] exI [of _ hs] exI [of _ missed]) (auto simp: demo_net_def)
qed

section \<open>Replay\<close>

definition hint_key :: "hint \<Rightarrow> shard_key" where
  "hint_key h = \<lparr>sk_collection = hint_collection h, sk_shard_idx = hint_shard_idx h\<rparr>"

definition hint_issued :: "issued \<Rightarrow> hint \<Rightarrow> bool" where
  "hint_issued G h \<longleftrightarrow> (hint_hlc h, case hint_op h of Delete \<Rightarrow> None | Upsert \<Rightarrow> Some (hint_vector h)) \<in> G (hint_key h) (hint_id h)"

definition hint_delivered :: "(node_id \<Rightarrow> logs) \<Rightarrow> hint \<Rightarrow> bool" where
  "hint_delivered L h \<longleftrightarrow> at_least (hint_hlc h) (lww_log (L (target_node h) (hint_key h))) (hint_id h)"

lemma hint_delivered_grow: "grow L L' \<Longrightarrow> hint_delivered L h \<Longrightarrow> hint_delivered L' h"
  by (auto simp: hint_delivered_def grow_def logs_grow_def)

lemma push_hint_ok:
  assumes "hint_issued G h" "issued_ok G" "world_ok N D G M (b + 1) L w" "nt_at N addr = Some (target_node h)"
  shows "\<exists>r w' L'. rpc N addr (replica_write (nt_env N) (request_of_hint h)) w = Some (r, w') \<and> world_ok N D G M b L' w' \<and> grow L L' \<and>
    (\<forall>a. r = Inr a \<longrightarrow> hint_delivered L' h)"
proof -
  let ?q = "request_of_hint h"
  have "hlc_ok (hint_hlc h)" using assms(1,2) unfolding hint_issued_def issued_ok_def by blast
  then have u: "hlc_unpack (wq_hlc ?q) = hint_hlc h" by (simp add: request_of_hint_def codec)
  have "(hlc_unpack (wq_hlc ?q), if wq_op ?q = OP_DELETE then None else Some (wq_vector ?q)) \<in>
      G \<lparr>sk_collection = wq_collection ?q, sk_shard_idx = wq_shard_idx ?q\<rparr> (wq_id ?q)"
    using assms(1) unfolding u
    by (auto simp: request_of_hint_def hint_issued_def hint_key_def OP_DELETE_def OP_UPSERT_def split: wal_op.splits)
  from rpc_ok [where handler = "replica_write (nt_env N) ?q", OF replica_write_law [where D = D and G = G and req = ?q, OF this] _ assms(3), of addr]
  obtain r w' L' where "rpc N addr (replica_write (nt_env N) ?q) w = Some (r, w')" "world_ok N D G M b L' w'" "grow L L'"
      "\<forall>a. r = Inr a \<longrightarrow> (\<exists>n. nt_at N addr = Some n \<and>
        at_least (hlc_unpack (wq_hlc ?q)) (lww_log (L' n \<lparr>sk_collection = wq_collection ?q, sk_shard_idx = wq_shard_idx ?q\<rparr>)) (wq_id ?q))"
    by blast
  then show ?thesis using assms(4) unfolding u by (auto simp: request_of_hint_def hint_delivered_def hint_key_def)
qed

lemma push_hints_ok:
  assumes "list_all (hint_issued G) hs" "issued_ok G" "world_ok N D G M (b + length hs) L w"
    and dir: "\<And>n a. map_of (ms_nodes meta) n = Some a \<Longrightarrow> nt_at N a = Some n"
  shows "\<exists>kp k w' L'. push_hints N meta hs keep m w = Some ((keep @ kp, m + k), w') \<and> world_ok N D G M b L' w' \<and> grow L L' \<and>
    subseq kp hs \<and> k + length kp = length hs \<and> (\<forall>h \<in> set hs. h \<in> set kp \<or> hint_delivered L' h)"
  using assms(1,3)
proof (induction hs arbitrary: keep m w L)
  case Nil
  then show ?case by auto
next
  case (Cons h hs)
  have iss: "list_all (hint_issued G) hs" "hint_issued G h" using Cons.prems(1) by simp_all
  have w: "world_ok N D G M (b + length hs + 1) L w" using Cons.prems(2) by (simp add: ac_simps)
  have skip: ?case if "push_hints N meta (h # hs) keep m w = push_hints N meta hs (keep @ [h]) m w1" "world_ok N D G M (b + length hs) L1 w1"
      "grow L L1" for w1 L1
  proof -
    from Cons.IH [OF iss(1) that(2), of "keep @ [h]" m] obtain kp k w' L' where
      i: "push_hints N meta hs (keep @ [h]) m w1 = Some (((keep @ [h]) @ kp, m + k), w')" "world_ok N D G M b L' w'" "grow L1 L'"
        "subseq kp hs" "k + length kp = length hs" "\<forall>h \<in> set hs. h \<in> set kp \<or> hint_delivered L' h" by blast
    then show ?thesis using that(1) grow_trans [OF that(3) i(3)]
      by (intro exI [of _ "h # kp"] exI [of _ k] exI [of _ w'] exI [of _ L']) auto
  qed
  show ?case
  proof (cases "map_of (ms_nodes meta) (target_node h)")
    case None
    then show ?thesis using skip [of w L] world_ok_mono [OF w, of "b + length hs"] by simp
  next
    case (Some addr)
    from push_hint_ok [OF iss(2) assms(2) w dir [OF Some]] obtain r w1 L1 where
      r: "rpc N addr (replica_write (nt_env N) (request_of_hint h)) w = Some (r, w1)" "world_ok N D G M (b + length hs) L1 w1" "grow L L1"
        "\<forall>a. r = Inr a \<longrightarrow> hint_delivered L1 h" by blast
    show ?thesis
    proof (cases r)
      case (Inl e)
      then show ?thesis using skip [of w1 L1] Some r by simp
    next
      case (Inr a)
      from Cons.IH [OF iss(1) r(2), of keep "m + 1"] obtain kp k w' L' where
        i: "push_hints N meta hs keep (m + 1) w1 = Some ((keep @ kp, m + 1 + k), w')" "world_ok N D G M b L' w'" "grow L1 L'"
          "subseq kp hs" "k + length kp = length hs" "\<forall>h \<in> set hs. h \<in> set kp \<or> hint_delivered L' h" by blast
      have "push_hints N meta (h # hs) keep m w = Some ((keep @ kp, m + Suc k), w')" using Some r(1) Inr i(1) by simp
      then show ?thesis using i r(4) Inr grow_trans [OF r(3) i(3)] hint_delivered_grow [OF i(3)]
        by (intro exI [of _ kp] exI [of _ "Suc k"] exI [of _ w'] exI [of _ L']) auto
    qed
  qed
qed

lemma push_hints_hints:
  assumes "push_hints N meta hs keep m w = Some (x, w')" "hints_ok crc me w"
  shows "hints_ok crc me w'"
  using assms
proof (induction N meta hs keep m w rule: push_hints.induct)
  case (2 N meta h hs keep m w)
  show ?case
  proof (cases "map_of (ms_nodes meta) (target_node h)")
    case None
    then show ?thesis using 2 by simp
  next
    case (Some addr)
    then obtain r w1 where r: "rpc N addr (replica_write (nt_env N) (request_of_hint h)) w = Some (r, w1)"
      using "2.prems"(1) by (auto split: option.splits)
    have "hints_ok crc me w1"
      by (rule rpc_hints [where handler = "replica_write (nt_env N) (request_of_hint h)", OF replica_write_keeps_hints r "2.prems"(2)])
    then show ?thesis using 2 Some r by (cases r) auto
  qed
qed simp

lemma read_all_Inr:
  assumes "hint_file crc hs f" "read_all_hints crc f = (Inr xs, f')"
  shows "xs = hs \<and> hint_file crc hs f'"
proof (cases "present f")
  case False
  then have "hs = []" using assms(1) hint_log_Nil [of crc hs] by (auto simp: hint_file_def)
  then show ?thesis using assms False by (simp add: read_all_hints_def hint_read_all_def)
next
  case True
  obtain q1 f1 where q1: "sys_call f = (q1, f1)" by fastforce
  obtain q2 f2 where q2: "sys_call f1 = (q2, f2)" by fastforce
  note k = sys_call_keeps [OF q1] sys_call_keeps [OF q2]
  have scan: "scan_frames crc decode_hint (hint_log crc hs) 0 [] 0 = (hs, length (hint_log crc hs))"
    using hint_codec.scan_log [of hs crc "[]"] assms(1) by (simp add: hint_file_def)
  show ?thesis using assms True q1 q2 k scan
    by (cases q1; cases q2) (auto simp: read_all_hints_def hint_read_all_def hint_file_def)
qed



end
