(* ===== verification/Shard_Transfer.thy ===== *)
theory Shard_Transfer
  imports Handoff
begin

text \<open>
  Shard transfer and scattered search: a pull from a node that has the shard open brings every
  point up to date and lowers none, a pull from one that has not opened it transfers nothing; a
  search merges one answer per shard into the global top \<open>k\<close>.
\<close>

section \<open>Transfer\<close>

lemma observe_ok: "world_ok N D G M b L (observe me h w) = world_ok N D G M b L w"
proof -
  obtain t w1 where t: "next_time w = (t, w1)" by fastforce
  have "w_nodes w1 = w_nodes w" "w_events w1 = w_events w" using t by (auto simp: next_time_def split: list.splits)
  with t show ?thesis by (intro world_ok_fields) (simp_all add: observe_def)
qed

lemma apply_pulled_ok:
  assumes "D \<lparr>sk_collection = c, sk_shard_idx = i\<rparr> = unat (cs_dim schema)" "issued_ok G"
    and "\<forall>rec \<in> set recs. \<exists>j x. rec = record_of j x \<and> x \<in> G \<lparr>sk_collection = c, sk_shard_idx = i\<rparr> j"
    and "world_ok N D G M (b + length recs) L w"
  shows "\<exists>r w' L'. apply_pulled N me (sref_of c schema i) a recs w = Some (r, w') \<and> world_ok N D G M b L' w' \<and> grow L L' \<and>
    (\<forall>n. r = Inr n \<longrightarrow> (\<forall>j x. record_of j x \<in> set recs \<longrightarrow> x \<in> G \<lparr>sk_collection = c, sk_shard_idx = i\<rparr> j \<longrightarrow>
       at_least (fst x) (lww_log (L' me \<lparr>sk_collection = c, sk_shard_idx = i\<rparr>)) j))"
  using assms(3,4)
proof (induction recs arbitrary: a w L)
  case Nil
  then show ?case by auto
next
  case (Cons rec recs)
  let ?k = "\<lparr>sk_collection = c, sk_shard_idx = i\<rparr>"
  obtain j x where x: "rec = record_of j x" "x \<in> G ?k j" using Cons.prems(1) by auto
  have hok: "hlc_ok h" if "(h, u) \<in> G ?k j'" for h u j' using assms(2) that by (auto simp: issued_ok_def)
  have h: "hlc_unpack (rr_hlc rec) = fst x" using x hok [of "fst x" "snd x" j] by (simp add: record_of_def codec)
  have v: "(fst x, if rr_tombstone rec then None else Some (rr_vector rec)) \<in> G ?k (rr_id rec)"
    using x by (cases x) (auto simp: record_of_def split: option.splits)
  let ?w = "observe me (fst x) w"
  have "world_ok N D G M (b + length recs + 1) L ?w" using Cons.prems(2) by (simp add: observe_ok ac_simps)
  from on_node_ok [OF write_law [where D = D and G = G and c = c and i = i and j = "rr_id rec" and del = "rr_tombstone rec", OF assms(1) v] _ this, of me "rr_payload rec"]
  obtain r w1 L1 where r: "on_node me (on_shards (store_write (nt_env N) (sref_of c schema i) (rr_tombstone rec) (fst x) (rr_id rec)
        (rr_vector rec) (rr_payload rec))) ?w = Some (r, w1)" "world_ok N D G M (b + length recs) L1 w1" "grow L L1"
      "\<forall>a. ok_of r = Some a \<longrightarrow> at_least (fst x) (lww_log (L1 me ?k)) (rr_id rec)" by blast
  show ?case
  proof (cases r)
    case (Inl e)
    then show ?thesis using r h world_ok_mono [OF r(2), of b] by (auto simp: and_then_def Let_def)
  next
    case (Inr oc)
    from Cons.IH [OF _ r(2), of "if oc = Applied then a + 1 else a"] Cons.prems(1) obtain r' w' L' where
      i: "apply_pulled N me (sref_of c schema i) (if oc = Applied then a + 1 else a) recs w1 = Some (r', w')" "world_ok N D G M b L' w'" "grow L1 L'"
        "\<forall>n. r' = Inr n \<longrightarrow> (\<forall>j x. record_of j x \<in> set recs \<longrightarrow> x \<in> G ?k j \<longrightarrow> at_least (fst x) (lww_log (L' me ?k)) j)" by auto
    have e: "apply_pulled N me (sref_of c schema i) a (rec # recs) w = Some (r', w')" using r(1) h Inr i(1) by (simp add: and_then_def Let_def)
    have "at_least (fst y) (lww_log (L' me ?k)) j'" if "r' = Inr n" "record_of j' y \<in> set (rec # recs)" "y \<in> G ?k j'" for n j' y
    proof (cases "record_of j' y = rec")
      case True
      then have "hlc_unpack (rr_hlc rec) = fst y" "rr_id rec = j'"
        using hok [of "fst y" "snd y" j'] that(3) by (auto simp: record_of_def codec)
      then have "at_least (fst y) (lww_log (L1 me ?k)) j'" using r(4) Inr h by simp
      then show ?thesis using i(3) by (auto simp: grow_def logs_grow_def)
    next
      case False
      then have "record_of j' y \<in> set recs" using that(2) by simp
      then show ?thesis using that(1,3) i(4) by blast
    qed
    then show ?thesis using e i(2) grow_trans [OF r(3) i(3)] by blast
  qed
qed

text \<open>The events of a world only go by.\<close>

definition shrinks :: "world \<Rightarrow> world \<Rightarrow> bool" where
  "shrinks w w' \<longleftrightarrow> set (w_events w') \<subseteq> set (w_events w)"

lemma shrinks_refl [simp]: "shrinks w w"
  by (simp add: shrinks_def)

lemma shrinks_trans: "shrinks w w' \<Longrightarrow> shrinks w' w'' \<Longrightarrow> shrinks w w''"
  by (auto simp: shrinks_def)

lemma shrinks_next_event: "next_event w = (ev, w') \<Longrightarrow> shrinks w w'"
  by (auto simp: next_event_def shrinks_def split: list.splits)

lemma shrinks_on_node: "on_node n act w = Some (r, w') \<Longrightarrow> shrinks w w'"
  by (auto simp: on_node_def shrinks_def)

lemma shrinks_rpc: "rpc N addr handler w = Some (r, w') \<Longrightarrow> shrinks w w'"
  using shrinks_next_event [of w] shrinks_on_node
  by (auto simp: rpc_def split: prod.splits option.splits if_splits dest!: shrinks_on_node intro: shrinks_trans)

lemma shrinks_observe: "shrinks w (observe me h w)"
  by (auto simp: shrinks_def observe_def next_time_def split: list.splits)

lemma shrinks_apply_pulled: "apply_pulled N me sref a recs w = Some (r, w') \<Longrightarrow> shrinks w w'"
proof (induction recs arbitrary: a w)
  case (Cons rec recs)
  let ?h = "hlc_unpack (rr_hlc rec)"
  obtain q w1 where q: "on_node me (on_shards (store_write (nt_env N) sref (rr_tombstone rec) ?h (rr_id rec) (rr_vector rec) (rr_payload rec)))
      (observe me ?h w) = Some (q, w1)" using Cons.prems by (auto simp: and_then_def Let_def split: option.splits)
  have "shrinks w1 w'" using Cons q by (cases q) (auto simp: and_then_def Let_def)
  then show ?case using shrinks_observe [of w me ?h] shrinks_on_node [OF q] by (blast intro: shrinks_trans)
qed simp

text \<open>The records of a stream have distinct ids, so a bound on the issued ids of a shard bounds them.\<close>

lemma stream_shard_distinct:
  assumes "node_ok E D G b L nd" "stream_shard E \<lparr>tq_collection = c, tq_shard_idx = i\<rparr> t nd = Some (Inr recs, nd')"
  shows "distinct (map rr_id recs)"
proof (cases "has_shard c i (nd_shards nd)")
  case True
  obtain schema where schema: "map_of (ms_collections (nd_cluster nd)) c = Some schema"
    using assms(2) by (auto simp: stream_shard_def with_schema_def split: option.splits)
  then have "D \<lparr>sk_collection = c, sk_shard_idx = i\<rparr> = unat (cs_dim schema)" "store_mem E D L (nd_shards nd)"
    using assms(1) by (simp_all add: node_ok_def)
  with store_records_mem [of E D L "nd_shards nd" "sref_of c schema i"] obtain res st' where
    r: "store_records E (sref_of c schema i) (nd_shards nd) = Some (res, st')" "\<forall>rows. ok_of res = Some rows \<longrightarrow> distinct (map fst rows)" by auto
  then show ?thesis using assms(2) True schema
    by (cases res) (auto simp: stream_shard_def with_schema_def apply_stream_shard_def on_shards_def and_then_def split_def comp_def)
next
  case False
  then show ?thesis using assms(2) by (auto simp: stream_shard_def with_schema_def apply_stream_shard_def split: option.splits)
qed

definition ids_bound :: "issued \<Rightarrow> nat \<Rightarrow> bool" where
  "ids_bound G B \<longleftrightarrow> (\<forall>k. finite {j. G k j \<noteq> {}} \<and> card {j. G k j \<noteq> {}} \<le> B)"

lemma ids_boundD:
  assumes "ids_bound G B" "distinct (map rr_id recs)" "\<forall>rec \<in> set recs. \<exists>j x. rec = record_of j x \<and> x \<in> G k j"
  shows "length recs \<le> B"
proof -
  have "set (map rr_id recs) \<subseteq> {j. G k j \<noteq> {}}" using assms(3) by (force simp: record_of_def)
  then have "card (set (map rr_id recs)) \<le> card {j. G k j \<noteq> {}}" using assms(1) by (intro card_mono) (auto simp: ids_bound_def)
  then show ?thesis using assms(1) distinct_card [OF assms(2)] by (auto simp: ids_bound_def intro: le_trans)
qed

text \<open>Room for as many records as the stream brought.\<close>

lemma pull_streamed:
  assumes w: "world_ok N D G M b L w" and iss: "issued_ok G" and dim: "D \<lparr>sk_collection = c, sk_shard_idx = i\<rparr> = unat (cs_dim schema)"
    and stream: "rpc N addr (stream_shard (nt_env N) \<lparr>tq_collection = c, tq_shard_idx = i\<rparr>) w = Some (Inr recs, w1)"
    and len: "length recs \<le> b \<or> ids_bound G b"
  shows "\<exists>r w' L'. pull_shard N me addr c i schema w = Some (r, w') \<and> world_ok N D G M (b - length recs) L' w' \<and> grow L L' \<and> length recs \<le> b \<and>
    (\<forall>s n. nt_at N addr = Some s \<longrightarrow> has_shard c i (nd_shards (w_nodes (snd (next_event w)) s)) \<longrightarrow> r = Inr n \<longrightarrow>
      (\<forall>j h. at_least h (lww_log (L s \<lparr>sk_collection = c, sk_shard_idx = i\<rparr>)) j \<longrightarrow>
         at_least h (lww_log (L' me \<lparr>sk_collection = c, sk_shard_idx = i\<rparr>)) j))"
proof -
  let ?k = "\<lparr>sk_collection = c, sk_shard_idx = i\<rparr>" and ?h = "stream_shard (nt_env N) \<lparr>tq_collection = c, tq_shard_idx = i\<rparr>"
  obtain ev w0 where ev: "next_event w = (ev, w0)" by fastforce
  obtain s where s: "nt_at N addr = Some s" using stream ev by (auto simp: rpc_def split: option.splits if_splits)
  obtain L0 where L0: "world_ok N D G M b L0 w0" "grow L L0" using next_event_ok [OF w] ev by auto
  have R: "\<And>l l' :: logs. l = l' \<Longrightarrow> logs_grow l l'" by simp
  have b0: "world_ok N D G M (b + 0) L0 w0" using L0(1) by simp
  from on_node_ok [OF stream_shard_law [where t = "ev_time ev" and c = c and i = i] R b0, of s] obtain r w2 L1 where
    r: "on_node s (?h (ev_time ev)) w0 = Some (r, w2)" "world_ok N D G M b L1 w2" "grow L0 L1" "L0 s = L1 s"
      "\<forall>a. ok_of r = Some a \<longrightarrow> (\<forall>rec \<in> set a. \<exists>j x. rec = record_of j x \<and> lww_log (L1 s ?k) j = Some x)" by blast
  have ok: "r = Inr recs" "w2 = w1" using stream ev s r(1) by (auto simp: rpc_def split: if_splits sum.splits)
  have recs: "\<forall>rec \<in> set recs. \<exists>j x. rec = record_of j x \<and> x \<in> G ?k j" using r(5) ok issued_contents [OF r(2)] by fastforce
  obtain cs where "nodes_ok N D G M (b + sum_list cs) L0 (w_nodes w0)" using L0(1) by (auto simp: world_ok_def)
  then have nd: "node_ok (nt_env N) D G b (L0 s) (w_nodes w0 s)"
    using nodes_ok_mono [of N D G M "b + sum_list cs" L0 "w_nodes w0" b] by (simp add: nodes_ok_def)
  obtain nd' where nd': "?h (ev_time ev) (w_nodes w0 s) = Some (Inr recs, nd')" using r(1) ok(1) by (auto simp: on_node_def)
  have fits: "length recs \<le> b" using len ids_boundD [where G = G and k = ?k, OF _ stream_shard_distinct [OF nd nd'] recs] by blast
  then have "world_ok N D G M (b - length recs + length recs) L1 w1" using r(2) ok(2) by simp
  from apply_pulled_ok [where D = D and G = G and c = c and i = i, OF dim iss recs this, of me 0] obtain r' w3 L2 where
    p: "apply_pulled N me (sref_of c schema i) 0 recs w1 = Some (r', w3)" "world_ok N D G M (b - length recs) L2 w3" "grow L1 L2"
      "\<forall>n. r' = Inr n \<longrightarrow> (\<forall>j x. record_of j x \<in> set recs \<longrightarrow> x \<in> G ?k j \<longrightarrow> at_least (fst x) (lww_log (L2 me ?k)) j)" by blast
  have "at_least h (lww_log (L2 me ?k)) j"
    if opn: "has_shard c i (nd_shards (w_nodes w0 s))" and n: "r' = Inr n" and h: "at_least h (lww_log (L s ?k)) j" for j h n
  proof -
    have "at_least h (lww_log (L0 s ?k)) j" using h L0(2) by (auto simp: grow_def logs_grow_def)
    then obtain g u where g: "lww_log (L0 s ?k) j = Some (g, u)" "h \<le> g" by (auto simp: at_least_def)
    have "record_of j (g, u) \<in> set recs" using stream_shard_complete [OF nd opn nd' g(1)] .
    moreover have "(g, u) \<in> G ?k j" by (rule issued_contents [OF L0(1) g(1)])
    ultimately have "at_least g (lww_log (L2 me ?k)) j" using p(4) n by fastforce
    then show ?thesis using g(2) by (auto simp: at_least_def)
  qed
  moreover have "grow L L2" by (rule grow_trans [OF L0(2) grow_trans [OF r(3) p(3)]])
  moreover have "pull_shard N me addr c i schema w = Some (r', w3)" using stream p(1) by (simp add: pull_shard_def)
  ultimately show ?thesis using p(2) fits s ev
    by (intro exI [of _ r'] exI [of _ w3] exI [of _ L2]) simp
qed

lemma shrinks_pull_shard: "pull_shard N me addr c i schema w = Some (r, w') \<Longrightarrow> shrinks w w'"
  by (auto simp: pull_shard_def split: option.splits sum.splits dest!: shrinks_rpc shrinks_apply_pulled intro: shrinks_trans)

text \<open>A pull with any outcome, with room for all issued ids.\<close>

lemma pull_shard_ok:
  assumes w: "world_ok N D G M (b + B) L w" and iss: "issued_ok G" "ids_bound G B"
    and dim: "D \<lparr>sk_collection = c, sk_shard_idx = i\<rparr> = unat (cs_dim schema)"
  shows "\<exists>r w' L'. pull_shard N me addr c i schema w = Some (r, w') \<and> world_ok N D G M b L' w' \<and> grow L L' \<and>
    (\<forall>s n. nt_at N addr = Some s \<longrightarrow> has_shard c i (nd_shards (w_nodes (snd (next_event w)) s)) \<longrightarrow> r = Inr n \<longrightarrow>
      (\<forall>j h. at_least h (lww_log (L s \<lparr>sk_collection = c, sk_shard_idx = i\<rparr>)) j \<longrightarrow>
         at_least h (lww_log (L' me \<lparr>sk_collection = c, sk_shard_idx = i\<rparr>)) j))"
proof -
  let ?h = "stream_shard (nt_env N) \<lparr>tq_collection = c, tq_shard_idx = i\<rparr>"
  have R: "\<And>l l' :: logs. l = l' \<Longrightarrow> logs_grow l l'" by simp
  have b0: "world_ok N D G M (b + B + 0) L w" using w by simp
  from rpc_ok [where handler = ?h, OF stream_shard_law [where c = c and i = i and D = D and G = G] R b0, of addr] obtain r w1 L1 where
    r: "rpc N addr ?h w = Some (r, w1)" "world_ok N D G M (b + B) L1 w1" "grow L L1" by blast
  show ?thesis
  proof (cases r)
    case (Inl e)
    then show ?thesis using r world_ok_mono [OF r(2), of b] by (auto simp: pull_shard_def)
  next
    case (Inr recs)
    have "world_ok N D G M B L w" by (rule world_ok_mono [OF w]) simp
    have bound: "ids_bound G (b + B)" using iss(2) by (auto simp: ids_bound_def intro: trans_le_add2)
    from pull_streamed [where D = D and c = c and i = i, OF w iss(1) dim r(1) [unfolded Inr], of me] bound obtain r' w' L' where
      p: "pull_shard N me addr c i schema w = Some (r', w')" "world_ok N D G M (b + B - length recs) L' w'" "grow L L'"
        "\<forall>s n. nt_at N addr = Some s \<longrightarrow> has_shard c i (nd_shards (w_nodes (snd (next_event w)) s)) \<longrightarrow> r' = Inr n \<longrightarrow>
          (\<forall>j h. at_least h (lww_log (L s \<lparr>sk_collection = c, sk_shard_idx = i\<rparr>)) j \<longrightarrow>
             at_least h (lww_log (L' me \<lparr>sk_collection = c, sk_shard_idx = i\<rparr>)) j)" by blast
    from pull_streamed [where D = D and c = c and i = i, OF \<open>world_ok N D G M B L w\<close> iss(1) dim r(1) [unfolded Inr], of me] iss(2)
    have "length recs \<le> B" by blast
    then have "world_ok N D G M b L' w'" by (intro world_ok_mono [OF p(2)]) simp
    with p show ?thesis by blast
  qed
qed

text \<open>C9. A transfer is complete and safe under concurrent writes: if the source has the shard open,
  a pull that returns Ok leaves the target, for every point the source stored when the pull
  started, with that version or a newer one (deletes included), and no node stores an older
  version of any point than before.\<close>

theorem pull_shard_complete:
  assumes w: "world_ok N D G M b L w" and iss: "issued_ok G" and schema: "map_of (ms_collections (M me)) c = Some schema"
    and src: "nt_at N addr = Some s" "has_shard c i (nd_shards (w_nodes (snd (next_event w)) s))"
    and stream: "rpc N addr (stream_shard (nt_env N) \<lparr>tq_collection = c, tq_shard_idx = i\<rparr>) w = Some (Inr recs, w1)" "length recs \<le> b"
    and pull: "pull_shard N me addr c i schema w = Some (Inr n, w')"
  shows "\<exists>L'. world_ok N D G M 0 L' w' \<and> grow L L' \<and>
    (\<forall>j h. at_least h (lww_log (L s \<lparr>sk_collection = c, sk_shard_idx = i\<rparr>)) j \<longrightarrow>
       at_least h (lww_log (L' me \<lparr>sk_collection = c, sk_shard_idx = i\<rparr>)) j)"
proof -
  have dim: "D \<lparr>sk_collection = c, sk_shard_idx = i\<rparr> = unat (cs_dim schema)" by (rule schema_dim [where i = i, OF w schema])
  from pull_streamed [where D = D and c = c and i = i, OF w iss dim stream(1) disjI1 [OF stream(2)], of me] pull src obtain L' where
    "world_ok N D G M (b - length recs) L' w'" "grow L L'"
    "\<forall>j h. at_least h (lww_log (L s \<lparr>sk_collection = c, sk_shard_idx = i\<rparr>)) j \<longrightarrow>
       at_least h (lww_log (L' me \<lparr>sk_collection = c, sk_shard_idx = i\<rparr>)) j" by auto
  then show ?thesis using world_ok_mono [of N D G M "b - length recs" L' w' 0] by blast
qed

text \<open>Node 2 has written the point; node 1 pulls the shard from it.\<close>

lemma demo_stream:
  "rpc demo_net [2] (stream_shard (nt_env demo_net) \<lparr>tq_collection = [99], tq_shard_idx = 0\<rparr>) (demo_world_at 2 (demo_node demo_written)) =
     Some (Inr [record_of 7 (Hlc 5 0, Some [3])], demo_world_at 2 (demo_node demo_written))"
proof -
  have "stream_shard demo_env \<lparr>tq_collection = [99], tq_shard_idx = 0\<rparr> t (demo_node demo_written) =
      Some (Inr [record_of 7 (Hlc 5 0, Some [3])], demo_node demo_written)" for t
    using demo_records demo_written_open
    by (simp add: stream_shard_def with_schema_def demo_node_def node_new_def demo_meta_def apply_stream_shard_def has_shard_def demo_sref
        on_shards_def and_then_def record_of_def)
  then show ?thesis by (simp add: rpc_def demo_net_def next_event_def demo_world_at_def quiet_event_def on_node_def fun_upd_idem)
qed

theorem pull_shard_complete_witness:
  "\<exists>w' (L' :: node_id \<Rightarrow> logs). pull_shard demo_net 1 [2] [99] 0 demo_coll (demo_world_at 2 (demo_node demo_written)) = Some (Inr 1, w') \<and>
     at_least (Hlc 5 0) (lww_log (L' 1 \<lparr>sk_collection = [99], sk_shard_idx = 0\<rparr>)) 7"
proof -
  let ?w = "demo_world_at 2 (demo_node demo_written)" and ?L = "(\<lambda>_ _. [])(2 := demo_logs) :: node_id \<Rightarrow> logs" and ?rec = "record_of 7 (Hlc 5 0, Some [3])"
  let ?k = "\<lparr>sk_collection = [99], sk_shard_idx = 0\<rparr> :: shard_key"
  have ok: "world_ok demo_net (\<lambda>_. 1) demo_issued (\<lambda>_. demo_meta) 1 ?L ?w"
    using demo_world_at_ok [OF demo_node_ok [OF demo_written_logs]] by (simp add: demo_node_def node_new_def)
  have iss: "issued_ok demo_issued" by (simp add: issued_ok_def demo_issued_def hlc_ok_def)
  have sch: "map_of (ms_collections demo_meta) [99] = Some demo_coll" by (simp add: demo_meta_def)
  have src: "nt_at demo_net [2] = Some 2" "has_shard [99] 0 (nd_shards (w_nodes (snd (next_event ?w)) 2))"
    using demo_written_open by (simp_all add: demo_net_def next_event_def demo_world_at_def has_shard_def demo_node_def node_new_def)
  have u: "hlc_unpack (hlc_pack (Hlc 5 0)) = Hlc 5 0" by (rule hlc_unpack_pack) (simp add: hlc_ok_def)
  have "\<exists>w'. pull_shard demo_net 1 [2] [99] 0 demo_coll ?w = Some (Inr 1, w')"
    using demo_stream demo_local_write [of "(demo_node demo_store)\<lparr>nd_clock := snd (clock_update None (Hlc 5 0) (nd_clock (demo_node demo_store)))\<rparr>"] u
    by (simp add: pull_shard_def record_of_def observe_def next_time_def demo_world_at_def demo_net_def on_node_def and_then_def demo_sref Let_def
        demo_node_def node_new_def)
  then obtain w' where w': "pull_shard demo_net 1 [2] [99] 0 demo_coll ?w = Some (Inr 1, w')" by blast
  have "length [?rec] \<le> 1" by simp
  from pull_shard_complete [where i = 0, OF ok iss sch src demo_stream this w'] obtain L' :: "node_id \<Rightarrow> logs" where
    "\<forall>j h. at_least h (lww_log (?L 2 ?k)) j \<longrightarrow> at_least h (lww_log (L' 1 ?k)) j" by blast
  moreover have "at_least (Hlc 5 0) (lww_log (?L 2 ?k)) 7"
    using demo_logs_lww [of ?k 7] by (simp add: at_least_def key_of_def demo_ref_def)
  ultimately show ?thesis using w' by blast
qed

text \<open>A node serves a transfer only from a shard it has opened since it started: a pull from a
  source that has not returns Ok with nothing transferred, whatever the source's files hold.\<close>

theorem pull_from_unopened_shard_is_empty:
  assumes "next_event w = (ev, w0)" "ev_outcome ev = Answered" "nt_at N addr = Some s"
    and "map_of (ms_collections (nd_cluster (w_nodes w0 s))) c = Some sc" "st_shards (nd_shards (w_nodes w0 s)) \<lparr>sk_collection = c, sk_shard_idx = i\<rparr> = None"
  shows "pull_shard N me addr c i schema w = Some (Inr 0, w0)"
  using assms
  by (simp add: pull_shard_def rpc_def on_node_def stream_shard_def with_schema_def apply_stream_shard_def has_shard_def)

theorem pull_from_unopened_shard_is_empty_witness:
  "\<exists>st w p st'. pull_shard demo_net 1 [2] [99] 0 demo_coll w = Some (Inr 0, w) \<and> nd_shards (w_nodes w 2) = st \<and>
     get_versioned demo_env demo_ref 7 st = Some (Inr (Some p), st') \<and> sp_vector p = [3]"
proof -
  let ?st = "store_crash (\<lambda>_. 0) (\<lambda>_. False) demo_written"
  let ?w = "demo_world_at 2 (demo_node ?st)"
  have inv: "store_inv demo_env (\<lambda>_. 1) demo_logs demo_written" by (rule store_reach_inv [OF demo_written_logs bincode_demo])
  have d: "sr_dim demo_ref = 1" by (simp add: demo_ref_def)
  obtain p st' where p: "get_versioned demo_env demo_ref 7 ?st = Some (Inr p, st')" using restarted_get_ok [OF inv d] by blast
  have "p = Some (point_of 7 (Hlc 5 0, Some [3]))"
    using get_versioned_lww [OF store_crash_inv [OF inv] d p] demo_logs_lww [of "key_of demo_ref" 7] by simp
  moreover have "pull_shard demo_net 1 [2] [99] 0 demo_coll ?w = Some (Inr 0, ?w)"
    by (rule pull_from_unopened_shard_is_empty [where ev = quiet_event and s = 2 and sc = demo_coll])
      (simp_all add: next_event_def demo_world_at_def quiet_event_def demo_net_def demo_node_def node_new_def demo_meta_def store_crash_def)
  ultimately show ?thesis using p by (intro exI [of _ ?st] exI [of _ ?w]) (simp add: demo_world_at_def demo_node_def node_new_def point_of_def)
qed

section \<open>The rely condition is what the nodes guarantee\<close>

text \<open>A request handled by node \<open>n\<close>, as it appears to a coordinator waiting elsewhere.\<close>

definition run_at :: "node_id \<Rightarrow> (node \<Rightarrow> ('r \<times> node) option) \<Rightarrow> nodes \<Rightarrow> nodes" where
  "run_at n act ns = (case act (ns n) of Some (_, nd) \<Rightarrow> ns(n := nd) | None \<Rightarrow> ns)"

lemma law_rely:
  assumes "node_law (nt_env N) D G cost R Q act" "\<And>l l'. R l l' \<Longrightarrow> logs_grow l l'"
  shows "rely N D G M cost (run_at n act)"
  unfolding rely_def
proof (intro allI impI)
  fix b L ns
  assume ns: "nodes_ok N D G M (b + cost) L ns"
  then have "node_ok (nt_env N) D G (b + cost) (L n) (ns n)" by (simp add: nodes_ok_def)
  from node_lawD [OF assms(1) this] obtain r nd l where
    r: "act (ns n) = Some (r, nd)" "node_ok (nt_env N) D G b l nd" "nd_cluster nd = nd_cluster (ns n)" "R (L n) l" by blast
  have "nodes_ok N D G M b (L(n := l)) (ns(n := nd))" using nodes_ok_mono [OF ns, of b] r(2,3) by (simp add: nodes_ok_def)
  moreover have "grow L (L(n := l))" using assms(2) [OF r(4)] by (simp add: grow_def)
  ultimately show "\<exists>L'. nodes_ok N D G M b L' (run_at n act ns) \<and> grow L L'" using r(1) by (auto simp: run_at_def)
qed

lemma get_points_law:
  assumes "D \<lparr>sk_collection = c, sk_shard_idx = i\<rparr> = unat (cs_dim schema)"
  shows "node_law E D G 0 (=) (\<lambda>_ _. True) (get_points E (sref_of c schema i) ids out)"
proof (induction ids arbitrary: out)
  case Nil
  then show ?case by (simp add: node_law_def)
next
  case (Cons j ids)
  show ?case unfolding node_law_def
  proof (intro allI impI)
    fix b L nd
    assume ok: "node_ok E D G (b + 0) L nd"
    from node_lawD [OF get_law [where D = D and c = c and i = i and j = j, OF assms] ok] obtain r nd' where
      r: "on_shards (get_versioned E (sref_of c schema i) j) nd = Some (r, nd')" "node_ok E D G b L nd'" "nd_cluster nd' = nd_cluster nd" by blast
    show "\<exists>r nd' L'. get_points E (sref_of c schema i) (j # ids) out nd = Some (r, nd') \<and> node_ok E D G b L' nd' \<and>
        nd_cluster nd' = nd_cluster nd \<and> L = L' \<and> (\<forall>a. ok_of r = Some a \<longrightarrow> True)"
    proof (cases r)
      case (Inl e)
      then show ?thesis using r by (simp add: and_then_def)
    next
      case (Inr p)
      have "node_ok E D G (b + 0) L nd'" using r(2) by simp
      from node_lawD [OF Cons.IH this] r Inr show ?thesis by (auto simp: and_then_def)
    qed
  qed
qed

lemma replica_get_any_law: "node_law E D G 0 (=) (\<lambda>_ _. True) (replica_get E req t)"
  unfolding replica_get_def
  by (rule with_schema_read [where i = "gq_shard_idx req"])
    (use get_points_law [where c = "gq_collection req" and i = "gq_shard_idx req"] in \<open>auto simp: apply_replica_get_def [abs_def]\<close>)

text \<open>C18. Every data-plane request a node serves satisfies the rely condition under which the
  coordinator's properties hold: it does not panic on an intact node, keeps the node's invariant,
  lowers no stamp, writes at most one record (a replica write of an issued version) or none (get,
  search, stream), and so does any sequence of them.\<close>

theorem handlers_satisfy_rely:
  "((hlc_unpack (wq_hlc wr), if wq_op wr = OP_DELETE then None else Some (wq_vector wr)) \<in>
      G \<lparr>sk_collection = wq_collection wr, sk_shard_idx = wq_shard_idx wr\<rparr> (wq_id wr) \<longrightarrow>
      rely N D G M 1 (run_at n (replica_write (nt_env N) wr t))) \<and>
   rely N D G M 0 (run_at n (replica_get (nt_env N) gr t)) \<and>
   rely N D G M 0 (run_at n (replica_search (nt_env N) sr t)) \<and>
   rely N D G M 0 (run_at n (stream_shard (nt_env N) \<lparr>tq_collection = c, tq_shard_idx = i\<rparr> t)) \<and>
   (rely N D G M a f \<longrightarrow> rely N D G M b g \<longrightarrow> rely N D G M (a + b) (g \<circ> f))"
proof (intro conjI impI)
  show "rely N D G M 1 (run_at n (replica_write (nt_env N) wr t))"
    if "(hlc_unpack (wq_hlc wr), if wq_op wr = OP_DELETE then None else Some (wq_vector wr)) \<in>
      G \<lparr>sk_collection = wq_collection wr, sk_shard_idx = wq_shard_idx wr\<rparr> (wq_id wr)"
    by (rule law_rely [OF replica_write_law [where G = G and req = wr, OF that]])
  show "rely N D G M 0 (run_at n (replica_get (nt_env N) gr t))" by (rule law_rely [OF replica_get_any_law]) simp
  show "rely N D G M 0 (run_at n (replica_search (nt_env N) sr t))" by (rule law_rely [OF replica_search_law]) simp
  show "rely N D G M 0 (run_at n (stream_shard (nt_env N) \<lparr>tq_collection = c, tq_shard_idx = i\<rparr> t))"
    by (rule law_rely [OF stream_shard_law]) simp
  show "rely N D G M (a + b) (g \<circ> f)" if f: "rely N D G M a f" and g: "rely N D G M b g"
    unfolding rely_def
  proof (intro allI impI)
    fix e L ns
    assume "nodes_ok N D G M (e + (a + b)) L ns"
    then have "nodes_ok N D G M (e + b + a) L ns" by (simp add: ac_simps)
    with f obtain L1 where L1: "nodes_ok N D G M (e + b) L1 (f ns)" "grow L L1" unfolding rely_def by blast
    with g obtain L2 where "nodes_ok N D G M e L2 (g (f ns))" "grow L1 L2" unfolding rely_def by blast
    with grow_trans [OF L1(2)] show "\<exists>L'. nodes_ok N D G M e L' ((g \<circ> f) ns) \<and> grow L L'" by auto
  qed
qed

theorem handlers_satisfy_rely_witness:
  "rely demo_net (\<lambda>_. 1) demo_issued (\<lambda>_. demo_meta) (1 + 1)
     (run_at 3 (replica_write (nt_env demo_net) (request_of demo_op) None) \<circ> run_at 2 (replica_write (nt_env demo_net) (request_of demo_op) None))"
proof -
  have u: "hlc_unpack (hlc_pack (Hlc 5 0)) = Hlc 5 0" by (rule hlc_unpack_pack) (simp add: hlc_ok_def)
  have "rely demo_net (\<lambda>_. 1) demo_issued (\<lambda>_. demo_meta) 1 (run_at n (replica_write (nt_env demo_net) (request_of demo_op) None))" for n
    using conjunct1 [OF handlers_satisfy_rely [of "request_of demo_op" demo_issued]] u
    by (simp add: request_of_def demo_op_def demo_issued_def OP_UPSERT_def OP_DELETE_def)
  then show ?thesis using handlers_satisfy_rely by blast
qed

end
