(* ===== verification/Rebalance.thy ===== *)
theory Rebalance
  imports Service Shard_Transfer
begin

text \<open>
  The reconcile loop (\<open>qv-node/src/rebalance.rs\<close>): a node compares the shards it holds with the
  placement derived from the metadata, acquires the ones it lacks and closes the ones that have
  moved away.  One pass is a function; the background task that repeats it every half second is not
  part of the model.
\<close>

section \<open>Committing a shard state\<close>

text \<open>Connect to the leader (\<open>meta_client\<close>) and send it a metadata request.\<close>

definition meta_rpc :: "net \<Rightarrow> raft \<Rightarrow> meta_json \<Rightarrow> str \<Rightarrow> bytes \<Rightarrow> world \<Rightarrow> (bool \<times> string) option \<times> world" where
  "meta_rpc N R MJ addr bs w =
     (case next_event w of (ev, w) \<Rightarrow>
      case (if ev_outcome ev = Unreachable then None else nt_at N addr) of
        None \<Rightarrow> (None, w)
      | Some n \<Rightarrow> (case meta_write R MJ n bs w of (r, w) \<Rightarrow>
          (case r of Inr a \<Rightarrow> if ev_outcome ev = ReplyLost then None else Some a | Inl _ \<Rightarrow> None, w)))"

definition set_state ::
  "net \<Rightarrow> raft \<Rightarrow> meta_json \<Rightarrow> node_id \<Rightarrow> str \<Rightarrow> u32 \<Rightarrow> node_id \<Rightarrow> shard_state \<Rightarrow> world \<Rightarrow> (unit + unit) \<times> world" where
  "set_state N R MJ me c i n st w =
     (case set_shard_state R me c i n st w of
        (Inr _, w) \<Rightarrow> (Inr (), w)
      | (Inl (MNotLeader _), w) \<Rightarrow>
          (case leader_addr R me w of
             (None, w) \<Rightarrow> (Inl (), w)
           | (Some addr, w) \<Rightarrow>
               (case encode_set_shard_state MJ c i n st of
                  Inl _ \<Rightarrow> (Inl (), w)
                | Inr bs \<Rightarrow>
                    (case meta_rpc N R MJ addr bs w of
                       (Some (committed, _), w) \<Rightarrow> (if committed then Inr () else Inl (), w)
                     | (None, w) \<Rightarrow> (Inl (), w))))
      | (Inl _, w) \<Rightarrow> (Inl (), w))"

section \<open>Acquiring a shard\<close>

definition pull_sources :: "hash_fn \<Rightarrow> node_id \<Rightarrow> meta_state \<Rightarrow> str \<Rightarrow> u32 \<Rightarrow> str list" where
  "pull_sources X me meta c i =
     List.map_filter (map_of (ms_nodes meta))
       (filter (\<lambda>n. shard_state_of meta c i n = Active) (filter (\<lambda>n. n \<noteq> me) (meta_replicas_for_shard X meta c i)))"

definition local_shard_len :: "net \<Rightarrow> node_id \<Rightarrow> str \<Rightarrow> collection_schema \<Rightarrow> u32 \<Rightarrow> world \<Rightarrow> ((router_error + nat) \<times> world) option" where
  "local_shard_len N me c schema i w = on_node me (on_shards (store_shard_len (nt_env N) (sref_of c schema i))) w"

fun pull_first :: "net \<Rightarrow> node_id \<Rightarrow> str \<Rightarrow> u32 \<Rightarrow> collection_schema \<Rightarrow> str list \<Rightarrow> world \<Rightarrow> (bool \<times> world) option" where
  "pull_first N me c i schema [] w = Some (False, w)"
| "pull_first N me c i schema (src # srcs) w =
     (case pull_shard N me src c i schema w of
        None \<Rightarrow> None
      | Some (Inr _, w) \<Rightarrow> Some (True, w)
      | Some (Inl _, w) \<Rightarrow> pull_first N me c i schema srcs w)"

definition acquire_shard ::
  "net \<Rightarrow> raft \<Rightarrow> meta_json \<Rightarrow> node_id \<Rightarrow> meta_state \<Rightarrow> str \<Rightarrow> collection_schema \<Rightarrow> u32 \<Rightarrow> world \<Rightarrow> (bool \<times> world) option" where
  "acquire_shard N R MJ me meta c schema i w =
     (let sources = pull_sources (nt_hash N) me meta c i in
      if sources = [] then
        (case local_shard_len N me c schema i w of
           None \<Rightarrow> None
         | Some (_, w) \<Rightarrow> Some (False, snd (set_state N R MJ me c i me Active w)))
      else
        (case set_state N R MJ me c i me Syncing w of
           (Inl _, w) \<Rightarrow> Some (False, w)
         | (Inr _, w) \<Rightarrow>
             (case pull_first N me c i schema sources w of
                None \<Rightarrow> None
              | Some (True, w) \<Rightarrow> Some (True, snd (set_state N R MJ me c i me Active w))
              | Some (False, w) \<Rightarrow> Some (False, w))))"

section \<open>A pass\<close>

definition desired_all_active :: "meta_state \<Rightarrow> str \<Rightarrow> u32 \<Rightarrow> node_id list \<Rightarrow> bool" where
  "desired_all_active meta c i desired \<longleftrightarrow> desired \<noteq> [] \<and> list_all (\<lambda>n. shard_state_of meta c i n = Active) desired"

text \<open>One shard: the number of completed transfers, 0 or 1.\<close>

definition reconcile_shard ::
  "net \<Rightarrow> raft \<Rightarrow> meta_json \<Rightarrow> node_id \<Rightarrow> meta_state \<Rightarrow> str \<times> collection_schema \<times> u32 \<Rightarrow> world \<Rightarrow> (nat \<times> world) option" where
  "reconcile_shard N R MJ me meta job w =
     (case job of (c, schema, i) \<Rightarrow>
      let desired = meta_replicas_for_shard (nt_hash N) meta c i; hold = has_shard c i (nd_shards (w_nodes w me)) in
      if me \<in> set desired then
        (case (if hold then local_shard_len N me c schema i w else Some (Inr 0, w)) of
           None \<Rightarrow> None
         | Some (len, w) \<Rightarrow>
             let materialized_nonempty = hold \<and> (case len of Inr n \<Rightarrow> n > 0 | Inl _ \<Rightarrow> False) in
             if shard_state_of meta c i me = Active \<and> materialized_nonempty then Some (0, w)
             else map_option (\<lambda>(done, w). (if done then 1 else 0, w)) (acquire_shard N R MJ me meta c schema i w))
      else if hold \<and> desired_all_active meta c i desired then
        Some (0, w\<lparr>w_nodes := (w_nodes w)(me := (w_nodes w me)\<lparr>nd_shards := drop_shard c i (nd_shards (w_nodes w me))\<rparr>)\<rparr>)
      else Some (0, w))"

fun reconcile_jobs ::
  "net \<Rightarrow> raft \<Rightarrow> meta_json \<Rightarrow> node_id \<Rightarrow> meta_state \<Rightarrow> (str \<times> collection_schema \<times> u32) list \<Rightarrow> nat \<Rightarrow> world \<Rightarrow> (nat \<times> world) option" where
  "reconcile_jobs N R MJ me meta [] transfers w = Some (transfers, w)"
| "reconcile_jobs N R MJ me meta (job # jobs) transfers w =
     (case reconcile_shard N R MJ me meta job w of
        None \<Rightarrow> None
      | Some (t, w) \<Rightarrow> reconcile_jobs N R MJ me meta jobs (transfers + t) w)"

definition shard_jobs :: "meta_state \<Rightarrow> (str \<times> collection_schema \<times> u32) list" where
  "shard_jobs meta = concat (map (\<lambda>(c, schema). map (\<lambda>k. (c, schema, of_nat k)) [0..<unat (cs_shard_count schema)]) (ms_collections meta))"

definition reconcile_once :: "net \<Rightarrow> raft \<Rightarrow> meta_json \<Rightarrow> node_id \<Rightarrow> world \<Rightarrow> (nat \<times> world) option" where
  "reconcile_once N R MJ me w = (case metadata me w of (meta, w) \<Rightarrow> reconcile_jobs N R MJ me meta (shard_jobs meta) 0 w)"

end
