(* ===== verification/Service_Props.thy ===== *)
theory Service_Props
  imports Service
begin

text \<open>
  What the client service guarantees for the metadata: the outcomes of joins and leaves, of
  collection creation, the well-formedness of every schema, and the exact language of join targets.

  The hypothesis on openraft is its documented contract seen from a node whose calls are not
  interleaved with those of others: a write that returns Ok has been applied to the committed
  metadata \<open>com w\<close> and its response is that of the application; one that fails has been applied or
  not; adding a learner and changing the membership leave the metadata alone, and the voters
  afterwards are the requested ones if the change returned Ok, else the old or the requested ones.
\<close>

definition raft_commits :: "raft \<Rightarrow> (world \<Rightarrow> meta_state) \<Rightarrow> node_id \<Rightarrow> bool" where
  "raft_commits R com me \<longleftrightarrow>
     (\<forall>req w r w'. rf_client_write R me req w = (r, w') \<longrightarrow> rf_voters R me w' = rf_voters R me w) \<and>
     (\<forall>req w resp w'. rf_client_write R me req w = (Inr resp, w') \<longrightarrow> meta_apply req (com w) = (resp, com w')) \<and>
     (\<forall>req w e w'. rf_client_write R me req w = (Inl e, w') \<longrightarrow> com w' = com w \<or> com w' = snd (meta_apply req (com w))) \<and>
     (\<forall>n a block w r w'. rf_add_learner R me n a block w = (r, w') \<longrightarrow> com w' = com w \<and> rf_voters R me w' = rf_voters R me w) \<and>
     (\<forall>vs retain w u w'. rf_change_membership R me vs retain w = (Inr u, w') \<longrightarrow> com w' = com w \<and> rf_voters R me w' = vs) \<and>
     (\<forall>vs retain w e w'. rf_change_membership R me vs retain w = (Inl e, w') \<longrightarrow>
        com w' = com w \<and> (rf_voters R me w' = rf_voters R me w \<or> rf_voters R me w' = vs)) \<and>
     (\<forall>st w. com (w\<lparr>w_nodes := (w_nodes w)(me := (w_nodes w me)\<lparr>nd_shards := st\<rparr>)\<rparr>) = com w)"

lemmas raft_commitsD =
  raft_commits_def [THEN iffD1, THEN conjunct1, rule_format]
  raft_commits_def [THEN iffD1, THEN conjunct2, THEN conjunct1, rule_format]
  raft_commits_def [THEN iffD1, THEN conjunct2, THEN conjunct2, THEN conjunct1, rule_format]
  raft_commits_def [THEN iffD1, THEN conjunct2, THEN conjunct2, THEN conjunct2, THEN conjunct1, rule_format]
  raft_commits_def [THEN iffD1, THEN conjunct2, THEN conjunct2, THEN conjunct2, THEN conjunct2, THEN conjunct1, rule_format]
  raft_commits_def [THEN iffD1, THEN conjunct2, THEN conjunct2, THEN conjunct2, THEN conjunct2, THEN conjunct2, THEN conjunct1, rule_format]
  raft_commits_def [THEN iffD1, THEN conjunct2, THEN conjunct2, THEN conjunct2, THEN conjunct2, THEN conjunct2, THEN conjunct2, rule_format]

section \<open>The write path of the manager\<close>

lemma manager_write_Inr:
  assumes "raft_commits R com me" "manager_write R me req w = (Inr reply, w')"
  shows "meta_apply req (com w) = (response reply, com w') \<and> rf_voters R me w' = rf_voters R me w"
proof -
  obtain resp where "rf_client_write R me req w = (Inr resp, w')" "reply = resp_note resp"
    using assms(2) by (auto simp: manager_write_def map_err_Inr elim!: on_ok_InrE)
  with raft_commitsD(1,2) [OF assms(1)] show ?thesis by (simp add: response_def)
qed

lemma manager_write_Inl:
  assumes "raft_commits R com me" "manager_write R me req w = (Inl e, w')"
  shows "(com w' = com w \<or> com w' = snd (meta_apply req (com w))) \<and> rf_voters R me w' = rf_voters R me w \<and>
    (\<exists>s. e = MNotLeader ('': '' @ s) \<or> e = MRaft (''client_write: '' @ s))"
proof -
  obtain s where "rf_client_write R me req w = (Inl s, w')" "e = MNotLeader ('': '' @ s) \<or> e = MRaft (''client_write: '' @ s)"
    using assms(2) by (auto simp: manager_write_def on_ok_Inl map_err_Inl map_err_Inr split: if_splits)
  with raft_commitsD(1,3) [OF assms(1)] show ?thesis by blast
qed

lemma manager_write_step:
  assumes "raft_commits R com me" "manager_write R me req w = (r, w')"
  shows "com w' = com w \<or> com w' = snd (meta_apply req (com w))"
proof (cases r)
  case (Inl e)
  then show ?thesis using manager_write_Inl [OF assms(1)] assms(2) by blast
next
  case (Inr reply)
  then show ?thesis using manager_write_Inr [OF assms(1)] assms(2) by (metis snd_conv)
qed

section \<open>Join and leave\<close>

lemma join_node_Inr:
  assumes "raft_commits R com me" "join_node R me n a w = (Inr (), w')"
  shows "com w' = snd (meta_apply (RegisterNode n a) (com w)) \<and> rf_voters R me w' = insert n (rf_voters R me w)"
proof -
  obtain reply w1 u w2 where
    s: "manager_write R me (RegisterNode n a) w = (Inr reply, w1)" "rf_add_learner R me n a True w1 = (Inr u, w2)"
      "rf_change_membership R me (insert n (rf_voters R me w2)) True w2 = (Inr (), w')"
    using assms(2) by (auto simp: join_node_def Let_def map_err_Inr elim!: on_ok_InrE)
  note m = manager_write_Inr [OF assms(1) s(1)] and l = raft_commitsD(4) [OF assms(1) s(2)] and c = raft_commitsD(5) [OF assms(1) s(3)]
  from m have "com w1 = snd (meta_apply (RegisterNode n a) (com w))" by (metis snd_conv)
  with m l c show ?thesis by simp
qed

lemma join_node_Inl:
  assumes "raft_commits R com me" "join_node R me n a w = (Inl e, w')"
  shows "(\<exists>s. e = MNotLeader ('': '' @ s) \<or> e = MRaft (''client_write: '' @ s)) \<and> rf_voters R me w' = rf_voters R me w \<and>
      (com w' = com w \<or> com w' = snd (meta_apply (RegisterNode n a) (com w))) \<or>
    (\<exists>s. e = MRaft (''add_learner: '' @ s)) \<and> rf_voters R me w' = rf_voters R me w \<and> com w' = snd (meta_apply (RegisterNode n a) (com w)) \<or>
    (\<exists>s. e = MRaft (''change_membership(join): '' @ s)) \<and> com w' = snd (meta_apply (RegisterNode n a) (com w)) \<and>
      (rf_voters R me w' = rf_voters R me w \<or> rf_voters R me w' = insert n (rf_voters R me w))"
proof -
  obtain r1 w1 where s1: "manager_write R me (RegisterNode n a) w = (r1, w1)" by fastforce
  show ?thesis
  proof (cases r1)
    case (Inl e1)
    then have "e = e1" "w' = w1" using assms(2) s1 by (simp_all add: join_node_def)
    then show ?thesis using manager_write_Inl [OF assms(1)] s1 Inl by blast
  next
    case (Inr reply)
    have m: "com w1 = snd (meta_apply (RegisterNode n a) (com w))" "rf_voters R me w1 = rf_voters R me w"
      using manager_write_Inr [OF assms(1)] s1 Inr by (metis snd_conv)+
    obtain r2 w2 where s2: "rf_add_learner R me n a True w1 = (r2, w2)" by fastforce
    note l = raft_commitsD(4) [OF assms(1) s2]
    show ?thesis
    proof (cases r2)
      case (Inl e2)
      then have "e = MRaft (''add_learner: '' @ e2)" "w' = w2" using assms(2) s1 s2 Inr by (simp_all add: join_node_def)
      then show ?thesis using l m by auto
    next
      case (Inr u)
      then obtain e3 where c: "rf_change_membership R me (insert n (rf_voters R me w2)) True w2 = (Inl e3, w')" "e = MRaft (''change_membership(join): '' @ e3)"
        using assms(2) s1 s2 \<open>r1 = Inr reply\<close>
        by (auto simp: join_node_def on_ok_Inl map_err_Inl Let_def)
      show ?thesis using raft_commitsD(6) [OF assms(1) c(1)] c(2) l m by auto
    qed
  qed
qed

text \<open>A failed step of a sequence, and the last one.\<close>

lemma leave_node_cases:
  assumes "raft_commits R com me" "leave_node R me n w = (r, w')" "n \<in> rf_voters R me w" "rf_voters R me w \<noteq> {n}"
  shows "(\<exists>e. r = Inl (MRaft (''change_membership(leave): '' @ e))) \<and> com w' = com w \<or>
    (\<exists>w1 r'. rf_change_membership R me (rf_voters R me w - {n}) False w = (Inr (), w1) \<and>
       manager_write R me (DeregisterNode n) w1 = (r', w') \<and> r = map_sum id (\<lambda>_. ()) r')"
proof -
  have ne: "rf_voters R me w - {n} \<noteq> {}" using assms(3,4) by blast
  obtain q w1 where q: "rf_change_membership R me (rf_voters R me w - {n}) False w = (q, w1)" by fastforce
  show ?thesis
  proof (cases q)
    case (Inl e)
    then show ?thesis using assms(2,3) ne q raft_commitsD(6) [OF assms(1)] by (auto simp: leave_node_def Let_def)
  next
    case (Inr u)
    obtain r' w2 where "manager_write R me (DeregisterNode n) w1 = (r', w2)" by fastforce
    then show ?thesis using assms(2,3) ne q Inr by (cases r') (auto simp: leave_node_def Let_def)
  qed
qed

text \<open>A Raft of one node for the witnesses: writes apply to the node's metadata at once, a node is a
  voter if its address field is set.\<close>

definition solo_com :: "world \<Rightarrow> meta_state" where
  "solo_com w = nd_cluster (w_nodes w 1)"

definition solo_raft :: raft where
  "solo_raft = \<lparr>
     rf_client_write = (\<lambda>me req w. case meta_apply req (solo_com w) of (resp, m) \<Rightarrow>
       (Inr resp, w\<lparr>w_nodes := (w_nodes w)(1 := (w_nodes w 1)\<lparr>nd_cluster := m\<rparr>)\<rparr>)),
     rf_is_initialized = (\<lambda>me w. (Inr True, w)),
     rf_initialize = (\<lambda>me ms w. (Inr (), w)),
     rf_add_learner = (\<lambda>me n a block w. (if a = [0] then Inl ''unreachable'' else Inr (), w)),
     rf_change_membership = (\<lambda>me vs retain w.
       (Inr (), w\<lparr>w_nodes := (\<lambda>n. (w_nodes w n)\<lparr>nd_advertise_addr := if n \<in> vs then [1] else []\<rparr>)\<rparr>)),
     rf_voters = (\<lambda>me w. {n. nd_advertise_addr (w_nodes w n) = [1]}),
     rf_leader = (\<lambda>me w. Some 1)\<rparr>"

lemma solo_raft_ok: "raft_commits solo_raft solo_com me"
  by (auto simp: raft_commits_def solo_raft_def solo_com_def split: prod.splits if_splits)

definition solo_world :: world where
  "solo_world = \<lparr>w_nodes = (\<lambda>n. node_new (if n = 1 then [1] else []) \<lparr>ms_nodes = [(1, [1])], ms_collections = [], ms_shard_states = []\<rparr>
       (shard_store_new 128 0 (\<lambda>_. fresh_disk [] [] [])) empty_file), w_events = [], w_times = [], w_spawned = []\<rparr>"

lemma solo_world_voters: "rf_voters solo_raft me solo_world = {1}"
  by (auto simp: solo_raft_def solo_world_def node_new_def)

lemma registered:
  assumes "meta_inv m"
  shows "map_of (ms_nodes (snd (meta_apply (RegisterNode n a) m))) n = Some a"
    "n \<in> set (node_set (snd (meta_apply (RegisterNode n a) m)))"
proof -
  show reg: "map_of (ms_nodes (snd (meta_apply (RegisterNode n a) m))) n = Some a" using meta_invD(1) [OF assms] by simp
  then show "n \<in> set (node_set (snd (meta_apply (RegisterNode n a) m)))"
    unfolding node_set_def bt_keys_def by (metis image_eqI list.set_map map_of_SomeD fst_conv)
qed

lemma leave_node_refused:
  assumes "raft_commits R com me"
  shows "(\<exists>s. fst (leave_node R me n w) = Inl (MInvalid s)) \<longleftrightarrow> n \<notin> rf_voters R me w \<or> rf_voters R me w = {n}"
    "(\<exists>s. fst (leave_node R me n w) = Inl (MInvalid s)) \<longrightarrow> snd (leave_node R me n w) = w"
proof -
  have not_invalid: "fst (leave_node R me n w) \<noteq> Inl (MInvalid s)" if "n \<in> rf_voters R me w" "rf_voters R me w \<noteq> {n}" for s
  proof
    assume i: "fst (leave_node R me n w) = Inl (MInvalid s)"
    with leave_node_cases [OF assms prod.collapse [symmetric] that] obtain w2 r' where
      "manager_write R me (DeregisterNode n) w2 = (r', snd (leave_node R me n w))" "Inl (MInvalid s) = map_sum id (\<lambda>_. ()) r'" by auto
    then have "manager_write R me (DeregisterNode n) w2 = (Inl (MInvalid s), snd (leave_node R me n w))" by (cases r') simp_all
    from manager_write_Inl [OF assms this] show False by blast
  qed
  have refused: "\<exists>s. leave_node R me n w = (Inl (MInvalid s), w)" if "n \<notin> rf_voters R me w \<or> rf_voters R me w = {n}"
    using that by (auto simp: leave_node_def Let_def)
  show "(\<exists>s. fst (leave_node R me n w) = Inl (MInvalid s)) \<longleftrightarrow> n \<notin> rf_voters R me w \<or> rf_voters R me w = {n}"
    using not_invalid refused by (metis fst_conv)
  show "(\<exists>s. fst (leave_node R me n w) = Inl (MInvalid s)) \<longrightarrow> snd (leave_node R me n w) = w"
    using not_invalid refused by (metis snd_conv)
qed

lemma leave_node_left:
  assumes R: "raft_commits R com me" and inv: "meta_inv (com w)" and l: "leave_node R me n w = (Inr (), w1)"
  shows "map_of (ms_nodes (com w1)) n = None" "map_of (ms_shard_states (com w1)) (c, i, n) = None"
    "rf_voters R me w1 = rf_voters R me w - {n}" "rf_voters R me w1 \<noteq> {}"
proof -
  have v: "n \<in> rf_voters R me w" "rf_voters R me w \<noteq> {n}" using l by (auto simp: leave_node_def Let_def split: if_splits)
  from leave_node_cases [OF R l v] obtain w2 r' where
    s: "rf_change_membership R me (rf_voters R me w - {n}) False w = (Inr (), w2)" "manager_write R me (DeregisterNode n) w2 = (r', w1)"
      "Inr () = map_sum id (\<lambda>_. ()) r'" by auto
  then obtain reply where "r' = Inr reply" by (cases r') simp_all
  note s = s(1) s(2) [unfolded this]
  have m: "com w1 = snd (meta_apply (DeregisterNode n) (com w2))" "rf_voters R me w1 = rf_voters R me w2"
    using manager_write_Inr [OF R s(2)] by (metis snd_conv)+
  have c: "com w2 = com w" "rf_voters R me w2 = rf_voters R me w - {n}" using raft_commitsD(5) [OF R s(1)] by simp_all
  show "map_of (ms_nodes (com w1)) n = None" "map_of (ms_shard_states (com w1)) (c, i, n) = None"
    using meta_invD(1,3) [OF inv] unfolding m(1) c(1) by (simp_all add: map_of_bt_retain split: option.split)
  show "rf_voters R me w1 = rf_voters R me w - {n}" "rf_voters R me w1 \<noteq> {}" using m(2) c(2) v by auto
qed



section \<open>Collections\<close>

definition schema_ok :: "collection_schema \<Rightarrow> bool" where
  "schema_ok s \<longleftrightarrow> cs_dim s \<noteq> 0 \<and> cs_shard_count s \<noteq> 0 \<and> cs_replication_n s \<noteq> 0"

definition schemas_ok :: "meta_state \<Rightarrow> bool" where
  "schemas_ok m \<longleftrightarrow> (\<forall>c s. map_of (ms_collections m) c = Some s \<longrightarrow> c \<noteq> [] \<and> schema_ok s)"

lemma create_collection_call:
  assumes "svc_create_collection R me req w = (r, w')"
  shows "(\<exists>t. r = Inl (InvalidArgument, Text t)) \<and> w' = w \<and> (cq_name req = [] \<or> cq_dim req = 0 \<or> cq_metric req \<notin> {1, 2}) \<or>
    cq_name req \<noteq> [] \<and> cq_dim req \<noteq> 0 \<and>
    (\<exists>metric q. metric_from_proto (cq_metric req) = Inr metric \<and>
       manager_write R me (CreateCollection (cq_name req) (schema_with_defaults (cq_dim req) metric (cq_shard_count req) (cq_replication_n req))) w = (q, w') \<and>
       r = (case q of Inl e \<Rightarrow> Inl (manager_err_to_status e)
            | Inr reply \<Rightarrow> if reply = ''exists'' then Inl (AlreadyExists, AboutCollection (cq_name req) ''already exists'') else Inr ()))"
proof (cases "cq_name req = [] \<or> cq_dim req = 0 \<or> cq_metric req \<notin> {1, 2}")
  case True
  then show ?thesis using assms by (auto simp: svc_create_collection_def metric_from_proto_def split: if_splits)
next
  case False
  then obtain metric where m: "metric_from_proto (cq_metric req) = Inr metric" by (auto simp: metric_from_proto_def)
  obtain q w1 where "manager_write R me (CreateCollection (cq_name req) (schema_with_defaults (cq_dim req) metric (cq_shard_count req) (cq_replication_n req))) w = (q, w1)"
    by fastforce
  with False m assms show ?thesis
    by (cases q) (auto simp: svc_create_collection_def create_collection_def Let_def split: if_splits)
qed

lemma schema_with_defaults_ok: "dim \<noteq> 0 \<Longrightarrow> schema_ok (schema_with_defaults dim metric sc rn)"
  by (simp add: schema_ok_def schema_with_defaults_def)



text \<open>What every metadata call does to the committed metadata: it applies some requests, none of
  which creates a malformed collection.\<close>

fun valid_request :: "meta_request \<Rightarrow> bool" where
  "valid_request (CreateCollection c s) \<longleftrightarrow> c \<noteq> [] \<and> schema_ok s"
| "valid_request _ \<longleftrightarrow> True"

definition applies :: "meta_state \<Rightarrow> meta_state \<Rightarrow> bool" where
  "applies m m' \<longleftrightarrow> (\<exists>rs. list_all valid_request rs \<and> m' = foldl (\<lambda>s r. snd (meta_apply r s)) m rs)"

lemma applies_refl [simp]: "applies m m"
  unfolding applies_def by (rule exI [of _ "[]"]) simp

lemma applies_trans: "applies m m' \<Longrightarrow> applies m' m'' \<Longrightarrow> applies m m''"
  unfolding applies_def by (metis foldl_append list_all_append)

lemma applies_one: "valid_request r \<Longrightarrow> applies m (snd (meta_apply r m))"
  unfolding applies_def by (rule exI [of _ "[r]"]) simp

lemma meta_apply_schemas_ok:
  assumes "meta_inv m" "schemas_ok m" "valid_request r"
  shows "schemas_ok (snd (meta_apply r m))"
  using meta_invD [OF assms(1)] assms(2,3) by (cases r) (auto simp: schemas_ok_def Let_def split: if_splits)

lemma applies_inv:
  assumes "applies m m'" "meta_inv m" "schemas_ok m"
  shows "meta_inv m' \<and> schemas_ok m'"
proof -
  have "list_all valid_request rs \<Longrightarrow> meta_inv m \<Longrightarrow> schemas_ok m \<Longrightarrow>
      meta_inv (foldl (\<lambda>s r. snd (meta_apply r s)) m rs) \<and> schemas_ok (foldl (\<lambda>s r. snd (meta_apply r s)) m rs)" for rs m
    by (induction rs arbitrary: m) (simp_all add: meta_apply_inv meta_apply_schemas_ok)
  with assms show ?thesis unfolding applies_def by blast
qed

lemma manager_write_applies:
  assumes "raft_commits R com me" "valid_request req" "manager_write R me req w = (r, w')"
  shows "applies (com w) (com w')"
  using manager_write_step [OF assms(1,3)] applies_one [OF assms(2)] by (auto simp: applies_refl)

lemma join_node_applies:
  assumes "raft_commits R com me" "join_node R me n a w = (r, w')"
  shows "applies (com w) (com w')"
proof -
  have "r = Inr () \<or> (\<exists>e. r = Inl e)" by (cases r) simp_all
  then have "com w' = com w \<or> com w' = snd (meta_apply (RegisterNode n a) (com w))"
    using join_node_Inr [OF assms(1)] join_node_Inl [OF assms(1)] assms(2) by blast
  then show ?thesis using applies_one [of "RegisterNode n a" "com w"] by auto
qed

lemma leave_node_applies:
  assumes "raft_commits R com me" "leave_node R me n w = (r, w')"
  shows "applies (com w) (com w')"
proof (cases "n \<in> rf_voters R me w \<and> rf_voters R me w \<noteq> {n}")
  case True
  from leave_node_cases [OF assms] True consider "com w' = com w" |
    w1 r' where "rf_change_membership R me (rf_voters R me w - {n}) False w = (Inr (), w1)" "manager_write R me (DeregisterNode n) w1 = (r', w')"
    by blast
  then show ?thesis
  proof cases
    case 2
    then show ?thesis using raft_commitsD(5) [OF assms(1)] manager_write_applies [OF assms(1) _ 2(2)] by fastforce
  qed simp
next
  case False
  then have "w' = w" using assms(2) by (auto simp: leave_node_def Let_def split: if_splits)
  then show ?thesis by simp
qed

datatype meta_call =
    CreateCall create_req
  | DropCall str
  | JoinCall str
  | LeaveCall u64
  | StateCall str u32 node_id shard_state

fun meta_call_run :: "raft \<Rightarrow> node_id \<Rightarrow> meta_call \<Rightarrow> world \<Rightarrow> world" where
  "meta_call_run R me (CreateCall req) w = snd (svc_create_collection R me req w)"
| "meta_call_run R me (DropCall name) w = snd (svc_drop_collection R me name w)"
| "meta_call_run R me (JoinCall target) w = snd (svc_join R me target w)"
| "meta_call_run R me (LeaveCall n) w = snd (svc_leave R me n w)"
| "meta_call_run R me (StateCall c i n st) w = snd (set_shard_state R me c i n st w)"

lemma meta_call_applies:
  assumes R: "raft_commits R com me"
  shows "applies (com w) (com (meta_call_run R me call w))"
proof (cases call)
  case (CreateCall req)
  obtain r w' where c: "svc_create_collection R me req w = (r, w')" by fastforce
  from create_collection_call [OF c] consider "w' = w" | metric q where "cq_name req \<noteq> []" "cq_dim req \<noteq> 0"
      "manager_write R me (CreateCollection (cq_name req) (schema_with_defaults (cq_dim req) metric (cq_shard_count req) (cq_replication_n req))) w = (q, w')"
    by blast
  then have "applies (com w) (com w')"
  proof cases
    case 2
    show ?thesis by (rule manager_write_applies [OF R _ 2(3)]) (simp add: 2(1) schema_with_defaults_ok [OF 2(2)])
  qed simp
  then show ?thesis using CreateCall c by simp
next
  case (DropCall name)
  obtain r w1 where m: "manager_write R me (DropCollection name) w = (r, w1)" by fastforce
  have "com (snd (svc_drop_collection R me name w)) = com w1"
    using m raft_commitsD(7) [OF R] by (cases r) (simp_all add: svc_drop_collection_def drop_collection_def Let_def)
  then show ?thesis using manager_write_applies [OF R _ m] DropCall by simp
next
  case (JoinCall target)
  show ?thesis
  proof (cases "parse_join_target target")
    case None
    then show ?thesis using JoinCall by (simp add: svc_join_def)
  next
    case (Some t)
    obtain r w1 where j: "join_node R me (fst t) (snd t) w = (r, w1)" by fastforce
    then have "snd (svc_join R me target w) = w1" using Some by (cases t; cases r) (simp_all add: svc_join_def)
    then show ?thesis using join_node_applies [OF R j] JoinCall by simp
  qed
next
  case (LeaveCall n)
  obtain r w1 where l: "leave_node R me n w = (r, w1)" by fastforce
  then have "snd (svc_leave R me n w) = w1" by (cases r) (simp_all add: svc_leave_def)
  then show ?thesis using leave_node_applies [OF R l] LeaveCall by simp
next
  case (StateCall c i n st)
  obtain r w1 where m: "manager_write R me (SetShardState c i n st) w = (r, w1)" by fastforce
  then show ?thesis using manager_write_applies [OF R _ m] StateCall by (simp add: set_shard_state_def)
qed

text \<open>C19. Well-formed metadata: after any sequence of client and shard-state calls, whatever Raft made
  of each, every collection has a name, a positive dimension, shard count and replication factor,
  and the maps are in key order; so the shard of every point exists in every collection (the
  remainder by the shard count that the coordinator computes never divides by zero).\<close>

theorem client_calls_keep_schemas_valid:
  assumes R: "raft_commits R com me" and start: "meta_inv (com w)" "schemas_ok (com w)"
    and w': "w' = foldl (\<lambda>w call. meta_call_run R me call w) w calls"
  shows "meta_inv (com w') \<and> schemas_ok (com w') \<and>
    (\<forall>c s j. map_of (ms_collections (com w')) c = Some s \<longrightarrow>
       (\<exists>i. shard_for_id X j (cs_shard_count s) = Some i \<and> i < cs_shard_count s))"
proof -
  have "applies (com w) (com (foldl (\<lambda>w call. meta_call_run R me call w) w calls))"
  proof (induction calls rule: rev_induct)
    case (snoc call calls)
    then show ?case using meta_call_applies [OF R] applies_trans by fastforce
  qed simp
  then have ok: "meta_inv (com w')" "schemas_ok (com w')" using applies_inv start w' by blast+
  have "\<exists>i. shard_for_id X j (cs_shard_count s) = Some i \<and> i < cs_shard_count s" if "map_of (ms_collections (com w')) c = Some s" for c s j
  proof -
    have "cs_shard_count s \<noteq> 0" using ok(2) that by (auto simp: schemas_ok_def schema_ok_def)
    then show ?thesis using shard_for_id_in_range [of X j "cs_shard_count s"] by fastforce
  qed
  with ok show ?thesis by blast
qed

theorem client_calls_keep_schemas_valid_witness:
  "\<exists>w'. w' = foldl (\<lambda>w call. meta_call_run solo_raft 1 call w) solo_world
       [CreateCall \<lparr>cq_name = [99], cq_dim = 4, cq_metric = 1, cq_shard_count = 0, cq_replication_n = 0\<rparr>, JoinCall [50, 64, 65]] \<and>
     schemas_ok (solo_com w') \<and> meta_inv (solo_com w')"
proof -
  have "meta_inv (solo_com solo_world)" "schemas_ok (solo_com solo_world)"
    by (simp_all add: meta_inv_def schemas_ok_def bt_ok_def bt_keys_def solo_com_def solo_world_def node_new_def)
  from client_calls_keep_schemas_valid [OF solo_raft_ok this refl, where X = "\<lambda>_ _. 0"] show ?thesis by blast
qed

section \<open>Join targets\<close>

text \<open>The language of join targets: a target is read as node \<open>i\<close> at address \<open>a\<close> iff it is a decimal
  number, with an optional plus sign, whose value is \<open>i\<close> (so below \<open>2 ^ 64\<close>), the first at sign, and the
  non-empty \<open>a\<close>; and the printed form of every node id with any non-empty address is read back.\<close>

theorem parse_join_target_exact:
  "(parse_join_target s = Some (i, a) \<longleftrightarrow> a \<noteq> [] \<and>
      (\<exists>ds. s = ds @ 64 # a \<and> 64 \<notin> set ds \<and> unsigned_part ds \<noteq> [] \<and> list_all is_digit (unsigned_part ds) \<and>
         dec_value 0 (unsigned_part ds) = unat i)) \<and>
   (a \<noteq> [] \<longrightarrow> parse_join_target (dec_bytes (unat i) @ 64 # a) = Some (i, a))"
proof -
  have iff: "parse_join_target s = Some (i, a) \<longleftrightarrow> a \<noteq> [] \<and> (\<exists>ds. split_once 64 s = Some (ds, a) \<and> parse_u64 ds = Some i)" for s
    by (auto simp: parse_join_target_def split: option.splits if_splits)
  moreover have "a \<noteq> [] \<longrightarrow> parse_join_target (dec_bytes (unat i) @ 64 # a) = Some (i, a)"
    unfolding iff split_once_eq parse_u64_eq using dec_bytes_parts by metis
  ultimately show ?thesis by (auto simp: split_once_eq parse_u64_eq)
qed

theorem parse_join_target_exact_witness: "parse_join_target (dec_bytes (unat (12 :: u64)) @ 64 # [65]) = Some (12, [65])"
  using parse_join_target_exact [of "[]" 12 "[65]"] by simp

end
