(* ===== verification/Rebalance_Props.thy ===== *)
theory Rebalance_Props
  imports Rebalance Service_Props
begin

text \<open>
  What the reconcile loop guarantees: an acquisition marks the replica active only after a pull
  that returned Ok, and such a pull from a source that has the shard open leaves nothing behind.

  While an acquisition runs, the metadata changes.  \<open>S\<close> is the set of the metadata assignments the
  nodes may have; the other activity of the cluster satisfies its rely condition under one of
  them iff it does under every one.
\<close>

section \<open>Worlds whose metadata changes\<close>

definition data_ok ::
  "net \<Rightarrow> (shard_key \<Rightarrow> nat) \<Rightarrow> issued \<Rightarrow> (node_id \<Rightarrow> meta_state) set \<Rightarrow> nat \<Rightarrow> (node_id \<Rightarrow> logs) \<Rightarrow> world \<Rightarrow> bool" where
  "data_ok N D G S b L w \<longleftrightarrow> (\<exists>M \<in> S. world_ok N D G M b L w) \<and>
     (\<forall>e \<in> set (w_events w). \<forall>M \<in> S. \<forall>M' \<in> S. \<forall>c. rely N D G M c (ev_between e) \<longrightarrow> rely N D G M' c (ev_between e))"

text \<open>What is used of openraft: committing a metadata request applies it to state machines and
  leaves the shards, and the stamps in them, to the data plane.\<close>

definition raft_keeps :: "raft \<Rightarrow> net \<Rightarrow> (shard_key \<Rightarrow> nat) \<Rightarrow> issued \<Rightarrow> (node_id \<Rightarrow> meta_state) set \<Rightarrow> bool" where
  "raft_keeps R N D G S \<longleftrightarrow> (\<forall>n req b L w. data_ok N D G S b L w \<longrightarrow>
     (\<exists>L'. data_ok N D G S b L' (snd (rf_client_write R n req w)) \<and> grow L L'))"

lemma data_ok_shrinks:
  assumes "data_ok N D G S b L w" "M \<in> S" "world_ok N D G M b' L' w'" "shrinks w w'"
  shows "data_ok N D G S b' L' w'"
  using assms unfolding data_ok_def shrinks_def by blast

lemma data_ok_mono: "data_ok N D G S b L w \<Longrightarrow> b' \<le> b \<Longrightarrow> data_ok N D G S b' L w"
  unfolding data_ok_def using world_ok_mono by blast

lemma next_event_data:
  assumes "data_ok N D G S b L w"
  shows "\<exists>L'. data_ok N D G S b L' (snd (next_event w)) \<and> grow L L'"
proof -
  obtain M where M: "M \<in> S" "world_ok N D G M b L w" using assms by (auto simp: data_ok_def)
  obtain ev w' where ev: "next_event w = (ev, w')" by fastforce
  from next_event_ok [OF M(2)] ev obtain L' where "world_ok N D G M b L' w'" "grow L L'" by auto
  with data_ok_shrinks [OF assms M(1) _ shrinks_next_event [OF ev]] ev show ?thesis by auto
qed

section \<open>Committing a state\<close>

lemma manager_write_world: "snd (manager_write R n req w) = snd (rf_client_write R n req w)"
proof -
  obtain r w' where r: "rf_client_write R n req w = (r, w')" by fastforce
  then show ?thesis by (cases r) (simp_all add: manager_write_def)
qed

lemma manager_write_data:
  assumes "raft_keeps R N D G S" "data_ok N D G S b L w" "manager_write R n req w = (r, w')"
  shows "\<exists>L'. data_ok N D G S b L' w' \<and> grow L L'"
  using assms manager_write_world [of R n req w] unfolding raft_keeps_def by (metis snd_conv)

lemma commit_bytes_data:
  assumes "raft_keeps R N D G S" "data_ok N D G S b L w" "commit_meta_request_bytes R MJ n bs w = (r, w')"
  shows "\<exists>L'. data_ok N D G S b L' w' \<and> grow L L'"
proof (cases "mj_de MJ bs")
  case (Inl e)
  then have "w' = w" using assms(3) by (simp add: commit_meta_request_bytes_def)
  then show ?thesis using assms(2) by auto
next
  case (Inr req)
  then show ?thesis using assms(3) manager_write_data [OF assms(1,2)] by (simp add: commit_meta_request_bytes_def)
qed

lemma meta_rpc_data:
  assumes R: "raft_keeps R N D G S" and w: "data_ok N D G S b L w" and rpc: "meta_rpc N R MJ addr bs w = (r, w')"
  shows "\<exists>L'. data_ok N D G S b L' w' \<and> grow L L'"
proof -
  obtain ev w1 where ev: "next_event w = (ev, w1)" by fastforce
  obtain L1 where L1: "data_ok N D G S b L1 w1" "grow L L1" using next_event_data [OF w] ev by auto
  show ?thesis
  proof (cases "if ev_outcome ev = Unreachable then None else nt_at N addr")
    case None
    then have "w' = w1" using rpc ev by (simp add: meta_rpc_def)
    then show ?thesis using L1 by blast
  next
    case (Some n)
    obtain q w2 where q: "commit_meta_request_bytes R MJ n bs w1 = (q, w2)" by fastforce
    then have "snd (meta_write R MJ n bs w1) = w2" by (cases q) (simp_all add: meta_write_def)
    then have "w' = w2" using rpc ev Some by (auto simp: meta_rpc_def split: prod.splits)
    then show ?thesis using commit_bytes_data [OF R L1(1) q] grow_trans [OF L1(2)] by blast
  qed
qed

lemma set_state_data:
  assumes R: "raft_keeps R N D G S" and w: "data_ok N D G S b L w" and set: "set_state N R MJ me c i n st w = (r, w')"
  shows "\<exists>L'. data_ok N D G S b L' w' \<and> grow L L'"
proof -
  obtain q w1 where q: "manager_write R me (SetShardState c i n st) w = (q, w1)" by fastforce
  obtain L1 where L1: "data_ok N D G S b L1 w1" "grow L L1" using manager_write_data [OF R w q] by blast
  show ?thesis
  proof (cases "\<exists>s. q = Inl (MNotLeader s)")
    case False
    then have "w' = w1" using set q by (cases q) (auto simp: set_state_def set_shard_state_def split: manager_error.splits)
    then show ?thesis using L1 by blast
  next
    case True
    obtain a w2 where a: "leader_addr R me w1 = (a, w2)" by fastforce
    have "w2 = w1 \<or> w2 = snd (next_event w1)" using a by (auto simp: leader_addr_def metadata_def Let_def split: option.splits)
    then obtain L2 where L2: "data_ok N D G S b L2 w2" "grow L1 L2" using L1(1) next_event_data [OF L1(1)] by auto
    have "w' = w2 \<or> (\<exists>bs addr q. meta_rpc N R MJ addr bs w2 = (q, w'))"
      using set q True a
      by (auto simp: set_state_def set_shard_state_def split: option.splits sum.splits prod.splits)
    then obtain L3 where "data_ok N D G S b L3 w'" "grow L2 L3" using L2(1) meta_rpc_data [OF R L2(1)] grow_simps by metis
    then show ?thesis using grow_trans [OF L1(2) grow_trans [OF L2(2)]] by blast
  qed
qed

section \<open>Pulling from the first source that answers\<close>

lemma local_shard_len_data:
  assumes w: "data_ok N D G S b L w" and dim: "D \<lparr>sk_collection = c, sk_shard_idx = i\<rparr> = unat (cs_dim schema)"
  shows "\<exists>r w' L'. local_shard_len N me c schema i w = Some (r, w') \<and> data_ok N D G S b L' w' \<and> grow L L'"
proof -
  obtain M where M: "M \<in> S" "world_ok N D G M (b + 0) L w" using w by (auto simp: data_ok_def)
  have "\<exists>res st'. store_shard_len (nt_env N) (sref_of c schema i) st = Some (res, st') \<and> store_mem (nt_env N) D l st' \<and> (\<forall>a. ok_of res = Some a \<longrightarrow> True)"
    if "store_mem (nt_env N) D l st" for l st
    unfolding store_shard_len_def by (rule with_shard_mem_read [OF that]) (use dim in \<open>auto simp: reading_def\<close>)
  then have law: "node_law (nt_env N) D G 0 (=) (\<lambda>_ _. True) (on_shards (store_shard_len (nt_env N) (sref_of c schema i)))" by (rule read_law)
  have R: "\<And>l l' :: logs. l = l' \<Longrightarrow> logs_grow l l'" by simp
  from on_node_ok [OF law R M(2), of me] obtain r w' L' where
    r: "local_shard_len N me c schema i w = Some (r, w')" "world_ok N D G M b L' w'" "grow L L'" unfolding local_shard_len_def by blast
  then show ?thesis using data_ok_shrinks [OF w M(1) r(2)] shrinks_on_node [OF r(1) [unfolded local_shard_len_def]] by blast
qed

text \<open>What a completed pull from one of the sources has achieved.\<close>

definition pulled_from ::
  "net \<Rightarrow> node_id \<Rightarrow> str \<Rightarrow> u32 \<Rightarrow> collection_schema \<Rightarrow> str list \<Rightarrow> (node_id \<Rightarrow> logs) \<Rightarrow> (node_id \<Rightarrow> logs) \<Rightarrow> world \<Rightarrow> bool" where
  "pulled_from N me c i schema srcs L L' w' \<longleftrightarrow> (\<exists>src w1 n. src \<in> set srcs \<and> pull_shard N me src c i schema w1 = Some (Inr n, w') \<and>
     (\<forall>s. nt_at N src = Some s \<longrightarrow> has_shard c i (nd_shards (w_nodes (snd (next_event w1)) s)) \<longrightarrow>
        (\<forall>j h. at_least h (lww_log (L s \<lparr>sk_collection = c, sk_shard_idx = i\<rparr>)) j \<longrightarrow>
           at_least h (lww_log (L' me \<lparr>sk_collection = c, sk_shard_idx = i\<rparr>)) j)))"

lemma pull_first_data:
  assumes iss: "issued_ok G" "ids_bound G B" and dim: "D \<lparr>sk_collection = c, sk_shard_idx = i\<rparr> = unat (cs_dim schema)"
    and w: "data_ok N D G S (B * length srcs) L w"
  shows "\<exists>done w' L'. pull_first N me c i schema srcs w = Some (done, w') \<and> data_ok N D G S 0 L' w' \<and> grow L L' \<and>
    (done \<longrightarrow> pulled_from N me c i schema srcs L L' w')"
  using w
proof (induction srcs arbitrary: w L)
  case Nil
  then show ?case by (intro exI [of _ False] exI [of _ w] exI [of _ L]) simp
next
  case (Cons src srcs)
  let ?k = "\<lparr>sk_collection = c, sk_shard_idx = i\<rparr>"
  have "B * length (src # srcs) = B * length srcs + B" by simp
  then obtain M where M: "M \<in> S" "world_ok N D G M (B * length srcs + B) L w" using Cons.prems unfolding data_ok_def by metis
  from pull_shard_ok [where D = D and c = c and i = i, OF M(2) iss dim, of me src] obtain r w1 L1 where
    r: "pull_shard N me src c i schema w = Some (r, w1)" "world_ok N D G M (B * length srcs) L1 w1" "grow L L1"
      "\<forall>s n. nt_at N src = Some s \<longrightarrow> has_shard c i (nd_shards (w_nodes (snd (next_event w)) s)) \<longrightarrow> r = Inr n \<longrightarrow>
        (\<forall>j h. at_least h (lww_log (L s ?k)) j \<longrightarrow> at_least h (lww_log (L1 me ?k)) j)" by blast
  have d: "data_ok N D G S (B * length srcs) L1 w1" by (rule data_ok_shrinks [OF Cons.prems M(1) r(2) shrinks_pull_shard [OF r(1)]])
  show ?case
  proof (cases r)
    case (Inl e)
    from Cons.IH [OF d] obtain dn w' L' where
      i: "pull_first N me c i schema srcs w1 = Some (dn, w')" "data_ok N D G S 0 L' w'" "grow L1 L'"
        "dn \<longrightarrow> pulled_from N me c i schema srcs L1 L' w'" by blast
    have "at_least h (lww_log (L s ?k)) j \<Longrightarrow> at_least h (lww_log (L1 s ?k)) j" for h s j
      using r(3) by (auto simp: grow_def logs_grow_def)
    then have "dn \<longrightarrow> pulled_from N me c i schema (src # srcs) L L' w'" using i(4) unfolding pulled_from_def by (meson list.set_intros(2))
    then show ?thesis using r(1) Inl i(1,2) grow_trans [OF r(3) i(3)] by auto
  next
    case (Inr n)
    have "pulled_from N me c i schema (src # srcs) L L1 w1" unfolding pulled_from_def
      by (intro exI [of _ src] exI [of _ w] exI [of _ n]) (use r(1,4) Inr in simp)
    then show ?thesis using r(1,3) Inr data_ok_mono [OF d, of 0] by auto
  qed
qed

lemma pulled_from_grow: "pulled_from N me c i schema srcs L L' w' \<Longrightarrow> grow L0 L \<Longrightarrow> grow L' L'' \<Longrightarrow> pulled_from N me c i schema srcs L0 L'' w'"
  unfolding pulled_from_def grow_def logs_grow_def by meson

section \<open>Properties\<close>


text \<open>A Raft that commits shard states only, to the metadata of all nodes at once.\<close>

fun sync_write :: "node_id \<Rightarrow> meta_request \<Rightarrow> world \<Rightarrow> (string + meta_response) \<times> world" where
  "sync_write me (SetShardState c i n st) w =
     (case meta_apply (SetShardState c i n st) (nd_cluster (w_nodes w me)) of (resp, m) \<Rightarrow>
       (Inr resp, w\<lparr>w_nodes := (\<lambda>n. (w_nodes w n)\<lparr>nd_cluster := m\<rparr>)\<rparr>))"
| "sync_write me req w = (Inl ''refused'', w)"

definition sync_raft :: raft where
  "sync_raft = solo_raft\<lparr>rf_client_write := sync_write\<rparr>"

definition demo_metas :: "(node_id \<Rightarrow> meta_state) set" where
  "demo_metas = {M. \<forall>n. ms_collections (M n) = ms_collections demo_meta}"

lemma sync_raft_keeps: "raft_keeps sync_raft N D G demo_metas"
  unfolding raft_keeps_def
proof (intro allI impI)
  fix n req b L w
  assume w: "data_ok N D G demo_metas b L w"
  show "\<exists>L'. data_ok N D G demo_metas b L' (snd (rf_client_write sync_raft n req w)) \<and> grow L L'"
  proof (cases "\<exists>c i m st. req = SetShardState c i m st")
    case False
    then have "snd (rf_client_write sync_raft n req w) = w" by (cases req) (simp_all add: sync_raft_def)
    then show ?thesis using w by auto
  next
    case True
    let ?m = "snd (meta_apply req (nd_cluster (w_nodes w n)))" and ?w = "snd (rf_client_write sync_raft n req w)"
    have e: "?w = w\<lparr>w_nodes := (\<lambda>k. (w_nodes w k)\<lparr>nd_cluster := ?m\<rparr>)\<rparr>" using True by (auto simp: sync_raft_def)
    obtain M cs where M: "M \<in> demo_metas" "list_all2 (\<lambda>c e. rely N D G M c (ev_between e)) cs (w_events w)"
        "nodes_ok N D G M (b + sum_list cs) L (w_nodes w)" using w by (auto simp: data_ok_def world_ok_def)
    have "nd_cluster (w_nodes w k) = M k" for k using M(3) by (simp add: nodes_ok_def)
    then have coll: "ms_collections ?m = ms_collections (nd_cluster (w_nodes w k))" for k
      using True M(1) by (auto simp: demo_metas_def)
    then have "(\<lambda>_. ?m) \<in> demo_metas" using M(1) \<open>\<And>k. nd_cluster (w_nodes w k) = M k\<close> by (auto simp: demo_metas_def)
    moreover have "nodes_ok N D G (\<lambda>_. ?m) (b + sum_list cs) L (\<lambda>k. (w_nodes w k)\<lparr>nd_cluster := ?m\<rparr>)"
      using M(3) coll unfolding nodes_ok_def node_ok_def by simp
    moreover have "list_all2 (\<lambda>c e. rely N D G (\<lambda>_. ?m) c (ev_between e)) cs (w_events w)"
    proof (rule list.rel_mono_strong [OF M(2)])
      fix c e
      assume "e \<in> set (w_events w)" "rely N D G M c (ev_between e)"
      then show "rely N D G (\<lambda>_. ?m) c (ev_between e)" using w M(1) calculation(1) unfolding data_ok_def by blast
    qed
    ultimately have "world_ok N D G (\<lambda>_. ?m) b L ?w" unfolding e world_ok_def by (intro exI [of _ cs]) simp
    moreover have "shrinks w ?w" unfolding e by (simp add: shrinks_def)
    ultimately have "data_ok N D G demo_metas b L ?w" by (rule data_ok_shrinks [OF w \<open>(\<lambda>_. ?m) \<in> demo_metas\<close>])
    then show ?thesis using grow_simps by blast
  qed
qed

definition no_json :: meta_json where
  "no_json = \<lparr>mj_ser = (\<lambda>_. Inl ''unsupported''), mj_de = (\<lambda>_. Inl ''unsupported'')\<rparr>"

lemma demo_sources: "pull_sources (nt_hash demo_net) 1 demo_meta [99] 0 = [[2], [3]]"
  unfolding demo_net_def by code_simp



definition moved_coll :: collection_schema where
  "moved_coll = demo_coll\<lparr>cs_replication_n := 1\<rparr>"

definition moved_meta :: meta_state where
  "moved_meta = \<lparr>ms_nodes = [(1, [1]), (2, [2])], ms_collections = [([99], moved_coll)], ms_shard_states = []\<rparr>"

lemma moved_home: "meta_replicas_for_shard (\<lambda>_ _. 0) moved_meta [99] 0 = [1]"
  by code_simp


end
