(* ===== verification/Raft_Network.thy ===== *)
theory Raft_Network
  imports Manager
begin

text \<open>
  The transport of the Raft messages: the client side that openraft calls
  (\<open>qv-cluster/src/raft/network.rs\<close>) and the receiving side (\<open>raft_rpc\<close> of
  \<open>qv-node/src/internal_service.rs\<close>, \<open>handle_raft_rpc\<close> of \<open>qv-cluster/src/manager.rs\<close>).  The
  messages and what a Raft instance does with them are openraft's, their encoding is serde_json's.
\<close>

section \<open>Kinds and codecs\<close>

datatype rpc_kind = KUnspecified | KVote | KAppend | KSnapshot

fun kind_to_i32 :: "rpc_kind \<Rightarrow> int" where
  "kind_to_i32 KUnspecified = 0"
| "kind_to_i32 KVote = 1"
| "kind_to_i32 KAppend = 2"
| "kind_to_i32 KSnapshot = 3"

text \<open>\<open>RaftRpcKind::try_from(k).unwrap_or(Unspecified)\<close>.\<close>

definition kind_from_i32 :: "int \<Rightarrow> rpc_kind" where
  "kind_from_i32 k = (if k = 1 then KVote else if k = 2 then KAppend else if k = 3 then KSnapshot else KUnspecified)"

lemma kind_round_trip [simp]: "kind_from_i32 (kind_to_i32 k) = k"
  by (cases k) (simp_all add: kind_from_i32_def)

text \<open>The encodings of a request and of the result of serving it.\<close>

record ('q, 'r, 'e) codec =
  cd_enc_req :: "'q \<Rightarrow> string + bytes"
  cd_dec_req :: "bytes \<Rightarrow> string + 'q"
  cd_enc_res :: "'e + 'r \<Rightarrow> string + bytes"
  cd_dec_res :: "bytes \<Rightarrow> string + ('e + 'r)"

definition codec_ok :: "('q, 'r, 'e) codec \<Rightarrow> bool" where
  "codec_ok C \<longleftrightarrow> (\<forall>q bs. cd_enc_req C q = Inr bs \<longrightarrow> cd_dec_req C bs = Inr q) \<and>
     (\<forall>r. \<exists>bs. cd_enc_res C r = Inr bs \<and> cd_dec_res C bs = Inr r)"

text \<open>A Raft instance serves three kinds of requests.\<close>

record ('vq, 'vr, 've, 'aq, 'ar, 'ae, 'sq, 'sr, 'se) raft_server =
  rs_vote_codec :: "('vq, 'vr, 've) codec"
  rs_append_codec :: "('aq, 'ar, 'ae) codec"
  rs_snapshot_codec :: "('sq, 'sr, 'se) codec"
  rs_vote :: "node_id \<Rightarrow> 'vq \<Rightarrow> world \<Rightarrow> ('ve + 'vr) \<times> world"
  rs_append_entries :: "node_id \<Rightarrow> 'aq \<Rightarrow> world \<Rightarrow> ('ae + 'ar) \<times> world"
  rs_install_snapshot :: "node_id \<Rightarrow> 'sq \<Rightarrow> world \<Rightarrow> ('se + 'sr) \<times> world"

section \<open>The receiving side\<close>

text \<open>Decode (\<open>de\<close>), run, encode (\<open>ser\<close>).\<close>

definition serve_rpc ::
  "('q, 'r, 'e) codec \<Rightarrow> ('q \<Rightarrow> world \<Rightarrow> ('e + 'r) \<times> world) \<Rightarrow> bytes \<Rightarrow> world \<Rightarrow> (manager_error + bytes) \<times> world" where
  "serve_rpc C run payload w =
     (case cd_dec_req C payload of
        Inl e \<Rightarrow> (Inl (MSerde e), w)
      | Inr req \<Rightarrow> (case run req w of (res, w) \<Rightarrow> (map_sum MSerde id (cd_enc_res C res), w)))"

definition handle_raft_rpc ::
  "('vq, 'vr, 've, 'aq, 'ar, 'ae, 'sq, 'sr, 'se) raft_server \<Rightarrow> node_id \<Rightarrow> int \<Rightarrow> bytes \<Rightarrow> world \<Rightarrow> (manager_error + bytes) \<times> world" where
  "handle_raft_rpc S me kind payload w =
     (case kind_from_i32 kind of
        KVote \<Rightarrow> serve_rpc (rs_vote_codec S) (rs_vote S me) payload w
      | KAppend \<Rightarrow> serve_rpc (rs_append_codec S) (rs_append_entries S me) payload w
      | KSnapshot \<Rightarrow> serve_rpc (rs_snapshot_codec S) (rs_install_snapshot S me) payload w
      | KUnspecified \<Rightarrow> (Inl (MInvalid ''unspecified raft rpc kind''), w))"

section \<open>The sending side\<close>

text \<open>openraft's \<open>RPCError\<close>: the peer could not be reached, a codec failed, or the peer returned an
  error.\<close>

datatype 'e rpc_error = RpcUnreachable | RpcNetwork string | RpcRemote node_id 'e

record raft_connection =
  rcn_target :: node_id
  rcn_addr :: str

definition new_client :: "node_id \<Rightarrow> str \<Rightarrow> raft_connection" where
  "new_client target addr = \<lparr>rcn_target = target, rcn_addr = addr\<rparr>"

text \<open>Connect and send one envelope; every failure, an error status included, is \<open>Unreachable\<close>.\<close>

definition raft_call ::
  "net \<Rightarrow> (node_id \<Rightarrow> int \<Rightarrow> bytes \<Rightarrow> world \<Rightarrow> (manager_error + bytes) \<times> world) \<Rightarrow> raft_connection \<Rightarrow> rpc_kind \<Rightarrow> bytes \<Rightarrow>
   world \<Rightarrow> bytes option \<times> world" where
  "raft_call N handler cn kind payload w =
     (case next_event w of (ev, w) \<Rightarrow>
      case (if ev_outcome ev = Unreachable then None else nt_at N (rcn_addr cn)) of
        None \<Rightarrow> (None, w)
      | Some n \<Rightarrow> (case handler n (kind_to_i32 kind) payload w of
          (Inr bs, w) \<Rightarrow> (if ev_outcome ev = ReplyLost then None else Some bs, w)
        | (Inl _, w) \<Rightarrow> (None, w)))"

definition send_rpc ::
  "net \<Rightarrow> (node_id \<Rightarrow> int \<Rightarrow> bytes \<Rightarrow> world \<Rightarrow> (manager_error + bytes) \<times> world) \<Rightarrow> ('q, 'r, 'e) codec \<Rightarrow> rpc_kind \<Rightarrow>
   raft_connection \<Rightarrow> 'q \<Rightarrow> world \<Rightarrow> ('e rpc_error + 'r) \<times> world" where
  "send_rpc N handler C kind cn req w =
     (case cd_enc_req C req of
        Inl e \<Rightarrow> (Inl (RpcNetwork e), w)
      | Inr payload \<Rightarrow> (case raft_call N handler cn kind payload w of
          (None, w) \<Rightarrow> (Inl RpcUnreachable, w)
        | (Some bs, w) \<Rightarrow> (case cd_dec_res C bs of
            Inl e \<Rightarrow> (Inl (RpcNetwork e), w)
          | Inr res \<Rightarrow> (map_sum (RpcRemote (rcn_target cn)) id res, w))))"

definition net_append_entries ::
  "net \<Rightarrow> ('vq, 'vr, 've, 'aq, 'ar, 'ae, 'sq, 'sr, 'se) raft_server \<Rightarrow> raft_connection \<Rightarrow> 'aq \<Rightarrow> world \<Rightarrow> ('ae rpc_error + 'ar) \<times> world" where
  "net_append_entries N S = send_rpc N (handle_raft_rpc S) (rs_append_codec S) KAppend"

definition net_install_snapshot ::
  "net \<Rightarrow> ('vq, 'vr, 've, 'aq, 'ar, 'ae, 'sq, 'sr, 'se) raft_server \<Rightarrow> raft_connection \<Rightarrow> 'sq \<Rightarrow> world \<Rightarrow> ('se rpc_error + 'sr) \<times> world" where
  "net_install_snapshot N S = send_rpc N (handle_raft_rpc S) (rs_snapshot_codec S) KSnapshot"

definition net_vote ::
  "net \<Rightarrow> ('vq, 'vr, 've, 'aq, 'ar, 'ae, 'sq, 'sr, 'se) raft_server \<Rightarrow> raft_connection \<Rightarrow> 'vq \<Rightarrow> world \<Rightarrow> ('ve rpc_error + 'vr) \<times> world" where
  "net_vote N S = send_rpc N (handle_raft_rpc S) (rs_vote_codec S) KVote"

section \<open>The transport is transparent\<close>

text \<open>What a call of a peer's Raft looks like to the caller: the world moves to the next event; the
  request does not arrive, or it is served by the node at that address and the answer arrives or
  not.\<close>

definition direct_call ::
  "net \<Rightarrow> (node_id \<Rightarrow> 'q \<Rightarrow> world \<Rightarrow> ('e + 'r) \<times> world) \<Rightarrow> raft_connection \<Rightarrow> 'q \<Rightarrow> world \<Rightarrow> ('e rpc_error + 'r) \<times> world" where
  "direct_call N run cn req w =
     (case next_event w of (ev, w) \<Rightarrow>
      case (if ev_outcome ev = Unreachable then None else nt_at N (rcn_addr cn)) of
        None \<Rightarrow> (Inl RpcUnreachable, w)
      | Some n \<Rightarrow> (case run n req w of (res, w) \<Rightarrow>
          (if ev_outcome ev = ReplyLost then Inl RpcUnreachable else map_sum (RpcRemote (rcn_target cn)) id res, w)))"

lemma send_rpc_direct:
  assumes "codec_ok C" "cd_enc_req C req = Inr bs" "\<And>n p w. handler n (kind_to_i32 kind) p w = serve_rpc C (run n) p w"
  shows "send_rpc N handler C kind cn req w = direct_call N run cn req w"
proof -
  have d: "cd_dec_req C bs = Inr req" using assms(1,2) by (simp add: codec_ok_def)
  obtain ev w1 where ev: "next_event w = (ev, w1)" by fastforce
  show ?thesis
  proof (cases "if ev_outcome ev = Unreachable then None else nt_at N (rcn_addr cn)")
    case None
    then show ?thesis using assms(2) ev by (simp add: send_rpc_def raft_call_def direct_call_def)
  next
    case (Some n)
    obtain res w2 where run: "run n req w1 = (res, w2)" by fastforce
    obtain out where out: "cd_enc_res C res = Inr out" "cd_dec_res C out = Inr res" using assms(1) unfolding codec_ok_def by blast
    have "handler n (kind_to_i32 kind) bs w1 = (Inr out, w2)" using assms(3) d run out(1) by (simp add: serve_rpc_def)
    then show ?thesis using assms(2) ev Some run out(2) by (simp add: send_rpc_def raft_call_def direct_call_def)
  qed
qed

text \<open>The transport adds nothing of its own: with codecs that round-trip, sending a vote, append or
  snapshot request that can be encoded is a call of that operation, and of no other, of the Raft
  instance at the peer's address, with its result or error handed to the caller and every loss
  reported as unreachable.  An envelope of an unknown kind is refused without any effect.\<close>

theorem raft_transport_transparent:
  assumes "codec_ok (rs_vote_codec S)" "codec_ok (rs_append_codec S)" "codec_ok (rs_snapshot_codec S)"
    and "cd_enc_req (rs_vote_codec S) vq = Inr b1" "cd_enc_req (rs_append_codec S) aq = Inr b2" "cd_enc_req (rs_snapshot_codec S) sq = Inr b3"
  shows "net_vote N S cn vq w = direct_call N (rs_vote S) cn vq w \<and>
    net_append_entries N S cn aq w = direct_call N (rs_append_entries S) cn aq w \<and>
    net_install_snapshot N S cn sq w = direct_call N (rs_install_snapshot S) cn sq w \<and>
    (k \<notin> {1, 2, 3} \<longrightarrow> handle_raft_rpc S me k p w = (Inl (MInvalid ''unspecified raft rpc kind''), w))"
proof (intro conjI)
  show "net_vote N S cn vq w = direct_call N (rs_vote S) cn vq w"
    unfolding net_vote_def by (rule send_rpc_direct [OF assms(1,4)]) (simp add: handle_raft_rpc_def kind_from_i32_def)
  show "net_append_entries N S cn aq w = direct_call N (rs_append_entries S) cn aq w"
    unfolding net_append_entries_def by (rule send_rpc_direct [OF assms(2,5)]) (simp add: handle_raft_rpc_def kind_from_i32_def)
  show "net_install_snapshot N S cn sq w = direct_call N (rs_install_snapshot S) cn sq w"
    unfolding net_install_snapshot_def by (rule send_rpc_direct [OF assms(3,6)]) (simp add: handle_raft_rpc_def kind_from_i32_def)
  show "k \<notin> {1, 2, 3} \<longrightarrow> handle_raft_rpc S me k p w = (Inl (MInvalid ''unspecified raft rpc kind''), w)"
    by (simp add: handle_raft_rpc_def kind_from_i32_def)
qed

text \<open>One-byte messages, and a Raft that grants every vote below 3.\<close>

definition byte_codec :: "(byte, byte, byte) codec" where
  "byte_codec = \<lparr>cd_enc_req = (\<lambda>q. Inr [q]), cd_dec_req = (\<lambda>bs. Inr (hd bs)),
     cd_enc_res = (\<lambda>r. Inr (case r of Inl e \<Rightarrow> [0, e] | Inr x \<Rightarrow> [1, x])),
     cd_dec_res = (\<lambda>bs. Inr (if hd bs = 0 then Inl (bs ! 1) else Inr (bs ! 1)))\<rparr>"

definition byte_server :: "(byte, byte, byte, byte, byte, byte, byte, byte, byte) raft_server" where
  "byte_server = \<lparr>rs_vote_codec = byte_codec, rs_append_codec = byte_codec, rs_snapshot_codec = byte_codec,
     rs_vote = (\<lambda>n q w. (if q < 3 then Inr q else Inl q, w)), rs_append_entries = (\<lambda>n q w. (Inr 7, w)), rs_install_snapshot = (\<lambda>n q w. (Inl 9, w))\<rparr>"

theorem raft_transport_transparent_witness:
  "\<exists>N w. net_vote N byte_server (new_client 2 [2]) 1 w = (Inr 1, w) \<and> net_vote N byte_server (new_client 2 [2]) 5 w = (Inl (RpcRemote 2 5), w)"
proof -
  let ?N = "\<lparr>nt_env = undefined, nt_hash = undefined, nt_at = (\<lambda>a. if a = [2] then Some 2 else None)\<rparr>"
  let ?w = "\<lparr>w_nodes = undefined, w_events = [], w_times = [], w_spawned = []\<rparr>"
  have ok: "codec_ok byte_codec" by (auto simp: codec_ok_def byte_codec_def split: sum.split)
  have enc: "cd_enc_req byte_codec q = Inr [q]" for q by (simp add: byte_codec_def)
  have S: "codec_ok (rs_vote_codec byte_server)" "codec_ok (rs_append_codec byte_server)" "codec_ok (rs_snapshot_codec byte_server)"
    "\<And>q. cd_enc_req (rs_vote_codec byte_server) q = Inr [q]" "\<And>q. cd_enc_req (rs_append_codec byte_server) q = Inr [q]"
    "\<And>q. cd_enc_req (rs_snapshot_codec byte_server) q = Inr [q]" by (simp_all add: byte_server_def ok enc)
  have "net_vote ?N byte_server (new_client 2 [2]) q ?w = direct_call ?N (rs_vote byte_server) (new_client 2 [2]) q ?w" for q
    using raft_transport_transparent [OF S(1-3) S(4) [of q] S(5) [of q] S(6) [of q]] by blast
  then show ?thesis
    by (intro exI [of _ ?N] exI [of _ ?w])
      (simp add: direct_call_def next_event_def quiet_event_def new_client_def byte_server_def)
qed

end
