(* ===== verification/Socket_Addr.thy ===== *)
theory Socket_Addr
  imports QV_Prelude
begin

text \<open>
  \<open>std::net::SocketAddr\<close> as text: the parser \<open>from_str\<close> and \<open>Display\<close>, which the launch options and
  the configuration of a node go through.  The parser is recursive descent over bytes; a reader
  returns \<open>None\<close>, and then nothing is consumed, or a value and the rest.  An IPv6 address is printed
  with its first longest run of zero groups compressed.
\<close>

unbundle bit_operations_syntax

section \<open>Numerals\<close>

function radix_digits :: "int \<Rightarrow> int \<Rightarrow> int list" where
  "radix_digits r n = (if r < 2 \<or> n < r then [n] else radix_digits r (n div r) @ [n mod r])"
  by pat_completeness auto

termination
  by (relation "measure (\<lambda>(r, n). nat n)") (auto simp: int_div_less_self)

declare radix_digits.simps [simp del]

definition digit_char :: "int \<Rightarrow> byte" where
  "digit_char d = of_int (if d < 10 then 48 + d else 87 + d)"

definition num_bytes :: "int \<Rightarrow> int \<Rightarrow> bytes" where
  "num_bytes r n = map digit_char (radix_digits r n)"

text \<open>\<open>char::to_digit\<close>.\<close>

definition to_digit :: "int \<Rightarrow> byte \<Rightarrow> int option" where
  "to_digit r b =
     (let d = (if 48 \<le> b \<and> b \<le> 57 then uint b - 48
               else if 97 \<le> b \<and> b \<le> 122 then uint b - 87
               else if 65 \<le> b \<and> b \<le> 90 then uint b - 55 else r)
      in if d < r then Some d else None)"

definition number_value :: "int \<Rightarrow> bytes \<Rightarrow> int" where
  "number_value r bs = foldl (\<lambda>a b. a * r + the (to_digit r b)) 0 bs"

definition read_number :: "int \<Rightarrow> nat option \<Rightarrow> bool \<Rightarrow> int \<Rightarrow> bytes \<Rightarrow> (int \<times> bytes) option" where
  "read_number r max_digits zero_prefix bound s =
     (let ds = takeWhile (\<lambda>b. to_digit r b \<noteq> None) s; n = number_value r ds in
      if ds = [] \<or> (case max_digits of Some m \<Rightarrow> m < length ds | None \<Rightarrow> False)
        \<or> (\<not> zero_prefix \<and> hd ds = 48 \<and> 1 < length ds) \<or> bound \<le> n then None
      else Some (n, dropWhile (\<lambda>b. to_digit r b \<noteq> None) s))"

section \<open>Addresses\<close>

text \<open>The octets or the groups of the address, for IPv6 the scope id, and the port.  Text carries no
  flow label.\<close>

datatype socket_addr = AddrV4 "u8 list" u16 | AddrV6 "u16 list" u32 u16

fun addr_ok :: "socket_addr \<Rightarrow> bool" where
  "addr_ok (AddrV4 ip port) \<longleftrightarrow> length ip = 4"
| "addr_ok (AddrV6 ip scope port) \<longleftrightarrow> length ip = 8"

section \<open>Display\<close>

fun join :: "byte \<Rightarrow> bytes list \<Rightarrow> bytes" where
  "join c [] = []"
| "join c (x # xs) = x @ concat (map ((#) c) xs)"

definition print_ipv4 :: "u8 list \<Rightarrow> bytes" where
  "print_ipv4 ip = join 46 (map (\<lambda>b. num_bytes 10 (uint b)) ip)"

definition fmt_subslice :: "u16 list \<Rightarrow> bytes" where
  "fmt_subslice chunk = join 58 (map (\<lambda>g. num_bytes 16 (uint g)) chunk)"

text \<open>The first longest run of zeroes: its start and length.\<close>

fun zero_span :: "nat \<Rightarrow> u16 list \<Rightarrow> nat \<times> nat \<Rightarrow> nat \<times> nat \<Rightarrow> nat \<times> nat" where
  "zero_span i [] longest current = longest"
| "zero_span i (g # gs) longest current =
     (if g = 0 then
        let current = (if snd current = 0 then i else fst current, snd current + 1)
        in zero_span (i + 1) gs (if snd current > snd longest then current else longest) current
      else zero_span (i + 1) gs longest (0, 0))"

definition high_byte :: "u16 \<Rightarrow> u8" where
  "high_byte g = ucast (drop_bit 8 g)"

definition low_byte :: "u16 \<Rightarrow> u8" where
  "low_byte g = ucast g"

definition print_ipv6 :: "u16 list \<Rightarrow> bytes" where
  "print_ipv6 ip =
     (if take 6 ip = [0, 0, 0, 0, 0, 0xFFFF] then
        [58, 58, 102, 102, 102, 102, 58] @ print_ipv4 (concat (map (\<lambda>g. [high_byte g, low_byte g]) (drop 6 ip)))
      else let (start, len) = zero_span 0 ip (0, 0) (0, 0)
        in if len > 1 then fmt_subslice (take start ip) @ [58, 58] @ fmt_subslice (drop (start + len) ip)
           else fmt_subslice ip)"

fun print_addr :: "socket_addr \<Rightarrow> bytes" where
  "print_addr (AddrV4 ip port) = print_ipv4 ip @ 58 # num_bytes 10 (uint port)"
| "print_addr (AddrV6 ip scope port) =
     91 # print_ipv6 ip @ (if scope = 0 then [] else 37 # num_bytes 10 (uint scope)) @ [93, 58] @ num_bytes 10 (uint port)"

section \<open>Parser\<close>

definition read_given_char :: "byte \<Rightarrow> bytes \<Rightarrow> bytes option" where
  "read_given_char c s = (case s of b # s \<Rightarrow> if b = c then Some s else None | [] \<Rightarrow> None)"

definition read_separator :: "byte \<Rightarrow> nat \<Rightarrow> (bytes \<Rightarrow> 'a option) \<Rightarrow> bytes \<Rightarrow> 'a option" where
  "read_separator c index inner s =
     (if index > 0 then case read_given_char c s of None \<Rightarrow> None | Some s \<Rightarrow> inner s else inner s)"

fun read_octets :: "nat \<Rightarrow> nat \<Rightarrow> bytes \<Rightarrow> (u8 list \<times> bytes) option" where
  "read_octets i 0 s = Some ([], s)"
| "read_octets i (Suc n) s =
     (case read_separator 46 i (read_number 10 (Some 3) False 256) s of
        None \<Rightarrow> None
      | Some (x, s) \<Rightarrow> map_option (\<lambda>(xs, s). (of_int x # xs, s)) (read_octets (Suc i) n s))"

definition read_ipv4 :: "bytes \<Rightarrow> (u8 list \<times> bytes) option" where
  "read_ipv4 s = read_octets 0 4 s"

definition be16 :: "u8 \<Rightarrow> u8 \<Rightarrow> u16" where
  "be16 a b = push_bit 8 (ucast a) OR ucast b"

text \<open>The groups read, whether they end in an embedded IPv4 address, and the rest; the index of the
  next group and how many more there may be.\<close>

fun read_groups :: "nat \<Rightarrow> nat \<Rightarrow> bytes \<Rightarrow> u16 list \<times> bool \<times> bytes" where
  "read_groups i 0 s = ([], False, s)"
| "read_groups i (Suc n) s =
     (case (if n > 0 then read_separator 58 i read_ipv4 s else None) of
        Some (ip, s) \<Rightarrow> ([be16 (ip ! 0) (ip ! 1), be16 (ip ! 2) (ip ! 3)], True, s)
      | None \<Rightarrow>
          (case read_separator 58 i (read_number 16 (Some 4) True 65536) s of
             None \<Rightarrow> ([], False, s)
           | Some (g, s) \<Rightarrow> (case read_groups (Suc i) n s of (gs, v4, s) \<Rightarrow> (of_int g # gs, v4, s))))"

definition read_ipv6 :: "bytes \<Rightarrow> (u16 list \<times> bytes) option" where
  "read_ipv6 s =
     (case read_groups 0 8 s of (head, head_ipv4, s) \<Rightarrow>
        if length head = 8 then Some (head, s)
        else if head_ipv4 then None
        else case Option.bind (read_given_char 58 s) (read_given_char 58) of
          None \<Rightarrow> None
        | Some s \<Rightarrow> (case read_groups 0 (8 - (length head + 1)) s of (tail, _, s) \<Rightarrow>
            Some (head @ replicate (8 - length head - length tail) 0 @ tail, s)))"

definition read_port :: "bytes \<Rightarrow> (u16 \<times> bytes) option" where
  "read_port s = (case read_given_char 58 s of
     None \<Rightarrow> None
   | Some s \<Rightarrow> map_option (\<lambda>(n, s). (of_int n, s)) (read_number 10 None True 65536 s))"

definition read_scope_id :: "bytes \<Rightarrow> (u32 \<times> bytes) option" where
  "read_scope_id s = (case read_given_char 37 s of
     None \<Rightarrow> None
   | Some s \<Rightarrow> map_option (\<lambda>(n, s). (of_int n, s)) (read_number 10 None True (2 ^ 32) s))"

definition read_addr_v4 :: "bytes \<Rightarrow> (socket_addr \<times> bytes) option" where
  "read_addr_v4 s = (case read_ipv4 s of
     None \<Rightarrow> None
   | Some (ip, s) \<Rightarrow> map_option (\<lambda>(port, s). (AddrV4 ip port, s)) (read_port s))"

definition read_addr_v6 :: "bytes \<Rightarrow> (socket_addr \<times> bytes) option" where
  "read_addr_v6 s =
     (case read_given_char 91 s of None \<Rightarrow> None | Some s \<Rightarrow>
      case read_ipv6 s of None \<Rightarrow> None | Some (ip, s) \<Rightarrow>
      case (case read_scope_id s of None \<Rightarrow> (0, s) | Some x \<Rightarrow> x) of (scope, s) \<Rightarrow>
      case read_given_char 93 s of None \<Rightarrow> None | Some s \<Rightarrow>
      map_option (\<lambda>(port, s). (AddrV6 ip scope port, s)) (read_port s))"

definition parse_addr :: "bytes \<Rightarrow> socket_addr option" where
  "parse_addr s =
     (case (case read_addr_v4 s of None \<Rightarrow> read_addr_v6 s | Some x \<Rightarrow> Some x) of
        Some (a, []) \<Rightarrow> Some a
      | _ \<Rightarrow> None)"

section \<open>Numerals read back\<close>

lemma radix_digits_range: "1 < r \<Longrightarrow> 0 \<le> n \<Longrightarrow> d \<in> set (radix_digits r n) \<Longrightarrow> 0 \<le> d \<and> d < r"
proof (induction r n rule: radix_digits.induct)
  case (1 r n)
  then show ?case
    by (cases "n < r") (auto simp: radix_digits.simps [of r n] pos_imp_zdiv_nonneg_iff)
qed

lemma radix_digits_neq_Nil [simp]: "radix_digits r n \<noteq> []"
  by (simp add: radix_digits.simps [of r n])

lemma radix_digits_value: "foldl (\<lambda>a d. a * r + d) 0 (radix_digits r n) = n"
proof (induction r n rule: radix_digits.induct)
  case (1 r n)
  then show ?case by (cases "r < 2 \<or> n < r") (simp_all add: radix_digits.simps [of r n])
qed

lemma radix_digits_hd: "1 < r \<Longrightarrow> 0 < n \<Longrightarrow> 0 < hd (radix_digits r n)"
proof (induction r n rule: radix_digits.induct)
  case (1 r n)
  then show ?case by (cases "n < r") (simp_all add: radix_digits.simps [of r n] pos_imp_zdiv_pos_iff)
qed

lemma radix_digits_length: "1 < r \<Longrightarrow> n < r ^ k \<Longrightarrow> 0 < k \<Longrightarrow> length (radix_digits r n) \<le> k"
proof (induction k arbitrary: n)
  case (Suc k)
  show ?case
  proof (cases "n < r")
    case False
    then have "k \<noteq> 0" using Suc.prems by (intro notI) simp
    moreover have "n div r < r ^ k"
    proof (rule ccontr)
      assume "\<not> n div r < r ^ k"
      then have "r * r ^ k \<le> r * (n div r)" using Suc.prems(1) by simp
      moreover have "r * (n div r) \<le> n" using Suc.prems(1) pos_mod_sign [of r n] mult_div_mod_eq [of r n] by linarith
      ultimately show False using Suc.prems(2) by simp
    qed
    ultimately have "length (radix_digits r (n div r)) \<le> k" using Suc.IH Suc.prems(1) by simp
    then show ?thesis using False Suc.prems(1) by (simp add: radix_digits.simps [of r n])
  qed (use Suc.prems(1) in \<open>simp add: radix_digits.simps [of r n]\<close>)
qed simp

lemma to_digit_char:
  assumes "0 \<le> d" "d < r" "r \<le> 16"
  shows "to_digit r (digit_char d) = Some d"
proof -
  have "d = 0 \<or> d = 1 \<or> d = 2 \<or> d = 3 \<or> d = 4 \<or> d = 5 \<or> d = 6 \<or> d = 7 \<or> d = 8 \<or> d = 9 \<or> d = 10 \<or> d = 11 \<or> d = 12 \<or> d = 13 \<or> d = 14 \<or> d = 15"
    using assms by presburger
  then show ?thesis using assms(2) by (elim disjE) (simp_all add: to_digit_def digit_char_def Let_def)
qed

lemma digit_char_zero: "0 \<le> d \<Longrightarrow> d < 16 \<Longrightarrow> digit_char d = 48 \<longleftrightarrow> d = 0"
proof -
  assume "0 \<le> d" "d < 16"
  moreover have "digit_char 0 = 48" by (simp add: digit_char_def)
  ultimately show ?thesis using to_digit_char [of d 16] to_digit_char [of 0 16] by force
qed

lemma num_bytes_digits: "1 < r \<Longrightarrow> r \<le> 16 \<Longrightarrow> 0 \<le> n \<Longrightarrow> b \<in> set (num_bytes r n) \<Longrightarrow> to_digit r b \<noteq> None"
  using radix_digits_range [of r n] by (auto simp: num_bytes_def to_digit_char)

lemma num_bytes_value:
  assumes "1 < r" "r \<le> 16" "0 \<le> n"
  shows "number_value r (num_bytes r n) = n"
proof -
  have "foldl (\<lambda>a b. a * r + the (to_digit r b)) a (map digit_char ds) = foldl (\<lambda>a d. a * r + d) a ds" if "\<forall>d \<in> set ds. 0 \<le> d \<and> d < r" for a ds
    using that by (induction ds arbitrary: a) (simp_all add: to_digit_char assms(2))
  then show ?thesis using radix_digits_range [OF assms(1,3)] by (simp add: number_value_def num_bytes_def radix_digits_value)
qed

text \<open>What may follow a number.\<close>

abbreviation ends_number :: "int \<Rightarrow> bytes \<Rightarrow> bool" where
  "ends_number r rest \<equiv> (case rest of [] \<Rightarrow> True | b # _ \<Rightarrow> to_digit r b = None)"

lemma digits_then:
  assumes "\<And>b. b \<in> set ds \<Longrightarrow> to_digit r b \<noteq> None" "ends_number r rest"
  shows "takeWhile (\<lambda>b. to_digit r b \<noteq> None) (ds @ rest) = ds" "dropWhile (\<lambda>b. to_digit r b \<noteq> None) (ds @ rest) = rest"
  using assms by (simp_all add: takeWhile_append2 dropWhile_append2 split: list.splits)

lemma read_number_print:
  assumes r: "1 < r" "r \<le> 16" and n: "0 \<le> n" "n < bound" and rest: "ends_number r rest"
    and m: "case mx of None \<Rightarrow> True | Some m \<Rightarrow> 0 < m \<and> n < r ^ m"
  shows "read_number r mx z bound (num_bytes r n @ rest) = Some (n, rest)"
proof -
  have "hd (num_bytes r n) \<noteq> 48 \<or> length (num_bytes r n) = 1"
  proof (cases "n = 0")
    case False
    then have "0 < hd (radix_digits r n)" "hd (radix_digits r n) < r"
      using radix_digits_hd [OF r(1)] radix_digits_range [OF r(1) n(1), of "hd (radix_digits r n)"] n(1) by simp_all
    then show ?thesis using r(2) by (simp add: num_bytes_def hd_map digit_char_zero)
  qed (use r(1) in \<open>simp add: num_bytes_def radix_digits.simps [of r 0]\<close>)
  moreover have "num_bytes r n \<noteq> []" by (simp add: num_bytes_def)
  moreover have "case mx of None \<Rightarrow> True | Some m \<Rightarrow> length (num_bytes r n) \<le> m"
    using m radix_digits_length [OF r(1)] by (auto simp: num_bytes_def split: option.split)
  ultimately show ?thesis
    using n(2) num_bytes_value [OF r n(1)] digits_then [OF num_bytes_digits [OF r n(1)] rest]
    by (auto simp: read_number_def Let_def split: option.splits)
qed

lemma read_number_None: "ends_number r s \<Longrightarrow> read_number r mx z bound s = None"
  by (cases s) (simp_all add: read_number_def)

section \<open>Addresses read back\<close>

lemma not_digit [simp]:
  "to_digit 10 46 = None" "to_digit 10 58 = None" "to_digit 16 46 = None" "to_digit 16 58 = None" "to_digit 16 93 = None" "to_digit 16 37 = None"
  "to_digit 10 93 = None" "to_digit 10 91 = None"
  by (simp_all add: to_digit_def Let_def)

lemma dec_is_hex: "to_digit 16 b = None \<Longrightarrow> to_digit 10 b = None"
  by (auto simp: to_digit_def Let_def word_le_def split: if_splits)

lemma read_octets_print:
  assumes "ends_number 10 rest"
  shows "read_octets (Suc i) (length ip) (concat (map (\<lambda>b. 46 # num_bytes 10 (uint b)) ip) @ rest) = Some (ip, rest)"
proof (induction ip arbitrary: i)
  case (Cons b ip)
  have "ends_number 10 (concat (map (\<lambda>b. 46 # num_bytes 10 (uint b)) ip) @ rest)" using assms by (cases ip) simp_all
  then have "read_number 10 (Some 3) False 256 (num_bytes 10 (uint b) @ concat (map (\<lambda>b. 46 # num_bytes 10 (uint b)) ip) @ rest) =
      Some (uint b, concat (map (\<lambda>b. 46 # num_bytes 10 (uint b)) ip) @ rest)"
    using uint_lt2p [of b] by (intro read_number_print) simp_all
  then show ?case using Cons.IH by (simp add: read_separator_def read_given_char_def)
qed simp

lemma read_ipv4_print:
  assumes "length ip = 4" "ends_number 10 rest"
  shows "read_ipv4 (print_ipv4 ip @ rest) = Some (ip, rest)"
proof -
  obtain b bs where ip: "ip = b # bs" "length bs = 3" using assms(1) by (cases ip) auto
  let ?s = "concat (map (\<lambda>b. 46 # num_bytes 10 (uint b)) bs) @ rest"
  have "ends_number 10 ?s" using ip(2) by (cases bs) simp_all
  then have "read_number 10 (Some 3) False 256 (num_bytes 10 (uint b) @ ?s) = Some (uint b, ?s)"
    using uint_lt2p [of b] by (intro read_number_print) simp_all
  moreover have "read_octets (Suc 0) 3 ?s = Some (bs, rest)" using read_octets_print [OF assms(2), of 0 bs] ip(2) by simp
  ultimately show ?thesis
    by (simp add: read_ipv4_def print_ipv4_def ip(1) read_separator_def eval_nat_numeral comp_def del: read_octets.simps(1))
qed

lemma read_ipv4_None:
  assumes "read_given_char 46 (dropWhile (\<lambda>b. to_digit 10 b \<noteq> None) s) = None"
  shows "read_ipv4 s = None"
  using assms by (auto simp: read_ipv4_def eval_nat_numeral read_separator_def read_number_def Let_def split: option.splits)

text \<open>What may follow the groups of an address.\<close>

definition ends_groups :: "bytes \<Rightarrow> bool" where
  "ends_groups s = (case s of [] \<Rightarrow> True | c # r \<Rightarrow> to_digit 16 c = None \<and> c \<noteq> 46 \<and> (c = 58 \<longrightarrow> (\<exists>r'. r = 58 # r')))"

lemma group_no_ipv4:
  assumes "case t of [] \<Rightarrow> True | c # _ \<Rightarrow> to_digit 16 c = None \<and> c \<noteq> 46"
  shows "read_ipv4 (num_bytes 16 (uint g) @ t) = None"
proof (rule read_ipv4_None)
  let ?d = "\<lambda>b. to_digit 10 b \<noteq> None"
  have t: "dropWhile ?d t = t" using assms dec_is_hex by (cases t) auto
  show "read_given_char 46 (dropWhile ?d (num_bytes 16 (uint g) @ t)) = None"
  proof (cases "dropWhile ?d (num_bytes 16 (uint g))")
    case Nil
    then have "dropWhile ?d (num_bytes 16 (uint g) @ t) = t" using t by (simp add: dropWhile_append)
    then show ?thesis using assms by (simp add: read_given_char_def split: list.splits)
  next
    case (Cons b bs)
    then have "b \<in> set (num_bytes 16 (uint g))" by (metis list.set_intros(1) set_dropWhileD)
    then have "b \<noteq> 46" using num_bytes_digits [of 16 "uint g" b] by auto
    moreover have "dropWhile ?d (num_bytes 16 (uint g) @ t) = b # bs @ t"
      using Cons dropWhile_eq_Nil_conv [of ?d "num_bytes 16 (uint g)"] by (subst dropWhile_append) auto
    ultimately show ?thesis by (simp add: read_given_char_def)
  qed
qed

lemma read_group_print:
  assumes "case t of [] \<Rightarrow> True | c # _ \<Rightarrow> to_digit 16 c = None \<and> c \<noteq> 46"
  shows "read_number 16 (Some 4) True 65536 (num_bytes 16 (uint g) @ t) = Some (uint (g :: u16), t)"
  using assms uint_lt2p [of g] by (intro read_number_print) (simp_all split: list.splits)

lemma no_group:
  assumes "ends_groups s"
  shows "read_groups i n s = ([], False, s)"
proof (cases n)
  case (Suc m)
  have "read_ipv4 t = None \<and> read_number 16 (Some 4) True 65536 t = None" if "case t of [] \<Rightarrow> True | c # _ \<Rightarrow> to_digit 16 c = None \<and> c \<noteq> 46" for t
  proof -
    have "dropWhile (\<lambda>b. to_digit 10 b \<noteq> None) t = t" using that dec_is_hex by (cases t) auto
    then have "read_ipv4 t = None" using that by (intro read_ipv4_None) (simp add: read_given_char_def split: list.splits)
    moreover have "read_number 16 (Some 4) True 65536 t = None" using that by (intro read_number_None) (simp split: list.splits)
    ultimately show ?thesis by simp
  qed
  then show ?thesis
    using assms Suc by (auto simp: ends_groups_def read_separator_def read_given_char_def split: list.splits option.splits)
qed simp

lemma read_groups_tail:
  assumes "ends_groups rest"
  shows "length gs \<le> n \<Longrightarrow> read_groups (Suc i) n (concat (map (\<lambda>g. 58 # num_bytes 16 (uint g)) gs) @ rest) = (gs, False, rest)"
proof (induction gs arbitrary: i n)
  case (Cons g gs)
  let ?t = "concat (map (\<lambda>g. 58 # num_bytes 16 (uint g)) gs) @ rest"
  obtain m where n: "n = Suc m" "length gs \<le> m" using Cons.prems by (cases n) auto
  have t: "case ?t of [] \<Rightarrow> True | c # _ \<Rightarrow> to_digit 16 c = None \<and> c \<noteq> 46"
    using assms by (cases gs) (simp_all add: ends_groups_def split: list.splits)
  show ?case
    using Cons.IH [OF n(2)] group_no_ipv4 [OF t, of g] read_group_print [OF t, of g] n
    by (auto simp: read_separator_def read_given_char_def)
qed (simp add: no_group assms)

lemma read_groups_print:
  assumes "ends_groups rest" "length gs \<le> n"
  shows "read_groups 0 n (fmt_subslice gs @ rest) = (gs, False, rest)"
proof (cases gs)
  case Nil
  then show ?thesis using no_group [OF assms(1)] by (simp add: fmt_subslice_def)
next
  case (Cons g gs')
  let ?t = "concat (map (\<lambda>g. 58 # num_bytes 16 (uint g)) gs') @ rest"
  obtain m where n: "n = Suc m" "length gs' \<le> m" using assms(2) Cons by (cases n) auto
  have t: "case ?t of [] \<Rightarrow> True | c # _ \<Rightarrow> to_digit 16 c = None \<and> c \<noteq> 46"
    using assms(1) by (cases gs') (simp_all add: ends_groups_def split: list.splits)
  show ?thesis
    using read_groups_tail [OF assms(1) n(2), of 0] group_no_ipv4 [OF t, of g] read_group_print [OF t, of g] n Cons
    by (auto simp: read_separator_def fmt_subslice_def comp_def)
qed

text \<open>The compressed run holds zeroes only.\<close>

definition zero_run :: "u16 list \<Rightarrow> nat \<times> nat \<Rightarrow> bool" where
  "zero_run ip s \<longleftrightarrow> fst s + snd s \<le> length ip \<and> take (snd s) (drop (fst s) ip) = replicate (snd s) 0"

lemma zero_run_append: "zero_run ip s \<Longrightarrow> zero_run (ip @ gs) s"
  by (auto simp: zero_run_def)

lemma zero_span_run:
  assumes "zero_run seen longest" "zero_run seen current" "snd current = 0 \<or> fst current + snd current = length seen"
  shows "zero_run (seen @ gs) (zero_span (length seen) gs longest current)"
  using assms
proof (induction gs arbitrary: seen longest current)
  case (Cons g gs)
  let ?c = "(if snd current = 0 then length seen else fst current, snd current + 1)"
  have "zero_run (seen @ [0]) ?c"
  proof (cases "snd current = 0")
    case False
    then have c: "fst current + snd current = length seen" using Cons.prems(3) by simp
    then have "length (drop (fst current) seen) = snd current" by simp
    then have "drop (fst current) seen = replicate (snd current) 0" using Cons.prems(2) by (simp add: zero_run_def)
    then show ?thesis using False c by (simp add: zero_run_def replicate_append_same)
  qed (simp add: zero_run_def)
  then have c: "zero_run (seen @ [g]) ?c" if "g = 0" using that by simp
  have l: "zero_run (seen @ [g]) longest" using zero_run_append [OF Cons.prems(1)] .
  show ?case
  proof (cases "g = 0")
    case True
    have "zero_run ((seen @ [g]) @ gs) (zero_span (length (seen @ [g])) gs (if snd longest < snd ?c then ?c else longest) ?c)"
      by (rule Cons.IH) (use l c [OF True] Cons.prems(3) in auto)
    then show ?thesis using True by (auto simp: Let_def split: if_splits)
  next
    case False
    have "zero_run ((seen @ [g]) @ gs) (zero_span (length (seen @ [g])) gs longest (0, 0))"
      by (rule Cons.IH) (use l in \<open>simp_all add: zero_run_def\<close>)
    then show ?thesis using False by simp
  qed
qed simp

lemma zero_run_split:
  assumes "zero_run ip (start, len)"
  shows "start + len \<le> length ip" "take start ip @ replicate len 0 @ drop (start + len) ip = ip"
proof -
  show "start + len \<le> length ip" using assms by (simp add: zero_run_def)
  have "replicate len 0 = take len (drop start ip)" using assms by (simp add: zero_run_def)
  then show "take start ip @ replicate len 0 @ drop (start + len) ip = ip" by (metis append_take_drop_id drop_drop add.commute)
qed

lemma be16_parts: "be16 (high_byte g) (low_byte g) = g"
  by (rule bit_word_eqI) (auto simp: be16_def high_byte_def low_byte_def bit_simps)

lemma uint_be16 [simp]: "word_of_int (uint g) = g"
  by simp

lemma read_ipv6_print:
  assumes len: "length ip = 8" and rest: "ends_groups rest" "case rest of [] \<Rightarrow> False | c # _ \<Rightarrow> c \<noteq> 58"
  shows "read_ipv6 (print_ipv6 ip @ rest) = Some (ip, rest)"
proof (cases "take 6 ip = [0, 0, 0, 0, 0, 0xFFFF]")
  case True
  have "length (drop 6 ip) = Suc (Suc 0)" using len by simp
  then obtain x y where xy: "drop 6 ip = [x, y]" unfolding length_Suc_conv length_0_conv by blast
  then have ip: "ip = [0, 0, 0, 0, 0, 0xFFFF, x, y]" using True append_take_drop_id [of 6 ip] by simp
  let ?v4 = "print_ipv4 [high_byte x, low_byte x, high_byte y, low_byte y] @ rest"
  have f: "num_bytes 16 (uint (0xFFFF :: u16)) = [102, 102, 102, 102]" by code_simp
  have t: "case 58 # ?v4 of [] \<Rightarrow> True | c # _ \<Rightarrow> to_digit 16 c = None \<and> c \<noteq> (46 :: byte)" by simp
  have "ends_number 10 rest" using rest(1) dec_is_hex by (auto simp: ends_groups_def split: list.splits)
  then have "read_ipv4 ?v4 = Some ([high_byte x, low_byte x, high_byte y, low_byte y], rest)" by (rule read_ipv4_print [rotated]) simp
  then have "read_groups (Suc 0) (Suc 5) (58 # ?v4) = ([x, y], True, rest)"
    unfolding read_groups.simps(2) by (simp add: read_separator_def read_given_char_def be16_parts)
  then have "read_groups 0 (Suc (Suc 5)) ([102, 102, 102, 102, 58] @ ?v4) = ([0xFFFF, x, y], True, rest)"
    using group_no_ipv4 [OF t, of "0xFFFF :: u16"] read_group_print [OF t, of "0xFFFF"] unfolding f read_groups.simps(2) [of 0 "Suc 5"]
    by (simp add: read_separator_def)
  moreover have "replicate 5 (0 :: u16) = [0, 0, 0, 0, 0]" by (simp add: numeral_eq_Suc)
  moreover have "read_groups 0 8 (58 # 58 # r) = ([], False, 58 # 58 # r)" for r by (rule no_group) (simp add: ends_groups_def)
  ultimately show ?thesis using True unfolding ip print_ipv6_def read_ipv6_def by (simp add: read_given_char_def)
next
  case False
  obtain start len where z: "zero_span 0 ip (0, 0) (0, 0) = (start, len)" by fastforce
  have run: "zero_run ip (start, len)" using zero_span_run [of "[]" "(0, 0)" "(0, 0)" ip] z by (simp add: zero_run_def)
  have g: "ends_groups (58 # 58 # r)" for r by (simp add: ends_groups_def)
  show ?thesis
  proof (cases "len > 1")
    case True
    then show ?thesis
      using False z zero_run_split [OF run] len read_groups_print [OF g, of "take start ip" 8] read_groups_print [OF rest(1), of "drop (start + len) ip" "8 - Suc start"]
      by (simp add: print_ipv6_def read_ipv6_def read_given_char_def)
  next
    case no: False
    then show ?thesis using False z len read_groups_print [OF rest(1), of ip 8] by (simp add: print_ipv6_def read_ipv6_def)
  qed
qed

lemma read_port_print: "read_port (58 # num_bytes 10 (uint port)) = Some (port, [])"
  using read_number_print [of 10 "uint port" 65536 "[]" None] uint_lt2p [of port] by (simp add: read_port_def read_given_char_def)

lemma read_scope_print:
  "read_scope_id ((if scope = 0 then [] else 37 # num_bytes 10 (uint scope)) @ 93 # r) = (if scope = 0 then None else Some (scope, 93 # r))"
  using read_number_print [of 10 "uint scope" "2 ^ 32" "93 # r" None] uint_lt2p [of scope] by (simp add: read_scope_id_def read_given_char_def)

text \<open>The text of an address is read as the address.\<close>

lemma parse_print_addr:
  assumes "addr_ok a"
  shows "parse_addr (print_addr a) = Some a"
proof (cases a)
  case (AddrV4 ip port)
  then show ?thesis
    using assms read_ipv4_print [of ip "58 # num_bytes 10 (uint port)"] by (simp add: parse_addr_def read_addr_v4_def read_port_print)
next
  case (AddrV6 ip scope port)
  let ?r = "(if scope = 0 then [] else 37 # num_bytes 10 (uint scope)) @ 93 # 58 # num_bytes 10 (uint port)"
  have "read_ipv4 (91 # s) = None" for s by (rule read_ipv4_None) (simp add: read_given_char_def)
  moreover have "read_ipv6 (print_ipv6 ip @ ?r) = Some (ip, ?r)"
    using assms AddrV6 by (intro read_ipv6_print) (simp_all add: ends_groups_def)
  ultimately show ?thesis
    using AddrV6 read_scope_print [of scope "58 # num_bytes 10 (uint port)"]
    by (cases "scope = 0") (simp_all add: parse_addr_def read_addr_v4_def read_addr_v6_def read_given_char_def read_port_print)
qed

text \<open>It has no character that a basic string of TOML would not hold as it is.\<close>

definition plain :: "bytes \<Rightarrow> bool" where
  "plain s \<longleftrightarrow> list_all (\<lambda>b. 32 \<le> b \<and> b \<noteq> 34 \<and> b \<noteq> 92 \<and> b \<noteq> 127) s"

lemma plain_simps [simp]:
  "plain []" "plain (b # s) \<longleftrightarrow> 32 \<le> b \<and> b \<noteq> 34 \<and> b \<noteq> 92 \<and> b \<noteq> 127 \<and> plain s" "plain (s @ t) \<longleftrightarrow> plain s \<and> plain t"
  by (auto simp: plain_def)

lemma plain_num_bytes:
  assumes "1 < r" "r \<le> 16" "0 \<le> n"
  shows "plain (num_bytes r n)"
proof -
  have "32 \<le> b \<and> b \<noteq> 34 \<and> b \<noteq> 92 \<and> b \<noteq> 127" if "to_digit r b \<noteq> None" for b
    using that assms(2) by (auto simp: to_digit_def Let_def word_le_def split: if_splits)
  then show ?thesis using num_bytes_digits [OF assms] by (auto simp: plain_def list_all_iff)
qed

lemma plain_join: "32 \<le> c \<Longrightarrow> c \<noteq> 34 \<Longrightarrow> c \<noteq> 92 \<Longrightarrow> c \<noteq> 127 \<Longrightarrow> \<forall>x\<in>set xs. plain x \<Longrightarrow> plain (join c xs)"
proof (induction xs)
  case (Cons x xs)
  have "plain (concat (map ((#) c) ys))" if "\<forall>x\<in>set ys. plain x" for ys using that Cons.prems(1-4) by (induction ys) simp_all
  then show ?case using Cons.prems by simp
qed simp

lemma plain_print_addr: "plain (print_addr a)"
proof -
  have "plain (print_ipv4 ip)" for ip by (auto simp: print_ipv4_def plain_num_bytes intro!: plain_join)
  moreover have "plain (fmt_subslice gs)" for gs by (auto simp: fmt_subslice_def plain_num_bytes intro!: plain_join)
  ultimately show ?thesis by (cases a) (simp_all add: print_ipv6_def plain_num_bytes split: prod.split)
qed

end
