(* ===== verification/Launch.thy ===== *)
theory Launch
  imports Service Socket_Addr
begin

text \<open>
  Starting a node: its configuration (\<open>qv-node/src/config.rs\<close>), the construction of its state
  (\<open>build_node_state\<close> of \<open>qv-node/src/lib.rs\<close>) and the admission of peers by the seed node
  (\<open>qv-node/src/main.rs\<close>).  Reading the configuration file is I/O and TOML is a library, both
  parameters; what serde derives from the declaration of the configuration is written out.
\<close>

section \<open>Configuration\<close>

record node_config =
  cf_node_id :: u64
  cf_listen_addr :: socket_addr
  cf_advertise_addr :: "str option"
  cf_data_dir :: str
  cf_raft_peers :: "str list"
  cf_wal_batch_ms :: u64
  cf_snapshot_wal_mb :: u64
  cf_vnodes :: u32

definition default_snapshot_wal_mb :: u64 where
  "default_snapshot_wal_mb = 128"

definition default_vnodes :: u32 where
  "default_vnodes = 64"

text \<open>A TOML document is read as a table.  An integer of TOML has 64 bits and a sign.\<close>

datatype toml = TomlInt int | TomlStr str | TomlArr "toml list" | TomlTab "(str \<times> toml) list" | TomlOther

datatype toml_error = TomlSyntax string | TomlInvalid str | TomlMissing str

datatype config_error = CfgIo str string | CfgParse toml_error | CfgInvalid string

fun de_uint :: "nat \<Rightarrow> toml \<Rightarrow> 'w::len word option" where
  "de_uint w (TomlInt n) = (if 0 \<le> n \<and> n < 2 ^ w then Some (of_int n) else None)"
| "de_uint w _ = None"

fun de_str :: "toml \<Rightarrow> str option" where
  "de_str (TomlStr s) = Some s"
| "de_str _ = None"

fun de_strs :: "toml list \<Rightarrow> str list option" where
  "de_strs [] = Some []"
| "de_strs (t # ts) = (case de_str t of None \<Rightarrow> None | Some s \<Rightarrow> map_option ((#) s) (de_strs ts))"

definition de_raft :: "toml \<Rightarrow> str list option" where
  "de_raft t = (case t of
     TomlTab tab \<Rightarrow> (case map_of tab (ascii ''peers'') of None \<Rightarrow> Some [] | Some (TomlArr ts) \<Rightarrow> de_strs ts | Some _ \<Rightarrow> None)
   | _ \<Rightarrow> None)"

text \<open>The derived visitor: the fields of the table one after the other, unknown ones skipped, then
  defaults for those that are absent.\<close>

record raw_config =
  rw_node_id :: "u64 option"
  rw_listen_addr :: "socket_addr option"
  rw_advertise_addr :: "str option"
  rw_data_dir :: "str option"
  rw_raft_peers :: "str list option"
  rw_wal_batch_ms :: "u64 option"
  rw_snapshot_wal_mb :: "u64 option"
  rw_vnodes :: "u32 option"

definition raw_empty :: raw_config where
  "raw_empty = \<lparr>rw_node_id = None, rw_listen_addr = None, rw_advertise_addr = None, rw_data_dir = None, rw_raft_peers = None,
     rw_wal_batch_ms = None, rw_snapshot_wal_mb = None, rw_vnodes = None\<rparr>"

definition visit_field :: "str \<Rightarrow> toml \<Rightarrow> raw_config \<Rightarrow> raw_config option" where
  "visit_field key v raw =
     (if key = ascii ''node_id'' then map_option (\<lambda>x. raw\<lparr>rw_node_id := Some x\<rparr>) (de_uint 64 v)
      else if key = ascii ''listen_addr'' then map_option (\<lambda>x. raw\<lparr>rw_listen_addr := Some x\<rparr>) (Option.bind (de_str v) parse_addr)
      else if key = ascii ''advertise_addr'' then map_option (\<lambda>x. raw\<lparr>rw_advertise_addr := Some x\<rparr>) (de_str v)
      else if key = ascii ''data_dir'' then map_option (\<lambda>x. raw\<lparr>rw_data_dir := Some x\<rparr>) (de_str v)
      else if key = ascii ''raft'' then map_option (\<lambda>x. raw\<lparr>rw_raft_peers := Some x\<rparr>) (de_raft v)
      else if key = ascii ''wal_batch_ms'' then map_option (\<lambda>x. raw\<lparr>rw_wal_batch_ms := Some x\<rparr>) (de_uint 64 v)
      else if key = ascii ''snapshot_wal_mb'' then map_option (\<lambda>x. raw\<lparr>rw_snapshot_wal_mb := Some x\<rparr>) (de_uint 64 v)
      else if key = ascii ''vnodes'' then map_option (\<lambda>x. raw\<lparr>rw_vnodes := Some x\<rparr>) (de_uint 32 v)
      else Some raw)"

fun visit_map :: "(str \<times> toml) list \<Rightarrow> raw_config \<Rightarrow> toml_error + raw_config" where
  "visit_map [] raw = Inr raw"
| "visit_map ((key, v) # entries) raw =
     (case visit_field key v raw of None \<Rightarrow> Inl (TomlInvalid key) | Some raw \<Rightarrow> visit_map entries raw)"

definition config_deserialize :: "(str \<times> toml) list \<Rightarrow> toml_error + node_config" where
  "config_deserialize entries =
     (case visit_map entries raw_empty of
        Inl e \<Rightarrow> Inl e
      | Inr raw \<Rightarrow>
          (case rw_node_id raw of None \<Rightarrow> Inl (TomlMissing (ascii ''node_id'')) | Some i \<Rightarrow>
           case rw_listen_addr raw of None \<Rightarrow> Inl (TomlMissing (ascii ''listen_addr'')) | Some a \<Rightarrow>
           case rw_data_dir raw of None \<Rightarrow> Inl (TomlMissing (ascii ''data_dir'')) | Some d \<Rightarrow>
           Inr \<lparr>cf_node_id = i, cf_listen_addr = a, cf_advertise_addr = rw_advertise_addr raw, cf_data_dir = d,
             cf_raft_peers = (case rw_raft_peers raw of None \<Rightarrow> [] | Some ps \<Rightarrow> ps),
             cf_wal_batch_ms = (case rw_wal_batch_ms raw of None \<Rightarrow> 0 | Some n \<Rightarrow> n),
             cf_snapshot_wal_mb = (case rw_snapshot_wal_mb raw of None \<Rightarrow> default_snapshot_wal_mb | Some n \<Rightarrow> n),
             cf_vnodes = (case rw_vnodes raw of None \<Rightarrow> default_vnodes | Some n \<Rightarrow> n)\<rparr>))"

text \<open>\<open>toml::from_str\<close>; \<open>toml\<close> is the reader of documents.\<close>

definition config_from_str :: "(str \<Rightarrow> string + (str \<times> toml) list) \<Rightarrow> str \<Rightarrow> toml_error + node_config" where
  "config_from_str toml text = (case toml text of Inl e \<Rightarrow> Inl (TomlSyntax e) | Inr entries \<Rightarrow> config_deserialize entries)"

definition config_validate :: "node_config \<Rightarrow> config_error + unit" where
  "config_validate cfg =
     (if cf_vnodes cfg = 0 then Inl (CfgInvalid ''vnodes must be > 0'')
      else if cf_snapshot_wal_mb cfg = 0 then Inl (CfgInvalid ''snapshot_wal_mb must be > 0'')
      else Inr ())"

text \<open>\<open>read\<close> is the file system.\<close>

definition config_from_file :: "(str \<Rightarrow> string + str) \<Rightarrow> (str \<Rightarrow> string + (str \<times> toml) list) \<Rightarrow> str \<Rightarrow> config_error + node_config" where
  "config_from_file read toml path =
     (case read path of
        Inl e \<Rightarrow> Inl (CfgIo path e)
      | Inr text \<Rightarrow>
          (case config_from_str toml text of
             Inl e \<Rightarrow> Inl (CfgParse e)
           | Inr cfg \<Rightarrow> (case config_validate cfg of Inl e \<Rightarrow> Inl e | Inr _ \<Rightarrow> Inr cfg)))"

definition advertise :: "node_config \<Rightarrow> str" where
  "advertise cfg = (case cf_advertise_addr cfg of Some a \<Rightarrow> a | None \<Rightarrow> print_addr (cf_listen_addr cfg))"

section \<open>The state of a node\<close>

text \<open>The data directory holds the directories of the shards, the hint log and the two files of
  Raft.\<close>

definition build_node_state ::
  "(raft_config \<Rightarrow> string + raft_config) \<Rightarrow> (node_id \<Rightarrow> raft_config \<Rightarrow> ('m, 'v) log_store \<Rightarrow> 'm sm_store \<Rightarrow> string + 'r) \<Rightarrow>
   (storage_error \<Rightarrow> string) \<Rightarrow> ('m, 'v) json \<Rightarrow> 'm \<Rightarrow> node_config \<Rightarrow> (shard_key \<Rightarrow> shard_disk) \<Rightarrow> os_file \<Rightarrow> afile \<times> afile \<Rightarrow>
   (manager_error + node \<times> ('r, 'm) cluster_manager) \<times> (afile \<times> afile)" where
  "build_node_state validate raft_new display J m0 cfg dirs hints fs =
     on_ok (manager_start validate raft_new display J m0 (cf_node_id cfg) (advertise cfg) fs) (\<lambda>cluster fs.
     let shards = shard_store_new (unat (cf_snapshot_wal_mb cfg)) (cf_wal_batch_ms cfg) dirs in
     (Inr (node_new (advertise cfg) (read_state (cm_sm cluster)) shards hints, cluster), fs))"

section \<open>Admitting peers\<close>

fun join_retry :: "raft \<Rightarrow> node_id \<Rightarrow> u64 \<Rightarrow> str \<Rightarrow> nat \<Rightarrow> world \<Rightarrow> world" where
  "join_retry R me i addr 0 w = w"
| "join_retry R me i addr (Suc attempts) w =
     (case join_node R me i addr w of
        (Inr _, w) \<Rightarrow> w
      | (Inl _, w) \<Rightarrow> join_retry R me i addr attempts w)"

fun admit_peers :: "raft \<Rightarrow> node_id \<Rightarrow> str list \<Rightarrow> world \<Rightarrow> world" where
  "admit_peers R me [] w = w"
| "admit_peers R me (target # targets) w =
     admit_peers R me targets
       (case split_once 64 target of
          None \<Rightarrow> w
        | Some (id_str, addr) \<Rightarrow> (case parse_u64 id_str of None \<Rightarrow> w | Some i \<Rightarrow> join_retry R me i addr 120 w))"

section \<open>Restart\<close>

text \<open>Opening the files of a crashed manager.\<close>

lemma manager_restart:
  assumes "log_good J ls" "sm_good J m0 s" "validate meta_raft_config = Inr config" "\<forall>ls' s'. \<exists>r. raft_new me config ls' s' = Inr r"
  shows "\<exists>cm fs ls'. manager_start validate raft_new display J m0 me addr (af_crash b (ls_af ls), af_crash b' (sms_af s)) = (Inr cm, fs) \<and>
    raft_new me config ls' (cm_sm cm) = Inr (cm_raft cm) \<and> ls_disk ls' = ls_disk ls \<and> sms_disk (cm_sm cm) = sms_disk s"
proof -
  obtain ls' lf where l: "log_store_open J (af_crash b (ls_af ls)) = (Inr ls', lf)" "ls_disk ls' = ls_disk ls"
    using log_reopen [OF assms(1)] by blast
  obtain s' sf where m: "sm_store_open J m0 (af_crash b' (sms_af s)) = (Inr s', sf)" "sms_disk s' = sms_disk s"
    using sm_reopen [OF assms(2), of b'] by blast
  obtain r where "raft_new me config ls' s' = Inr r" using assms(4) by blast
  with l m assms(3) show ?thesis by (auto simp: manager_start_def)
qed

end
