(* ===== verification/Command_Line.thy ===== *)
theory Command_Line
  imports Launch
begin

text \<open>
  The command line of a node (\<open>parse_args\<close> of \<open>qv-node/src/main.rs\<close>) and the first steps of
  \<open>main\<close>: options, the configuration they name or spell out, its validation, the data directory,
  the state of the node, and the tasks of a seed.
\<close>

section \<open>Options\<close>

datatype launch_error = UnknownArgument str | RequiresValue str | BadNumber str | BadAddress str | ListenRequired
  | FromFile config_error | Inline toml_error | Invalid config_error | DataDir string | Cluster manager_error

record flags =
  fl_config :: "str option"
  fl_node_id :: "u64 option"
  fl_listen :: "socket_addr option"
  fl_advertise :: "str option"
  fl_data_dir :: "str option"
  fl_bootstrap :: bool
  fl_join_targets :: "str list"

definition no_flags :: flags where
  "no_flags = \<lparr>fl_config = None, fl_node_id = None, fl_listen = None, fl_advertise = None, fl_data_dir = None,
     fl_bootstrap = False, fl_join_targets = []\<rparr>"

record launch_opts =
  lo_config :: node_config
  lo_bootstrap :: bool
  lo_join_targets :: "str list"

definition next_val :: "str list \<Rightarrow> str \<Rightarrow> launch_error + (str \<times> str list)" where
  "next_val args flag = (case args of [] \<Rightarrow> Inl (RequiresValue flag) | v # rest \<Rightarrow> Inr (v, rest))"

definition with_val :: "str list \<Rightarrow> str \<Rightarrow> (str \<Rightarrow> launch_error + flags) \<Rightarrow> launch_error + (flags \<times> str list)" where
  "with_val args flag k = (case next_val args flag of Inl e \<Rightarrow> Inl e | Inr (v, rest) \<Rightarrow> map_sum id (\<lambda>fl. (fl, rest)) (k v))"

fun split_all :: "'a \<Rightarrow> 'a list \<Rightarrow> 'a list list" where
  "split_all c [] = [[]]"
| "split_all c (x # xs) =
     (if x = c then [] # split_all c xs
      else case split_all c xs of p # ps \<Rightarrow> (x # p) # ps | [] \<Rightarrow> [[x]])"

text \<open>One turn of the loop over the arguments; \<open>args\<close> are those after \<open>arg\<close>.\<close>

definition take_flag :: "str \<Rightarrow> str list \<Rightarrow> flags \<Rightarrow> launch_error + (flags \<times> str list)" where
  "take_flag arg args fl =
     (if arg = ascii ''--config'' then with_val args arg (\<lambda>v. Inr (fl\<lparr>fl_config := Some v\<rparr>))
      else if arg = ascii ''--node-id'' then with_val args arg (\<lambda>v.
        case parse_u64 v of None \<Rightarrow> Inl (BadNumber v) | Some n \<Rightarrow> Inr (fl\<lparr>fl_node_id := Some n\<rparr>))
      else if arg = ascii ''--listen'' then with_val args arg (\<lambda>v.
        case parse_addr v of None \<Rightarrow> Inl (BadAddress v) | Some a \<Rightarrow> Inr (fl\<lparr>fl_listen := Some a\<rparr>))
      else if arg = ascii ''--advertise'' then with_val args arg (\<lambda>v. Inr (fl\<lparr>fl_advertise := Some v\<rparr>))
      else if arg = ascii ''--data-dir'' then with_val args arg (\<lambda>v. Inr (fl\<lparr>fl_data_dir := Some v\<rparr>))
      else if arg = ascii ''--bootstrap'' then Inr (fl\<lparr>fl_bootstrap := True\<rparr>, args)
      else if arg = ascii ''--join'' then with_val args arg (\<lambda>v.
        Inr (fl\<lparr>fl_join_targets := fl_join_targets fl @ filter (\<lambda>s. s \<noteq> []) (split_all 44 v)\<rparr>))
      else Inl (UnknownArgument arg))"

text \<open>A usage request ends the process with status 0, after what was read before it.\<close>

datatype 'a run = ExitsOk | Returns "launch_error + 'a"

definition is_help :: "str \<Rightarrow> bool" where
  "is_help arg \<longleftrightarrow> arg = ascii ''--help'' \<or> arg = ascii ''-h''"

lemma take_flag_shorter: "take_flag arg args fl = Inr (fl', args') \<Longrightarrow> length args' \<le> length args"
  by (auto simp: take_flag_def with_val_def next_val_def map_sum_def split: if_splits list.splits sum.splits option.splits)

function take_flags :: "str list \<Rightarrow> flags \<Rightarrow> flags run" where
  "take_flags [] fl = Returns (Inr fl)"
| "take_flags (arg # args) fl =
     (if is_help arg then ExitsOk
      else case take_flag arg args fl of Inl e \<Rightarrow> Returns (Inl e) | Inr (fl, args) \<Rightarrow> take_flags args fl)"
  by pat_completeness auto

termination
  by (relation "measure (\<lambda>(args, fl). length args)") (auto dest: take_flag_shorter)

section \<open>The configuration\<close>

text \<open>The document the flags are pasted into.\<close>

definition inline_toml :: "u64 \<Rightarrow> socket_addr \<Rightarrow> str \<Rightarrow> str option \<Rightarrow> str" where
  "inline_toml i a d adv =
     ascii ''node_id = '' @ dec_bytes (unat i) @ [10] @
     ascii ''listen_addr = '' @ 34 # print_addr a @ [34, 10] @
     ascii ''data_dir = '' @ 34 # d @ [34, 10] @
     (case adv of None \<Rightarrow> [] | Some s \<Rightarrow> ascii ''advertise_addr = '' @ 34 # s @ [34, 10])"

definition slashes :: "str \<Rightarrow> str" where
  "slashes = map (\<lambda>b. if b = 92 then 47 else b)"

definition flags_config :: "(str \<Rightarrow> string + str) \<Rightarrow> (str \<Rightarrow> string + (str \<times> toml) list) \<Rightarrow> flags \<Rightarrow> launch_error + node_config" where
  "flags_config read toml fl =
     (case fl_config fl of
        Some path \<Rightarrow> map_sum FromFile id (config_from_file read toml path)
      | None \<Rightarrow>
          (case fl_listen fl of
             None \<Rightarrow> Inl ListenRequired
           | Some listen \<Rightarrow> map_sum Inline id (config_from_str toml
               (inline_toml (case fl_node_id fl of None \<Rightarrow> 1 | Some i \<Rightarrow> i) listen
                 (slashes (case fl_data_dir fl of None \<Rightarrow> ascii ''./qv-data'' | Some d \<Rightarrow> d)) (fl_advertise fl)))))"

definition parse_args :: "(str \<Rightarrow> string + str) \<Rightarrow> (str \<Rightarrow> string + (str \<times> toml) list) \<Rightarrow> str list \<Rightarrow> launch_opts run" where
  "parse_args read toml args =
     (case take_flags args no_flags of
        ExitsOk \<Rightarrow> ExitsOk
      | Returns (Inl e) \<Rightarrow> Returns (Inl e)
      | Returns (Inr fl) \<Rightarrow> Returns (map_sum id
          (\<lambda>cfg. \<lparr>lo_config = cfg, lo_bootstrap = fl_bootstrap fl, lo_join_targets = fl_join_targets fl\<rparr>) (flags_config read toml fl)))"

section \<open>The first steps of the process\<close>

text \<open>\<open>mkdir\<close> creates a directory, \<open>disk\<close> is what is found under it: the directories of the shards,
  the hint log and the files of Raft.\<close>

definition start_node ::
  "(str \<Rightarrow> string + str) \<Rightarrow> (str \<Rightarrow> string + (str \<times> toml) list) \<Rightarrow> (str \<Rightarrow> string + unit) \<Rightarrow>
   (raft_config \<Rightarrow> string + raft_config) \<Rightarrow> (node_id \<Rightarrow> raft_config \<Rightarrow> ('m, 'v) log_store \<Rightarrow> 'm sm_store \<Rightarrow> string + 'r) \<Rightarrow>
   (storage_error \<Rightarrow> string) \<Rightarrow> ('m, 'v) json \<Rightarrow> 'm \<Rightarrow> (str \<Rightarrow> (shard_key \<Rightarrow> shard_disk) \<times> os_file \<times> (afile \<times> afile)) \<Rightarrow> str list \<Rightarrow>
   (launch_opts \<times> (node \<times> ('r, 'm) cluster_manager) \<times> (afile \<times> afile)) run" where
  "start_node read toml mkdir validate raft_new display J m0 disk args =
     (case parse_args read toml args of
        ExitsOk \<Rightarrow> ExitsOk
      | Returns (Inl e) \<Rightarrow> Returns (Inl e)
      | Returns (Inr opts) \<Rightarrow>
          (let cfg = lo_config opts in
           case config_validate cfg of Inl e \<Rightarrow> Returns (Inl (Invalid e)) | Inr _ \<Rightarrow>
           case mkdir (cf_data_dir cfg) of Inl e \<Rightarrow> Returns (Inl (DataDir e)) | Inr _ \<Rightarrow>
           case disk (cf_data_dir cfg) of (dirs, hints, fs) \<Rightarrow>
           case build_node_state validate raft_new display J m0 cfg dirs hints fs of
             (Inl e, fs) \<Rightarrow> Returns (Inl (Cluster e))
           | (Inr state, fs) \<Rightarrow> Returns (Inr (opts, state, fs))))"

definition seed_tasks :: "raft \<Rightarrow> launch_opts \<Rightarrow> world \<Rightarrow> (manager_error + unit) \<times> world" where
  "seed_tasks R opts w =
     (let me = cf_node_id (lo_config opts) in
      if \<not> lo_bootstrap opts then (Inr (), w)
      else on_ok (bootstrap R me (advertise (lo_config opts)) w) (\<lambda>_ w. (Inr (), admit_peers R me (lo_join_targets opts) w)))"

section \<open>Well-formed command lines\<close>

datatype flag_item = FConfig str | FNodeId u64 | FListen socket_addr | FAdvertise str | FDataDir str | FBootstrap | FJoin "str list"

fun item_args :: "flag_item \<Rightarrow> str list" where
  "item_args (FConfig path) = [ascii ''--config'', path]"
| "item_args (FNodeId i) = [ascii ''--node-id'', dec_bytes (unat i)]"
| "item_args (FListen a) = [ascii ''--listen'', print_addr a]"
| "item_args (FAdvertise s) = [ascii ''--advertise'', s]"
| "item_args (FDataDir d) = [ascii ''--data-dir'', d]"
| "item_args FBootstrap = [ascii ''--bootstrap'']"
| "item_args (FJoin targets) = [ascii ''--join'', join 44 targets]"

fun item_ok :: "flag_item \<Rightarrow> bool" where
  "item_ok (FListen a) \<longleftrightarrow> addr_ok a"
| "item_ok (FJoin targets) \<longleftrightarrow> (\<forall>t\<in>set targets. t \<noteq> [] \<and> 44 \<notin> set t)"
| "item_ok _ \<longleftrightarrow> True"

fun apply_item :: "flags \<Rightarrow> flag_item \<Rightarrow> flags" where
  "apply_item fl (FConfig path) = fl\<lparr>fl_config := Some path\<rparr>"
| "apply_item fl (FNodeId i) = fl\<lparr>fl_node_id := Some i\<rparr>"
| "apply_item fl (FListen a) = fl\<lparr>fl_listen := Some a\<rparr>"
| "apply_item fl (FAdvertise s) = fl\<lparr>fl_advertise := Some s\<rparr>"
| "apply_item fl (FDataDir d) = fl\<lparr>fl_data_dir := Some d\<rparr>"
| "apply_item fl FBootstrap = fl\<lparr>fl_bootstrap := True\<rparr>"
| "apply_item fl (FJoin targets) = fl\<lparr>fl_join_targets := fl_join_targets fl @ targets\<rparr>"

lemma split_all_append: "c \<notin> set x \<Longrightarrow> split_all c (x @ c # s) = x # split_all c s"
  by (induction x) auto

lemma split_all_single: "c \<notin> set x \<Longrightarrow> split_all c x = [x]"
  by (induction x) auto

lemma split_all_join: "\<forall>x\<in>set (x # xs). c \<notin> set x \<Longrightarrow> split_all c (join c (x # xs)) = x # xs"
proof (induction xs arbitrary: x)
  case (Cons y ys)
  then show ?case using split_all_append [of c x "join c (y # ys)"] by simp
qed (simp add: split_all_single)

lemma split_targets:
  assumes "\<forall>t\<in>set targets. t \<noteq> [] \<and> 44 \<notin> set t"
  shows "filter (\<lambda>s. s \<noteq> []) (split_all 44 (join 44 targets)) = targets"
proof (cases targets)
  case (Cons t ts)
  have "filter (\<lambda>s. s \<noteq> []) targets = targets" using assms by (simp add: filter_id_conv)
  then show ?thesis using assms Cons split_all_join [of t ts 44] by simp
qed simp

lemma take_flags_item:
  assumes "item_ok item"
  shows "take_flags (item_args item @ args) fl = take_flags args (apply_item fl item)"
  using assms split_targets
  by (cases item) (simp_all add: take_flag_def with_val_def next_val_def is_help_def ascii_def parse_u64_dec parse_print_addr)

lemma take_flags_items:
  "list_all item_ok items \<Longrightarrow> take_flags (concat (map item_args items)) fl = Returns (Inr (foldl apply_item fl items))"
  by (induction items arbitrary: fl) (simp_all add: take_flags_item del: take_flags.simps(2))

text \<open>Values are pasted without escapes, so that a text with a quote and a line break adds lines of its
  own to the document.\<close>

lemma pasted_text: "inline_toml i a d (Some (s @ [34, 10] @ t)) = inline_toml i a d (Some s) @ t @ [34, 10]"
  by (simp add: inline_toml_def)

section \<open>What is assumed of TOML\<close>

text \<open>A document of lines \<open>key = value\<close> with bare keys, each once, non-negative integers of 63 bits and
  basic strings without quote, backslash or control character is read as its table.\<close>

definition bare_key :: "str \<Rightarrow> bool" where
  "bare_key k \<longleftrightarrow> k \<noteq> [] \<and> list_all (\<lambda>b. 97 \<le> b \<and> b \<le> 122 \<or> 65 \<le> b \<and> b \<le> 90 \<or> 48 \<le> b \<and> b \<le> 57 \<or> b = 95 \<or> b = 45) k"

fun line_ok :: "str \<times> toml \<Rightarrow> bool" where
  "line_ok (k, TomlInt n) \<longleftrightarrow> bare_key k \<and> 0 \<le> n \<and> n < 2 ^ 63"
| "line_ok (k, TomlStr s) \<longleftrightarrow> bare_key k \<and> plain s"
| "line_ok _ \<longleftrightarrow> False"

fun toml_line :: "str \<times> toml \<Rightarrow> str" where
  "toml_line (k, TomlInt n) = k @ ascii '' = '' @ dec_bytes (nat n)"
| "toml_line (k, TomlStr s) = k @ ascii '' = '' @ 34 # s @ [34]"
| "toml_line (k, _) = k"

definition toml_ok :: "(str \<Rightarrow> string + (str \<times> toml) list) \<Rightarrow> bool" where
  "toml_ok toml \<longleftrightarrow> (\<forall>tab. distinct (map fst tab) \<and> list_all line_ok tab \<longrightarrow> toml (concat (map (\<lambda>e. toml_line e @ [10]) tab)) = Inr tab)"

definition inline_table :: "u64 \<Rightarrow> socket_addr \<Rightarrow> str \<Rightarrow> str option \<Rightarrow> (str \<times> toml) list" where
  "inline_table i a d adv =
     [(ascii ''node_id'', TomlInt (uint i)), (ascii ''listen_addr'', TomlStr (print_addr a)), (ascii ''data_dir'', TomlStr d)] @
     (case adv of None \<Rightarrow> [] | Some s \<Rightarrow> [(ascii ''advertise_addr'', TomlStr s)])"

lemma inline_toml_table: "inline_toml i a d adv = concat (map (\<lambda>e. toml_line e @ [10]) (inline_table i a d adv))"
  by (simp add: inline_toml_def inline_table_def ascii_def split: option.split)

lemma inline_toml_read:
  assumes "toml_ok toml" "uint i < 2 ^ 63" "plain d" "case adv of None \<Rightarrow> True | Some s \<Rightarrow> plain s"
  shows "toml (inline_toml i a d adv) = Inr (inline_table i a d adv)"
proof -
  have "distinct (map fst (inline_table i a d adv))" by (simp add: inline_table_def ascii_def split: option.split)
  moreover have "list_all line_ok (inline_table i a d adv)"
    using assms(2-4) by (simp add: inline_table_def ascii_def bare_key_def plain_print_addr split: option.splits)
  ultimately show ?thesis using assms(1) by (simp add: toml_ok_def inline_toml_table)
qed

lemma inline_config:
  assumes "toml_ok toml" "uint i < 2 ^ 63" "plain d" "case adv of None \<Rightarrow> True | Some s \<Rightarrow> plain s" "addr_ok a"
  shows "config_from_str toml (inline_toml i a d adv) =
    Inr \<lparr>cf_node_id = i, cf_listen_addr = a, cf_advertise_addr = adv, cf_data_dir = d, cf_raft_peers = [],
      cf_wal_batch_ms = 0, cf_snapshot_wal_mb = default_snapshot_wal_mb, cf_vnodes = default_vnodes\<rparr>"
proof -
  have "uint i < 2 ^ 64" using assms(2) by simp
  then show ?thesis
    unfolding config_from_str_def inline_toml_read [OF assms(1-4)]
    by (simp add: config_deserialize_def inline_table_def ascii_def visit_field_def raw_empty_def parse_print_addr assms(5) split: option.split)
qed

section \<open>Properties\<close>

text \<open>The listen address comes from an option.\<close>

lemma listen_item: "fl_listen (foldl apply_item fl items) = Some a \<Longrightarrow> fl_listen fl = Some a \<or> FListen a \<in> set items"
proof (induction items arbitrary: fl)
  case (Cons item items)
  from Cons.IH [of "apply_item fl item"] Cons.prems show ?case by (cases item) auto
qed simp


text \<open>A reader of such documents.\<close>

definition demo_entry_of :: "str \<Rightarrow> str \<times> toml" where
  "demo_entry_of line = (case split_once 61 line of
     Some (k, v) \<Rightarrow> (butlast k, if hd (tl v) = 34 then TomlStr (butlast (tl (tl v))) else TomlInt (uint (the (parse_u64 (tl v)))))
   | None \<Rightarrow> (line, TomlOther))"

definition demo_toml :: "str \<Rightarrow> string + (str \<times> toml) list" where
  "demo_toml text = Inr (map demo_entry_of (butlast (split_all 10 text)))"

lemma dec_bytes_char: "b \<in> set (dec_bytes n) \<Longrightarrow> 48 \<le> b \<and> b \<le> 57"
  using dec_bytes_parts(3) [of n] by (auto simp: list_all_iff is_digit_def)

lemma demo_line:
  assumes "line_ok e"
  shows "10 \<notin> set (toml_line e)" "demo_entry_of (toml_line e) = e"
proof -
  obtain k v where e: "e = (k, v)" by fastforce
  have key: "bare_key k" using assms e by (cases v) simp_all
  have bare: "97 \<le> b \<and> b \<le> 122 \<or> 65 \<le> b \<and> b \<le> 90 \<or> 48 \<le> b \<and> b \<le> 57 \<or> b = 95 \<or> b = 45" if "b \<in> set k" for b
    using key that by (simp add: bare_key_def list_all_iff)
  have k: "61 \<notin> set k" "10 \<notin> set k" using bare [of 61] bare [of 10] by auto
  have sp: "split_once 61 (k @ ascii '' = '' @ x) = Some (k @ [32], 32 # x)" for x
    using k(1) by (simp add: split_once_eq ascii_def)
  show "10 \<notin> set (toml_line e)"
  proof (cases v)
    case (TomlInt n)
    then show ?thesis using k(2) e dec_bytes_char [of 10 "nat n"] by (auto simp: ascii_def)
  next
    case (TomlStr s)
    have "32 \<le> b" if "b \<in> set s" for b using that assms e TomlStr by (simp add: plain_def list_all_iff)
    from this [of 10] have "10 \<notin> set s" by auto
    then show ?thesis using k(2) e TomlStr by (simp add: ascii_def)
  qed (use assms e in simp_all)
  show "demo_entry_of (toml_line e) = e"
  proof (cases v)
    case (TomlInt n)
    then have n: "0 \<le> n" "n < 2 ^ 63" using assms e by simp_all
    then have u: "uint (of_int n :: u64) = n" by (subst uint_word_of_int) (rule mod_pos_pos_trivial, simp_all)
    then have "unat (of_int n :: u64) = nat n" by (metis unat_eq_nat_uint)
    then have "parse_u64 (dec_bytes (nat n)) = Some (of_int n)" using parse_u64_dec [of "of_int n"] by simp
    moreover have "hd (dec_bytes (nat n)) \<noteq> 34" using dec_bytes_char [OF hd_in_set [OF dec_bytes_parts(2)], of "nat n"] by auto
    ultimately show ?thesis using TomlInt e sp u by (simp add: demo_entry_of_def)
  next
    case (TomlStr s)
    then show ?thesis using e sp by (simp add: demo_entry_of_def)
  qed (use assms e in simp_all)
qed

lemma demo_toml_ok: "toml_ok demo_toml"
proof -
  have "split_all 10 (concat (map (\<lambda>e. toml_line e @ [10]) tab)) = map toml_line tab @ [[]]" if "list_all line_ok tab" for tab
    using that demo_line(1) by (induction tab) (simp_all add: split_all_append)
  moreover have "map demo_entry_of (map toml_line tab) = tab" if "list_all line_ok tab" for tab
    using that demo_line(2) by (induction tab) simp_all
  ultimately show ?thesis by (simp add: toml_ok_def demo_toml_def)
qed


end
