(* ===== verification/Data_Dir.thy ===== *)
theory Data_Dir
  imports Command_Line Service_Props "HOL-Library.Sublist"
begin

text \<open>
  Where a node keeps its files: the paths \<open>shards.rs\<close>, \<open>shard.rs\<close>, \<open>snapshot.rs\<close>, \<open>manager.rs\<close>,
  \<open>raft/store.rs\<close> and \<open>node_state.rs\<close> build below the data directory, and when two of them are the
  same file.  The theories of storage give every shard, the hint log and the files of Raft a disk of
  their own; this one shows for which collection names that is what happens.
\<close>

section \<open>Paths as text\<close>

text \<open>\<open>Path::join\<close> on Unix: an absolute path replaces what is there.  \<open>Path::with_extension\<close>, for a
  file name with an extension.\<close>

definition absolute :: "str \<Rightarrow> bool" where
  "absolute p \<longleftrightarrow> p \<noteq> [] \<and> hd p = 47"

definition path_join :: "str \<Rightarrow> str \<Rightarrow> str" where
  "path_join b p = (if absolute p then p else if b = [] \<or> last b = 47 then b @ p else b @ 47 # p)"

definition with_extension :: "str \<Rightarrow> str \<Rightarrow> str" where
  "with_extension p ext = rev (dropWhile (\<lambda>b. b \<noteq> 46) (rev p)) @ ext"

section \<open>The files of a node\<close>

definition shard_name :: "u32 \<Rightarrow> str" where
  "shard_name i = ascii ''shard_'' @ dec_bytes (unat i)"

definition shard_dir :: "str \<Rightarrow> str \<Rightarrow> u32 \<Rightarrow> str" where
  "shard_dir data_dir c i = path_join (path_join data_dir c) (shard_name i)"

definition wal_path :: "str \<Rightarrow> str" where
  "wal_path dir = path_join dir (ascii ''shard.wal'')"

definition snap_path :: "str \<Rightarrow> str" where
  "snap_path dir = path_join dir (ascii ''shard.snap'')"

definition snap_tmp :: "str \<Rightarrow> str" where
  "snap_tmp path = with_extension path (ascii ''snap.tmp'')"

definition raft_dir :: "str \<Rightarrow> str" where
  "raft_dir data_dir = path_join data_dir (ascii ''raft'')"

definition log_path :: "str \<Rightarrow> str" where
  "log_path dir = path_join dir (ascii ''raft-log.json'')"

definition sm_path :: "str \<Rightarrow> str" where
  "sm_path dir = path_join dir (ascii ''raft-sm.json'')"

definition atomic_tmp :: "str \<Rightarrow> str" where
  "atomic_tmp path = with_extension path (ascii ''tmp'')"

definition hint_log_path :: "str \<Rightarrow> str" where
  "hint_log_path data_dir = path_join (path_join data_dir (ascii ''hints'')) (ascii ''hints.log'')"

definition shard_files :: "str \<Rightarrow> str \<Rightarrow> u32 \<Rightarrow> str list" where
  "shard_files data_dir c i = (let dir = shard_dir data_dir c i in [wal_path dir, snap_path dir, snap_tmp (snap_path dir)])"

definition node_files :: "str \<Rightarrow> str list" where
  "node_files data_dir = (let dir = raft_dir data_dir in
     [log_path dir, atomic_tmp (log_path dir), sm_path dir, atomic_tmp (sm_path dir), hint_log_path data_dir])"

section \<open>What a path names\<close>

text \<open>A file is named by the directories on the way from the root.  The operating system skips empty
  components and dots and goes up at two dots; there are no symbolic links.\<close>

fun walk_path :: "str list \<Rightarrow> str list \<Rightarrow> str list" where
  "walk_path at [] = at"
| "walk_path at (n # ns) = walk_path (if n = [] \<or> n = [46] then at else if n = [46, 46] then butlast at else at @ [n]) ns"

definition resolve :: "str list \<Rightarrow> str \<Rightarrow> str list" where
  "resolve cwd p = walk_path (if absolute p then [] else cwd) (split_all 47 p)"

definition file_name :: "str \<Rightarrow> bool" where
  "file_name c \<longleftrightarrow> c \<noteq> [] \<and> c \<noteq> [46] \<and> c \<noteq> [46, 46] \<and> 47 \<notin> set c"

lemma file_name_relative [simp]: "file_name c \<Longrightarrow> \<not> absolute c"
  by (cases c) (auto simp: file_name_def absolute_def)

lemma walk_append [simp]: "walk_path at (xs @ ys) = walk_path (walk_path at xs) ys"
  by (induction xs arbitrary: at) simp_all

lemma split_all_nonempty [simp]: "split_all c x \<noteq> []"
  by (cases x) (auto split: list.splits)

lemma split_all_slash: "split_all c (x @ c # y) = split_all c x @ split_all c y"
proof (induction x)
  case (Cons b x)
  obtain p ps where "split_all c x = p # ps" using split_all_nonempty [of c x] by (cases "split_all c x") blast+
  with Cons show ?case by simp
qed simp

lemma absolute_Nil [simp]: "\<not> absolute []"
  by (simp add: absolute_def)

lemma absolute_append [simp]: "b \<noteq> [] \<Longrightarrow> absolute (b @ p) = absolute b"
  by (simp add: absolute_def)

lemma resolve_slash: "b \<noteq> [] \<Longrightarrow> resolve cwd (b @ 47 # p) = walk_path (resolve cwd b) (split_all 47 p)"
  by (simp add: resolve_def split_all_slash)

lemma resolve_join:
  assumes "\<not> absolute p"
  shows "resolve cwd (path_join b p) = walk_path (resolve cwd b) (split_all 47 p)"
proof (cases "b = [] \<or> last b = 47")
  case True
  show ?thesis
  proof (cases b rule: rev_cases)
    case (snoc e x)
    with True have b: "b = e @ [47]" by simp
    have "split_all 47 (e @ 47 # p) = split_all 47 e @ split_all 47 p" "split_all 47 (e @ [47]) = split_all 47 e @ [[]]"
      using split_all_slash [of 47 e] by simp_all
    moreover have "absolute (e @ 47 # p) = absolute (e @ [47])" by (cases e) (simp_all add: absolute_def)
    ultimately show ?thesis using assms by (simp add: b resolve_def path_join_def)
  qed (use assms in \<open>simp add: resolve_def path_join_def\<close>)
qed (use assms in \<open>simp add: path_join_def resolve_slash\<close>)

lemma resolve_name: "file_name c \<Longrightarrow> resolve cwd (path_join b c) = resolve cwd b @ [c]"
  by (simp add: resolve_join split_all_single file_name_def)

lemma file_name_shard [simp]: "file_name (shard_name i)"
proof -
  have "b \<noteq> 47" if "b \<in> set (dec_bytes (unat i))" for b
    using that dec_bytes_parts(3) [of "unat i"] by (auto simp: list_all_iff is_digit_def)
  then show ?thesis by (auto simp: file_name_def shard_name_def ascii_def)
qed

lemma shard_name_inj [simp]: "shard_name i = shard_name j \<longleftrightarrow> i = j"
proof
  assume "shard_name i = shard_name j"
  then have "dec_value 0 (dec_bytes (unat i)) = dec_value 0 (dec_bytes (unat j))" by (simp add: shard_name_def)
  then show "i = j" by (simp add: dec_bytes_parts word_unat_eq_iff)
qed simp

lemma resolve_shard:
  assumes "file_name c"
  shows "p \<in> set (shard_files d c i) \<Longrightarrow> \<exists>n. resolve cwd p = resolve cwd d @ [c, shard_name i, n]"
proof -
  have n: "file_name (ascii ''shard.wal'')" "file_name (ascii ''shard.snap'')" "file_name (ascii ''shard.snap.tmp'')"
    by (simp_all add: file_name_def ascii_def)
  have tmp: "snap_tmp (path_join b (ascii ''shard.snap'')) = path_join b (ascii ''shard.snap.tmp'')" for b
    by (simp add: snap_tmp_def with_extension_def path_join_def absolute_def ascii_def)
  assume "p \<in> set (shard_files d c i)"
  then show ?thesis using assms n by (auto simp: shard_files_def Let_def tmp wal_path_def snap_path_def shard_dir_def resolve_name)
qed

lemma resolve_node:
  assumes "q \<in> set (node_files d)"
  shows "\<exists>m n. resolve cwd q = resolve cwd d @ [m, n] \<and> hd n \<noteq> 115"
proof -
  have n: "file_name (ascii ''raft-log.json'')" "file_name (ascii ''raft-log.tmp'')" "file_name (ascii ''raft-sm.json'')"
      "file_name (ascii ''raft-sm.tmp'')" "file_name (ascii ''raft'')" "file_name (ascii ''hints'')" "file_name (ascii ''hints.log'')"
    by (simp_all add: file_name_def ascii_def)
  have tmp: "atomic_tmp (path_join b (ascii ''raft-log.json'')) = path_join b (ascii ''raft-log.tmp'')" "atomic_tmp (path_join b (ascii ''raft-sm.json'')) = path_join b (ascii ''raft-sm.tmp'')" for b
    by (simp_all add: atomic_tmp_def with_extension_def path_join_def absolute_def ascii_def)
  have h: "hd (ascii ''raft-log.json'') \<noteq> 115" "hd (ascii ''raft-log.tmp'') \<noteq> 115" "hd (ascii ''raft-sm.json'') \<noteq> 115"
      "hd (ascii ''raft-sm.tmp'') \<noteq> 115" "hd (ascii ''hints.log'') \<noteq> 115" by (simp_all add: ascii_def)
  show ?thesis using assms n h
    by (auto simp: node_files_def Let_def tmp log_path_def sm_path_def raft_dir_def hint_log_path_def resolve_name)
qed

lemma hd_shard_name [simp]: "hd (shard_name i) = 115"
  by (simp add: shard_name_def ascii_def)

text \<open>A slash at the end of a collection name changes nothing.\<close>

lemma shard_dir_slash: "c \<noteq> [] \<Longrightarrow> resolve cwd (shard_dir d (c @ [47]) i) = resolve cwd (shard_dir d c i)"
proof -
  assume c: "c \<noteq> []"
  then have "path_join d (c @ [47]) = path_join d c @ [47]" by (simp add: path_join_def)
  moreover have "path_join d c \<noteq> []" using c by (simp add: path_join_def)
  ultimately have "resolve cwd (path_join d (c @ [47])) = resolve cwd (path_join d c)" by (simp add: resolve_slash)
  then show ?thesis by (simp add: shard_dir_def resolve_join)
qed

text \<open>An absolute name is not below the data directory.\<close>

lemma shard_dir_absolute: "absolute c \<Longrightarrow> shard_dir d c i = shard_dir d' c i"
  by (simp add: shard_dir_def path_join_def)

section \<open>Properties\<close>

text \<open>Neither file is the other one, or has a name the other needs for a directory.\<close>

definition apart :: "str list \<Rightarrow> str list \<Rightarrow> bool" where
  "apart a b \<longleftrightarrow> \<not> prefix a b \<and> \<not> prefix b a"

text \<open>C28. Shards have files of their own.  Whatever the data directory and the working directory are, if
  the names of two collections are single path components, then no file of a shard of one, temporary
  files included, is a file of another shard of either, or of Raft or of the hint log, or stands where one
  of these needs a directory; every file of a shard lies in the data directory.  The condition is
  needed: a name and the same name with a slash at its end, which is another collection, share
  all their files.\<close>

theorem shard_files_apart:
  assumes c: "file_name c" "file_name c'"
    and p: "p \<in> set (shard_files d c i)"
  shows "(\<forall>q. q \<in> set (shard_files d c' i') \<and> (c, i) \<noteq> (c', i') \<or> q \<in> set (node_files d) \<longrightarrow> apart (resolve cwd p) (resolve cwd q)) \<and>
    strict_prefix (resolve cwd d) (resolve cwd p) \<and>
    resolve cwd (shard_dir d (c @ [47]) i) = resolve cwd (shard_dir d c i)"
proof -
  obtain n where n: "resolve cwd p = resolve cwd d @ [c, shard_name i, n]" using resolve_shard [OF c(1) p] by blast
  have "apart (resolve cwd p) (resolve cwd q)" if "q \<in> set (shard_files d c' i')" "(c, i) \<noteq> (c', i')" for q
    using resolve_shard [OF c(2) that(1), of cwd] n that(2) by (auto simp: apart_def)
  moreover have "apart (resolve cwd p) (resolve cwd q)" if "q \<in> set (node_files d)" for q
    using resolve_node [OF that, of cwd] n by (auto simp: apart_def)
  moreover have "c \<noteq> []" using c(1) by (simp add: file_name_def)
  ultimately show ?thesis using n shard_dir_slash by (auto simp: strict_prefix_def)
qed

theorem shard_files_apart_witness:
  "apart (resolve [[119]] (wal_path (shard_dir [100] [99] 0))) (resolve [[119]] (hint_log_path [100])) \<and>
   resolve [[119]] (shard_dir [100] [99, 47] 0) = resolve [[119]] (shard_dir [100] [99] 0) \<and>
   resolve [[119]] (wal_path (shard_dir [100] [99] 0)) = [[119], [100], [99], ascii ''shard_0'', ascii ''shard.wal'']"
proof -
  have "file_name [99]" "wal_path (shard_dir [100] [99] 0) \<in> set (shard_files [100] [99] 0)" "hint_log_path [100] \<in> set (node_files [100])"
    by (simp_all add: file_name_def shard_files_def node_files_def Let_def)
  from shard_files_apart [OF this(1,1,2), of 0 "[[119]]"] this(3)
  have "apart (resolve [[119]] (wal_path (shard_dir [100] [99] 0))) (resolve [[119]] (hint_log_path [100]))"
    "resolve [[119]] (shard_dir [100] [99, 47] 0) = resolve [[119]] (shard_dir [100] [99] 0)" by simp_all
  moreover have "resolve [[119]] (wal_path (shard_dir [100] [99] 0)) = [[119], [100], [99], ascii ''shard_0'', ascii ''shard.wal'']"
    by code_simp
  ultimately show ?thesis by blast
qed

text \<open>The service accepts both names: on a single node the two collections exist side by side.\<close>

lemma slash_name_accepted:
  "\<exists>w1 w2. svc_create_collection solo_raft 1 \<lparr>cq_name = [99], cq_dim = 4, cq_metric = 1, cq_shard_count = 1, cq_replication_n = 1\<rparr> solo_world = (Inr (), w1) \<and>
     svc_create_collection solo_raft 1 \<lparr>cq_name = [99, 47], cq_dim = 2, cq_metric = 1, cq_shard_count = 1, cq_replication_n = 1\<rparr> w1 = (Inr (), w2) \<and>
     resolve cwd (shard_dir d [99, 47] 0) = resolve cwd (shard_dir d [99] 0)"
  using shard_dir_slash [of "[99]"]
  by (simp add: svc_create_collection_def create_collection_def manager_write_def solo_raft_def Let_def metric_from_proto_def
      solo_com_def solo_world_def node_new_def response_def)

end
