(* ===== verification/Client.thy ===== *)
theory Client
  imports Service Router_Props
begin

text \<open>
  The client library (\<open>qv-client/src/lib.rs\<close>): a connection to a node and one call per operation of
  the client service.  A call is a message to the node: it may not arrive, or be executed and its
  answer lost.  The handlers of the node are those of \<open>Service\<close>, which run in a world where
  other activity goes on; so what a client is promised rests on what the coordinator guarantees.
\<close>

section \<open>Connection\<close>

text \<open>\<open>ClStatus None\<close> is the status the transport makes up for a call that got no answer.\<close>

datatype client_error = ClTransport | ClStatus "client_status option"

record client =
  cl_channel :: str

text \<open>\<open>from_shared\<close> checks an endpoint and gives the address to dial.\<close>

definition client_connect :: "net \<Rightarrow> (str \<Rightarrow> string + str) \<Rightarrow> str \<Rightarrow> world \<Rightarrow> (client_error + client) \<times> world" where
  "client_connect N from_shared endpoint w =
     (case from_shared endpoint of
        Inl e \<Rightarrow> (Inl (ClStatus (Some (InvalidArgument, Text e))), w)
      | Inr addr \<Rightarrow>
          (case next_event w of (ev, w) \<Rightarrow>
            (if ev_outcome ev = Answered \<and> nt_at N addr \<noteq> None then Inr \<lparr>cl_channel = addr\<rparr> else Inl ClTransport, w)))"

definition client_call ::
  "net \<Rightarrow> client \<Rightarrow> (node_id \<Rightarrow> world \<Rightarrow> ((client_status + 'a) \<times> world) option) \<Rightarrow> world \<Rightarrow> ((client_error + 'a) \<times> world) option" where
  "client_call N cl handler w =
     (case next_event w of (ev, w) \<Rightarrow>
      case (if ev_outcome ev = Unreachable then None else nt_at N (cl_channel cl)) of
        None \<Rightarrow> Some (Inl (ClStatus None), w)
      | Some n \<Rightarrow> map_option (\<lambda>(r, w).
          (if ev_outcome ev = ReplyLost then Inl (ClStatus None) else map_sum (\<lambda>st. ClStatus (Some st)) id r, w))
          (handler n w))"

section \<open>Calls\<close>

text \<open>The enumerations of the protocol and their numbers.\<close>

datatype proto_metric = ProtoMetricUnspecified | ProtoL2 | ProtoCosine

fun metric_to_i32 :: "proto_metric \<Rightarrow> int" where
  "metric_to_i32 ProtoMetricUnspecified = 0"
| "metric_to_i32 ProtoL2 = 1"
| "metric_to_i32 ProtoCosine = 2"

datatype proto_consistency = ProtoUnspecified | ProtoOne | ProtoQuorum | ProtoAll

fun consistency_to_i32 :: "proto_consistency \<Rightarrow> int" where
  "consistency_to_i32 ProtoUnspecified = 0"
| "consistency_to_i32 ProtoOne = 1"
| "consistency_to_i32 ProtoQuorum = 2"
| "consistency_to_i32 ProtoAll = 3"

definition client_create_collection ::
  "net \<Rightarrow> raft \<Rightarrow> client \<Rightarrow> str \<Rightarrow> u32 \<Rightarrow> proto_metric \<Rightarrow> u32 \<Rightarrow> u32 \<Rightarrow> world \<Rightarrow> ((client_error + unit) \<times> world) option" where
  "client_create_collection N R cl name dim metric shard_count replication_n w =
     client_call N cl (\<lambda>n w. Some (svc_create_collection R n
       \<lparr>cq_name = name, cq_dim = dim, cq_metric = metric_to_i32 metric, cq_shard_count = shard_count, cq_replication_n = replication_n\<rparr> w)) w"

definition client_drop_collection :: "net \<Rightarrow> raft \<Rightarrow> client \<Rightarrow> str \<Rightarrow> world \<Rightarrow> ((client_error + unit) \<times> world) option" where
  "client_drop_collection N R cl name w = client_call N cl (\<lambda>n w. Some (svc_drop_collection R n name w)) w"

definition client_upsert ::
  "net \<Rightarrow> client \<Rightarrow> str \<Rightarrow> client_point list \<Rightarrow> proto_consistency \<Rightarrow> world \<Rightarrow> ((client_error + u64) \<times> world) option" where
  "client_upsert N cl c points cons w = client_call N cl (\<lambda>n. svc_upsert N n c points (consistency_to_i32 cons)) w"

definition client_delete ::
  "net \<Rightarrow> client \<Rightarrow> str \<Rightarrow> u64 list \<Rightarrow> proto_consistency \<Rightarrow> world \<Rightarrow> ((client_error + u64) \<times> world) option" where
  "client_delete N cl c ids cons w = client_call N cl (\<lambda>n. svc_delete N n c ids (consistency_to_i32 cons)) w"

definition client_get ::
  "net \<Rightarrow> client \<Rightarrow> str \<Rightarrow> u64 list \<Rightarrow> proto_consistency \<Rightarrow> world \<Rightarrow> ((client_error + client_point list) \<times> world) option" where
  "client_get N cl c ids cons w = client_call N cl (\<lambda>n. svc_get N n c ids (consistency_to_i32 cons)) w"

definition client_search ::
  "net \<Rightarrow> client \<Rightarrow> str \<Rightarrow> vec \<Rightarrow> u32 \<Rightarrow> u32 \<Rightarrow> world \<Rightarrow> ((client_error + scored_point list) \<times> world) option" where
  "client_search N cl c q k ef w = client_call N cl (\<lambda>n. svc_search N n c q k ef) w"

definition client_cluster_info :: "net \<Rightarrow> raft \<Rightarrow> client \<Rightarrow> world \<Rightarrow> ((client_error + cluster_info_resp) \<times> world) option" where
  "client_cluster_info N R cl w =
     client_call N cl (\<lambda>n w. case svc_cluster_info (nt_hash N) R n w of (a, w) \<Rightarrow> Some (Inr a, w)) w"

definition client_join :: "net \<Rightarrow> raft \<Rightarrow> client \<Rightarrow> str \<Rightarrow> world \<Rightarrow> ((client_error + u64) \<times> world) option" where
  "client_join N R cl target w = client_call N cl (\<lambda>n w. Some (svc_join R n target w)) w"

definition client_leave :: "net \<Rightarrow> raft \<Rightarrow> client \<Rightarrow> u64 \<Rightarrow> world \<Rightarrow> ((client_error + unit) \<times> world) option" where
  "client_leave N R cl n w = client_call N cl (\<lambda>me w. Some (svc_leave R me n w)) w"

definition client_health :: "net \<Rightarrow> client \<Rightarrow> world \<Rightarrow> ((client_error + string) \<times> world) option" where
  "client_health N cl w = client_call N cl (\<lambda>_ w. Some (Inr svc_health, w)) w"

section \<open>Answers\<close>

text \<open>An answer is that of the handler of the node at the address.\<close>

lemma client_call_Inr:
  assumes "client_call N cl handler w = Some (Inr a, w')"
  shows "\<exists>n. nt_at N (cl_channel cl) = Some n \<and> handler n (snd (next_event w)) = Some (Inr a, w')"
proof -
  obtain ev w1 where ev: "next_event w = (ev, w1)" by fastforce
  obtain n where n: "nt_at N (cl_channel cl) = Some n" "ev_outcome ev \<noteq> Unreachable" "handler n w1 \<noteq> None"
    using assms ev by (auto simp: client_call_def split: option.splits if_splits)
  obtain r where "handler n w1 = Some (r, w')" "ev_outcome ev \<noteq> ReplyLost" "map_sum (\<lambda>st. ClStatus (Some st)) id r = Inr a"
    using assms ev n by (auto simp: client_call_def split: if_splits)
  then show ?thesis using n(1) ev by (cases r) auto
qed

lemma respond_Inr: "respond f x = Some (Inr b, w) \<longleftrightarrow> (\<exists>a. x = Some (Inr a, w) \<and> b = f a)"
proof (cases x)
  case (Some y)
  obtain r w' where "y = (r, w')" by fastforce
  then show ?thesis using Some by (cases r) (auto simp: respond_def)
qed (simp add: respond_def)

lemma from_proto_to_i32 [simp]:
  "from_proto (consistency_to_i32 cons) = (case cons of ProtoOne \<Rightarrow> One | ProtoAll \<Rightarrow> All | _ \<Rightarrow> Quorum)"
  by (cases cons) (simp_all add: from_proto_def)

definition client_write ::
  "net \<Rightarrow> client \<Rightarrow> str \<Rightarrow> u64 \<Rightarrow> vec option \<Rightarrow> bytes option \<Rightarrow> proto_consistency \<Rightarrow> world \<Rightarrow> ((client_error + u64) \<times> world) option" where
  "client_write N cl c j u pl cons w =
     (case u of Some v \<Rightarrow> client_upsert N cl c [\<lparr>cp_id = j, cp_vector = v, cp_payload = pl\<rparr>] cons w | None \<Rightarrow> client_delete N cl c [j] cons w)"

lemma client_write_Inr:
  assumes "client_write N cl c j u pl cons w = Some (Inr a, w')"
  shows "\<exists>n pl'. nt_at N (cl_channel cl) = Some n \<and> write_point N n c j u pl' (from_proto (consistency_to_i32 cons)) (snd (next_event w)) = Some (Inr a, w')"
proof (cases u)
  case None
  then show ?thesis using assms client_call_Inr by (fastforce simp: client_write_def client_delete_def svc_delete_def write_point_def respond_Inr)
next
  case (Some v)
  then obtain n where "nt_at N (cl_channel cl) = Some n"
      "svc_upsert N n c [\<lparr>cp_id = j, cp_vector = v, cp_payload = pl\<rparr>] (consistency_to_i32 cons) (snd (next_event w)) = Some (Inr a, w')"
    using assms client_call_Inr [of N cl "\<lambda>n. svc_upsert N n c [\<lparr>cp_id = j, cp_vector = v, cp_payload = pl\<rparr>] (consistency_to_i32 cons)" w a w']
    by (auto simp: client_write_def client_upsert_def)
  then show ?thesis using Some by (auto simp: svc_upsert_def write_point_def respond_Inr)
qed

lemma client_get_Inr:
  assumes "client_get N cl c ids cons w = Some (Inr out, w')"
  shows "\<exists>n hits. nt_at N (cl_channel cl) = Some n \<and>
    coordinate_get N n c ids (from_proto (consistency_to_i32 cons)) (snd (next_event w)) = Some (Inr hits, w') \<and>
    out = map (\<lambda>(j, v). \<lparr>cp_id = j, cp_vector = v, cp_payload = None\<rparr>) hits"
  using client_call_Inr [OF assms [unfolded client_get_def]] by (auto simp: svc_get_def respond_Inr)

section \<open>Properties\<close>

text \<open>C11. What clients see: once a client has been told that its upsert or delete of a point succeeded,
  a later get of any client, through any node, that returns an answer and whose consistency level
  overlaps with that of the write, returns a version of the point somebody issued that is not
  older; if nobody issued a newer one, exactly the vector written, or no point after a delete.  This
  holds whatever messages of either call were lost and whatever the rest of the cluster did.\<close>

theorem client_reads_acked_write:
  assumes w: "world_ok N D G M (2 * length rs) L w" and rs: "rs = replicas_with_addrs (nt_hash N) (M me) c i"
    and schema: "map_of (ms_collections (M me)) c = Some schema" "shard_for_id (nt_hash N) j (cs_shard_count schema) = Some i"
    and nodes: "nt_at N (cl_channel a) = Some me" "nt_at N (cl_channel b) = Some me'" "M me' = M me" and dir: "list_all (reachable_at N) rs"
    and h: "h = fst (stamp me (snd (next_event (snd (next_event w)))))"
    and iss: "issued_ok G" "(h, u) \<in> G \<lparr>sk_collection = c, sk_shard_idx = i\<rparr> j"
    and quorum: "length rs < count (from_proto (consistency_to_i32 cw)) (length rs) + count (from_proto (consistency_to_i32 cr)) (length rs)"
    and wr: "(case u of Some v \<Rightarrow> client_upsert N a c [\<lparr>cp_id = j, cp_vector = v, cp_payload = pl\<rparr>] cw w | None \<Rightarrow> client_delete N a c [j] cw w) = Some (Inr n, w1)"
    and get: "client_get N b c [j] cr w1 = Some (Inr out, w2)"
  shows "(\<exists>g x. (g, x) \<in> G \<lparr>sk_collection = c, sk_shard_idx = i\<rparr> j \<and> h \<le> g \<and>
      out = (case x of None \<Rightarrow> [] | Some v \<Rightarrow> [\<lparr>cp_id = j, cp_vector = v, cp_payload = None\<rparr>])) \<and>
    ((\<forall>g x. (g, x) \<in> G \<lparr>sk_collection = c, sk_shard_idx = i\<rparr> j \<and> h \<le> g \<longrightarrow> (g, x) = (h, u)) \<longrightarrow>
      out = (case u of None \<Rightarrow> [] | Some v \<Rightarrow> [\<lparr>cp_id = j, cp_vector = v, cp_payload = None\<rparr>]))"
proof -
  from wr [folded client_write_def] client_write_Inr [of N a c j u pl cw w n w1] nodes(1) obtain pl' where
    wp: "write_point N me c j u pl' (from_proto (consistency_to_i32 cw)) (snd (next_event w)) = Some (Inr n, w1)" by auto
  obtain L0 where L0: "world_ok N D G M (length rs + length rs) L0 (snd (next_event w))" using next_event_ok [OF w] by (auto simp: mult_2)
  obtain L1 pl'' where w1: "world_ok N D G M (length rs) L1 w1" "op_ok D G schema schema (op_of c i j h u pl'')"
      "acked_on (op_of c i j h u pl'') rs (count (from_proto (consistency_to_i32 cw)) (length rs)) L1"
    using write_point_acked [where M = M and me = me and c = c and i = i, OF L0 rs schema dir h iss wp] by blast
  obtain hits where g: "coordinate_get N me' c [j] (from_proto (consistency_to_i32 cr)) (snd (next_event w1)) = Some (Inr hits, w2)"
      "out = map (\<lambda>(j, v). \<lparr>cp_id = j, cp_vector = v, cp_payload = None\<rparr>) hits" using client_get_Inr [OF get] nodes(2) by auto
  obtain L2 where L2: "world_ok N D G M (length rs) L2 (snd (next_event w1))" "grow L1 L2" using next_event_ok [OF w1(1)] by blast
  have "rs = replicas_with_addrs (nt_hash N) (M me') c i" "map_of (ms_collections (M me')) c = Some schema" using rs schema(1) nodes(3) by simp_all
  from get_sees_acked [where M = M and me = me' and c = c and i = i, OF L2(1) this schema(2) dir w1(2) acked_on_grow [OF w1(3) L2(2)] quorum g(1)]
  obtain v x where v: "(v, x) \<in> G \<lparr>sk_collection = c, sk_shard_idx = i\<rparr> j" "h \<le> v" "hits = (case x of None \<Rightarrow> [] | Some v \<Rightarrow> [(j, v)])" by blast
  then have out: "out = (case x of None \<Rightarrow> [] | Some v \<Rightarrow> [\<lparr>cp_id = j, cp_vector = v, cp_payload = None\<rparr>])" using g(2) by (simp split: option.split)
  then show ?thesis using v(1,2) by blast
qed

theorem client_reads_acked_write_witness:
  "\<exists>w1 w2 out. client_upsert demo_net \<lparr>cl_channel = [1]\<rparr> [99] [\<lparr>cp_id = 7, cp_vector = [3], cp_payload = None\<rparr>] ProtoQuorum
       (demo_world (map demo_event [Answered, Answered, Answered, Unreachable])) = Some (Inr 1, w1) \<and>
     client_get demo_net \<lparr>cl_channel = [2]\<rparr> [99] [7] ProtoUnspecified w1 = Some (Inr out, w2) \<and>
     out = [\<lparr>cp_id = 7, cp_vector = [3], cp_payload = None\<rparr>]"
proof -
  let ?start = "demo_world (map demo_event [Answered, Answered, Answered, Unreachable])"
  let ?w = "demo_world (map demo_event [Answered, Answered, Unreachable])"
  have e: "next_event ?start = (demo_event Answered, ?w)" using demo_next [of Answered "map demo_event [Answered, Answered, Unreachable]"] by simp
  obtain w1 where w1: "coordinate_upsert demo_net 1 [99] [(7, [3], [])] Quorum ?w = Some (Inr 1, w1)"
      "fst (stamp 1 (snd (next_event ?w))) = Hlc 5 0" "w_events w1 = []"
      "demo_stores (\<lambda>n. if n = 1 \<or> n = 2 then demo_written else demo_store) w1" using demo_upsert by blast
  obtain w2 hits where w2: "coordinate_get demo_net 2 [99] [7] Quorum w1 = Some (Inr hits, w2)" using demo_get [OF w1(4,3)] by blast
  let ?out = "map (\<lambda>(j, v). \<lparr>cp_id = j, cp_vector = v, cp_payload = None\<rparr>) hits"
  have at: "nt_at demo_net (cl_channel \<lparr>cl_channel = [1]\<rparr>) = Some 1" "nt_at demo_net (cl_channel \<lparr>cl_channel = [2]\<rparr>) = Some 2"
    by (simp_all add: demo_net_def)
  have up: "client_upsert demo_net \<lparr>cl_channel = [1]\<rparr> [99] [\<lparr>cp_id = 7, cp_vector = [3], cp_payload = None\<rparr>] ProtoQuorum ?start = Some (Inr 1, w1)"
    using w1(1) at(1) e by (simp add: client_upsert_def client_call_def svc_upsert_def respond_def demo_event_def from_proto_def)
  have "next_event w1 = (quiet_event, w1)" using w1(3) by (simp add: next_event_def)
  then have get: "client_get demo_net \<lparr>cl_channel = [2]\<rparr> [99] [7] ProtoUnspecified w1 = Some (Inr ?out, w2)"
    using w2 at(2) by (simp add: client_get_def client_call_def svc_get_def respond_def quiet_event_def from_proto_def)
  have rs: "[(1, [1]), (2, [2]), (3, [3])] = replicas_with_addrs (nt_hash demo_net) demo_meta [99] 0"
    using demo_replicas by (simp add: demo_net_def)
  have ok: "world_ok demo_net (\<lambda>_. 1) demo_issued (\<lambda>_. demo_meta) (2 * length [(1 :: node_id, [1 :: byte]), (2, [2]), (3, [3])]) (\<lambda>_ _. []) ?start"
    by (rule demo_world_ok) simp
  have sch: "map_of (ms_collections demo_meta) [99] = Some demo_coll" "shard_for_id (nt_hash demo_net) 7 (cs_shard_count demo_coll) = Some 0"
    using demo_home_shard by (simp_all add: demo_meta_def demo_net_def)
  have iss: "issued_ok demo_issued" "(Hlc 5 0, Some [3]) \<in> demo_issued \<lparr>sk_collection = [99], sk_shard_idx = 0\<rparr> 7"
    by (simp_all add: issued_ok_def demo_issued_def hlc_ok_def)
  have h: "Hlc 5 0 = fst (stamp 1 (snd (next_event (snd (next_event ?start)))))" using e w1(2) by simp
  have out: "?out = [\<lparr>cp_id = 7, cp_vector = [3], cp_payload = None\<rparr>]"
    using client_reads_acked_write [where u = "Some [3]" and pl = None and cw = ProtoQuorum and cr = ProtoUnspecified and n = 1,
        OF ok rs sch at refl demo_reachable h iss _ _ get] up by (simp add: count_def demo_issued_def from_proto_def)
  show ?thesis using up get unfolding out by blast
qed

end
