(* ===== verification/Crash_Writer.thy ===== *)
theory Crash_Writer
  imports Shard_Props Float32
begin

text \<open>
  The writer of the crash tests (\<open>qv-storage/examples/crash_writer.rs\<close>): it opens a shard, upserts
  vectors one after the other and prints the id of each once the call has returned.  The test harness
  kills it at any moment, starts it again and relies on every printed id being there.
\<close>

section \<open>The program\<close>

text \<open>\<open>n as f32\<close> for a small number.\<close>

definition f32_of_int :: "int \<Rightarrow> f32" where
  "f32_of_int n = f32_make False (round_ratio (n * 2 ^ 149) 1)"

definition cw_vector :: "nat \<Rightarrow> u64 \<Rightarrow> vec" where
  "cw_vector dim i = map (\<lambda>d. f32_mul (f32_of_int ((uint i + int d) mod 97)) 0x3C23D70A) [0..<dim]"

record crash_writer =
  cw_shard :: shard
  cw_next :: u64
  cw_counter :: u16
  cw_acked :: "u64 list"

definition cw_start :: "shard \<Rightarrow> crash_writer" where
  "cw_start s = \<lparr>cw_shard = s, cw_next = of_nat (shard_len s), cw_counter = 0, cw_acked = []\<rparr>"

text \<open>A turn of the loop, and whether the process is alive after it: an error ends it.\<close>

definition cw_turn :: "env \<Rightarrow> nat \<Rightarrow> crash_writer \<Rightarrow> (bool \<times> crash_writer) option" where
  "cw_turn E dim st =
     (let i = cw_next st; v = cw_vector dim i; c = cw_counter st + 1; h = hlc_new i c in
      case shard_upsert E h i v [] (cw_shard st) of
        None \<Rightarrow> None
      | Some (Inl e, s) \<Rightarrow> Some (False, st\<lparr>cw_shard := s\<rparr>)
      | Some (Inr _, s) \<Rightarrow> Some (True, \<lparr>cw_shard = s, cw_next = i + 1, cw_counter = c, cw_acked = cw_acked st @ [i]\<rparr>))"

text \<open>The loop never ends by itself; this is what has happened when it is killed after \<open>n\<close> turns.\<close>

fun cw_loop :: "env \<Rightarrow> nat \<Rightarrow> nat \<Rightarrow> crash_writer \<Rightarrow> crash_writer option" where
  "cw_loop E dim 0 st = Some st"
| "cw_loop E dim (Suc n) st = (case cw_turn E dim st of
     None \<Rightarrow> None
   | Some (alive, st) \<Rightarrow> if alive then cw_loop E dim n st else Some st)"

section \<open>The harness\<close>

text \<open>A run is killed after some turns, or in the middle of one by a fault in a system call; the scripts
  say which calls on the log, the temporary file and the snapshot directory fail, and how much
  of a write is done.  What was not synced is lost in part.\<close>

record kill =
  kl_log :: "nat option list"
  kl_tmp :: "nat option list"
  kl_dir :: "nat option list"
  kl_turns :: nat
  kl_bytes :: nat
  kl_slot :: bool

definition with_faults :: "kill \<Rightarrow> shard \<Rightarrow> shard" where
  "with_faults f s = s\<lparr>sh_wal := (sh_wal s)\<lparr>writer := (writer (sh_wal s))\<lparr>inner := (log_file (sh_wal s))\<lparr>script := kl_log f\<rparr>\<rparr>\<rparr>,
     sh_snap := (sh_snap s)\<lparr>af_tmp := (af_tmp (sh_snap s))\<lparr>script := kl_tmp f\<rparr>, af_dir := (af_dir (sh_snap s))\<lparr>script := kl_dir f\<rparr>\<rparr>\<rparr>"

text \<open>\<open>None\<close> if the library panics, or the shard cannot be opened.\<close>

definition cw_main :: "env \<Rightarrow> nat \<Rightarrow> kill \<Rightarrow> shard_disk \<Rightarrow> crash_writer option" where
  "cw_main E dim f disk = (case shard_open E dim L2 1 0 disk of
     Some (Inr s, _) \<Rightarrow> cw_loop E dim (kl_turns f) (cw_start (with_faults f s))
   | _ \<Rightarrow> None)"

fun cw_runs :: "env \<Rightarrow> nat \<Rightarrow> kill list \<Rightarrow> shard_disk \<Rightarrow> u64 list \<Rightarrow> (u64 list \<times> shard_disk) option" where
  "cw_runs E dim [] disk acked = Some (acked, disk)"
| "cw_runs E dim (f # fs) disk acked = (case cw_main E dim f disk of
     None \<Rightarrow> None
   | Some st \<Rightarrow> cw_runs E dim fs (shard_crash (kl_bytes f) (kl_slot f) (cw_shard st)) (acked @ cw_acked st))"

section \<open>The log of the writer\<close>

definition cw_record :: "nat \<Rightarrow> nat \<Rightarrow> u16 \<Rightarrow> wal_record" where
  "cw_record dim j c = wal_record_upsert (hlc_new (of_nat j) c) (of_nat j) (cw_vector dim (of_nat j)) []"

definition written :: "nat \<Rightarrow> wal_record list \<Rightarrow> bool" where
  "written dim rs \<longleftrightarrow> (\<forall>j<length rs. \<exists>c. rs ! j = cw_record dim j c)"

lemma written_snoc: "written dim (rs @ [r]) \<longleftrightarrow> written dim rs \<and> (\<exists>c. r = cw_record dim (length rs) c)"
  by (auto simp: written_def nth_append less_Suc_eq)

lemma written_prefix:
  assumes "written dim (as @ bs)"
  shows "written dim as"
  unfolding written_def
proof (intro allI impI)
  fix j
  assume "j < length as"
  then show "\<exists>c. as ! j = cw_record dim j c" using assms by (auto simp: written_def nth_append dest!: spec [of _ j])
qed

lemma written_kept: "written dim rs \<Longrightarrow> written dim (kept encode_body n rs)"
  using kept_prefix [of rs encode_body n] written_prefix by metis

lemma small_id: "j < 2 ^ 32 \<Longrightarrow> unat (of_nat j :: u64) = j"
  by (simp add: unat_of_nat)

lemma cw_record_sel [simp]:
  "rec_id (cw_record dim j c) = of_nat j" "rec_hlc (cw_record dim j c) = hlc_new (of_nat j) c"
  "rec_value (cw_record dim j c) = Some (cw_vector dim (of_nat j))" "rec_dim dim (cw_record dim j c)"
  by (simp_all add: cw_record_def wal_record_upsert_def rec_value_def rec_dim_def cw_vector_def)

lemma cw_record_fits: "j < 2 ^ 32 \<Longrightarrow> dim < 2 ^ 28 \<Longrightarrow> wal_fits (cw_record dim j c)"
  by (simp add: cw_record_def wal_record_upsert_def fits_def rec_ok_def cw_vector_def)

text \<open>Its image: the ids below the length, each with its vector.\<close>

lemma written_lww:
  assumes "written dim rs" "length rs \<le> 2 ^ 32"
  shows "lww_log rs i = (if unat i < length rs then Some (rec_hlc (rs ! unat i), Some (cw_vector dim i)) else None)"
  using assms
proof (induction rs arbitrary: i rule: rev_induct)
  case (snoc r rs)
  obtain c where r: "r = cw_record dim (length rs) c" using snoc.prems(1) by (auto simp: written_snoc)
  have w: "written dim rs" "length rs \<le> 2 ^ 32" using snoc.prems by (simp_all add: written_snoc)
  have u: "unat (of_nat (length rs) :: u64) = length rs" using snoc.prems(2) by (intro small_id) simp
  have i: "i = of_nat (length rs) \<longleftrightarrow> unat i = length rs" using u by (simp add: word_unat_eq_iff)
  show ?case
    using snoc.IH [OF w] u i r by (auto simp: lww_log_snoc lww_apply_def nth_append)
qed simp

lemma written_get:
  assumes "shard_inv E rs s" "written dim rs" "unat i < length rs"
  shows "shard_get s i = Some (Some (cw_vector dim i))"
  using image_reads(2) [OF assms(1)] written_lww [OF assms(2) shard_invD(2) [OF assms(1)]] assms(3) by simp

lemma written_len:
  assumes "shard_inv E rs s" "written dim rs"
  shows "shard_len s = length rs"
proof -
  note I = image_okD [OF shard_invD(4) [OF assms(1)]] and n = shard_invD(2) [OF assms(1)]
  have "dom (hnsw_points (sh_index s)) = {i. unat i < length rs}"
  proof -
    have "hnsw_points (sh_index s) i = (if unat i < length rs then Some (cw_vector dim i) else None)" for i
      using image_reads(2) [OF assms(1), of i] hnsw_get_vector_ok [OF I(1), of i] written_lww [OF assms(2) n, of i]
      by (simp add: shard_get_def split: if_splits)
    then show ?thesis by (auto split: if_splits)
  qed
  also have "\<dots> = of_nat ` {..<length rs}"
  proof (intro equalityI subsetI)
    fix i :: u64
    assume "i \<in> {i. unat i < length rs}"
    then show "i \<in> of_nat ` {..<length rs}" by (intro image_eqI [of _ _ "unat i"]) simp_all
  qed (use n in \<open>auto simp: small_id\<close>)
  finally have "card (dom (hnsw_points (sh_index s))) = card {..<length rs}"
    using n by (subst card_image [symmetric, where f = "of_nat :: nat \<Rightarrow> u64"]) (auto simp: inj_on_def dest!: arg_cong [of _ _ unat] simp: small_id)
  then show ?thesis using I(1) hnsw_live by (simp add: shard_len_def hnsw_inv_def)
qed

section \<open>A write, completed or not\<close>

lemma fresh_not_stale:
  assumes "shard_inv E rs s" "written dim rs" "length rs \<le> unat i"
  shows "\<not> is_stale s i h"
  using image_reads(1) [OF assms(1), of i] written_lww [OF assms(2) shard_invD(2) [OF assms(1)], of i] assms(3)
  by (simp add: is_stale_def shard_version_def)

text \<open>What the next start finds: a log of the writer with everything acknowledged so far.\<close>

definition recovered :: "env \<Rightarrow> nat \<Rightarrow> wal_record list \<Rightarrow> shard \<Rightarrow> bool" where
  "recovered E dim rs t \<longleftrightarrow> shard_inv E rs t \<and> written dim rs \<and> sh_dim t = dim \<and> durable (sh_wal t) \<and> batch_ms (sh_wal t) = 0"

definition opens_to :: "env \<Rightarrow> nat \<Rightarrow> nat \<Rightarrow> nat \<Rightarrow> shard_disk \<Rightarrow> bool" where
  "opens_to E dim lo hi disk \<longleftrightarrow> (\<exists>rs t d. shard_open E dim L2 1 0 disk = Some (Inr t, d) \<and> recovered E dim rs t \<and> lo \<le> length rs \<and> length rs \<le> hi)"

lemma opens_to_mono: "opens_to E dim lo hi disk \<Longrightarrow> lo' \<le> lo \<Longrightarrow> hi \<le> hi' \<Longrightarrow> opens_to E dim lo' hi' disk"
  unfolding opens_to_def by (meson le_trans)

lemma synced_log: "shard_inv E rs s \<Longrightarrow> durable (sh_wal s) \<Longrightarrow> length (wal_log (e_crc E) rs) \<le> synced (log_file (sh_wal s))"
  using shard_invD(5) [of E rs s] by (auto simp: wal_inv_def durable_def logical_def)

lemma crashed_opens_to:
  assumes "shard_inv E rs s" "written dim rs" "sh_dim s = dim" "rs = as @ bs" "length (wal_log (e_crc E) as) \<le> synced (log_file (sh_wal s))"
  shows "opens_to E dim (length as) (length rs) (shard_crash k b s)"
proof -
  from shard_open_crashed [OF assms(1), of L2 1 0 k b] obtain rs1 rs2 t d where
    t: "shard_open E (sh_dim s) L2 1 0 (shard_crash k b s) = Some (Inr t, d)" "rs = rs1 @ rs2" "shard_inv E rs1 t" "sh_dim t = sh_dim s"
      "durable (sh_wal t)" "batch_ms (sh_wal t) = 0"
      "\<forall>as bs. rs = as @ bs \<longrightarrow> length (wal_log (e_crc E) as) \<le> synced (log_file (sh_wal s)) \<longrightarrow> (\<exists>cs. rs1 = as @ cs)"
    by blast
  then obtain cs where "rs1 = as @ cs" using assms(4,5) by blast
  moreover have "written dim rs1" using assms(2) t(2) written_prefix by blast
  ultimately show ?thesis using t assms(3) by (auto simp: opens_to_def recovered_def intro!: exI [of _ rs1] exI [of _ t])
qed

lemma upsert_fresh:
  assumes E: "bincode_ok E" and s: "recovered E dim rs s" and len: "length rs < 2 ^ 32" and dim: "dim < 2 ^ 28"
  shows "\<exists>q s'. shard_upsert E (hlc_new (of_nat (length rs)) c) (of_nat (length rs)) (cw_vector dim (of_nat (length rs))) [] s = Some (q, s') \<and>
    (\<forall>u. q = Inr u \<longrightarrow> recovered E dim (rs @ [cw_record dim (length rs) c]) s') \<and>
    (\<forall>k b. opens_to E dim (length rs) (Suc (length rs)) (shard_crash k b s'))"
proof -
  let ?i = "of_nat (length rs) :: u64" and ?r = "cw_record dim (length rs) c"
  let ?v = "cw_vector dim ?i" and ?h = "hlc_new ?i c"
  have R: "shard_inv E rs s" "written dim rs" "sh_dim s = dim" "durable (sh_wal s)" "batch_ms (sh_wal s) = 0"
    using s by (simp_all add: recovered_def)
  have w: "written dim (rs @ [?r])" using R(2) by (auto simp: written_snoc)
  have r: "wal_fits ?r" "rec_dim (sh_dim s) ?r" using cw_record_fits [OF len dim] R(3) by simp_all
  have ns: "\<not> is_stale s ?i ?h" by (rule fresh_not_stale [OF R(1,2)]) (simp add: small_id [OF len])
  obtain ix' where ix': "hnsw_insert (e_K E) (e_lv E) ?i ?v (sh_index s) = Some (Inr (), ix')"
      "image_ok (sh_dim s) (rs @ [?r]) ix' (AList.update ?i \<lparr>pv_hlc = ?h, pv_tombstone = False\<rparr> (sh_versions s))"
    using upsert_image [OF shard_invD(4) [OF R(1)] ns, where v = ?v and pl = "[]" and K = "e_K E" and lv = "e_lv E"] len R(3) by (auto simp: cw_record_def cw_vector_def)
  let ?act = "hnsw_insert (e_K E) (e_lv E) ?i ?v"
  have eq: "shard_upsert E ?h ?i ?v [] s = commit E ?r ?act False s"
    using R(3) by (simp add: shard_upsert_def cw_record_def cw_vector_def)
  have sy: "length (wal_log (e_crc E) rs) \<le> synced (log_file (sh_wal s))" by (rule synced_log [OF R(1,4)])
  have img: "image_ok (sh_dim s) (rs @ [?r]) ix' (AList.update (rec_id ?r) \<lparr>pv_hlc = rec_hlc ?r, pv_tombstone = False\<rparr> (sh_versions s))"
    using ix'(2) by simp
  from commit_cases [where act = ?act and tomb = False, OF E R(1) r len ix'(1) img] show ?thesis
  proof (elim disjE exE conjE, goal_cases)
    case (1 e wl)
    have "opens_to E dim (length rs) (Suc (length rs)) (shard_crash k b (s\<lparr>sh_wal := wl\<rparr>))" for k b
    proof -
      obtain rs1 t d n where t: "shard_open E (sh_dim s) L2 1 0 (shard_crash k b (s\<lparr>sh_wal := wl\<rparr>)) = Some (Inr t, d)"
          "shard_inv E rs1 t" "sh_dim t = sh_dim s" "durable (sh_wal t)" "batch_ms (sh_wal t) = 0"
          "rs1 = kept encode_body n (rs @ [?r])" "synced (log_file (sh_wal s)) \<le> n"
        using shard_open_torn [OF R(1) r len 1(1), of L2 1 0 k b] by blast
      obtain cs ds where "[?r] = cs @ ds" "rs1 = rs @ cs"
        using kept_with_prefix [of "e_crc E" encode_body rs n "[?r]"] t(6,7) sy by auto
      then have "length rs \<le> length rs1" "length rs1 \<le> Suc (length rs)" by (auto simp: Cons_eq_append_conv)
      with t written_kept [OF w] R(3) show ?thesis unfolding opens_to_def recovered_def by blast
    qed
    with 1 eq show ?thesis by simp
  next
    case (2 q s')
    have "opens_to E dim (length rs) (Suc (length rs)) (shard_crash k b s')" for k b
      using crashed_opens_to [OF 2(2) w, of rs "[?r]" k b] 2 R(3) sy by simp
    with 2 w R(3,5) eq show ?thesis by (cases q) (simp_all add: recovered_def)
  qed
qed

section \<open>Runs\<close>

text \<open>Scripts of faults do not matter to what a shard holds.\<close>

lemma with_faults_recovered: "recovered E dim rs s \<Longrightarrow> recovered E dim rs (with_faults f s)"
  by (auto simp: recovered_def with_faults_def shard_inv_def wal_inv_def logical_def durable_def store_ok_def af_holds_def)

lemma recovered_opens:
  assumes "recovered E dim rs s"
  shows "opens_to E dim (length rs) (length rs) (shard_crash k b s)"
  using assms crashed_opens_to [of E rs s dim rs "[]" k b] synced_log by (simp add: recovered_def)

text \<open>After the turns of a run: the ids printed are the numbers from the length at its start on.\<close>

lemma cw_loop_ok:
  assumes "bincode_ok E" "dim < 2 ^ 28"
  shows "recovered E dim rs (cw_shard st) \<Longrightarrow> cw_next st = of_nat (length rs) \<Longrightarrow> length rs + n \<le> 2 ^ 32 \<Longrightarrow>
    \<exists>st' m. cw_loop E dim n st = Some st' \<and> length rs \<le> m \<and> cw_acked st' = cw_acked st @ map of_nat [length rs..<m] \<and>
      (\<forall>k b. opens_to E dim m (length rs + n) (shard_crash k b (cw_shard st')))"
proof (induction n arbitrary: rs st)
  case 0
  then show ?case using recovered_opens by (auto intro!: exI [of _ "length rs"])
next
  case (Suc n)
  let ?c = "cw_counter st + 1" and ?i = "of_nat (length rs) :: u64"
  have len: "length rs < 2 ^ 32" using Suc.prems(3) by simp
  obtain q s' where q: "shard_upsert E (hlc_new ?i ?c) ?i (cw_vector dim ?i) [] (cw_shard st) = Some (q, s')"
      "\<And>u. q = Inr u \<Longrightarrow> recovered E dim (rs @ [cw_record dim (length rs) ?c]) s'"
      "\<And>k b. opens_to E dim (length rs) (Suc (length rs)) (shard_crash k b s')"
    using upsert_fresh [OF assms(1) Suc.prems(1) len assms(2), of ?c] by blast
  show ?case
  proof (cases q)
    case (Inl e)
    have "opens_to E dim (length rs) (length rs + Suc n) (shard_crash k b s')" for k b
      by (rule opens_to_mono [OF q(3)]) simp_all
    then show ?thesis using Inl q(1) Suc.prems(2) by (auto simp: cw_turn_def Let_def intro!: exI [of _ "length rs"])
  next
    case (Inr u)
    let ?st = "\<lparr>cw_shard = s', cw_next = ?i + 1, cw_counter = ?c, cw_acked = cw_acked st @ [?i]\<rparr>"
    from Suc.IH [of "rs @ [cw_record dim (length rs) ?c]" ?st] q(2) [OF Inr] Suc.prems(3) obtain st' m where
      st': "cw_loop E dim n ?st = Some st'" "Suc (length rs) \<le> m" "cw_acked st' = cw_acked ?st @ map of_nat [Suc (length rs)..<m]"
        "\<And>k b. opens_to E dim m (Suc (length rs) + n) (shard_crash k b (cw_shard st'))" by auto
    moreover have "[length rs..<m] = length rs # [Suc (length rs)..<m]" using st'(2) by (simp add: upt_conv_Cons)
    ultimately show ?thesis using Inr q(1) Suc.prems(2) by (auto simp: cw_turn_def Let_def intro!: exI [of _ m])
  qed
qed

lemma cw_main_ok:
  assumes "bincode_ok E" "dim < 2 ^ 28" "opens_to E dim lo hi disk" "hi + kl_turns f \<le> 2 ^ 32"
  shows "\<exists>st m m'. cw_main E dim f disk = Some st \<and> lo \<le> m \<and> m \<le> m' \<and> cw_acked st = map of_nat [m..<m'] \<and>
    (\<forall>k b. opens_to E dim m' (hi + kl_turns f) (shard_crash k b (cw_shard st)))"
proof -
  obtain rs s d where s: "shard_open E dim L2 1 0 disk = Some (Inr s, d)" "recovered E dim rs s" "lo \<le> length rs" "length rs \<le> hi"
    using assms(3) by (auto simp: opens_to_def)
  let ?s = "with_faults f s"
  have r: "recovered E dim rs ?s" using with_faults_recovered [OF s(2)] .
  have "shard_len ?s = length rs" using written_len [of E rs ?s dim] r by (simp add: recovered_def)
  then obtain st m where st: "cw_loop E dim (kl_turns f) (cw_start ?s) = Some st" "length rs \<le> m" "cw_acked st = map of_nat [length rs..<m]"
      "\<And>k b. opens_to E dim m (length rs + kl_turns f) (shard_crash k b (cw_shard st))"
    using cw_loop_ok [OF assms(1,2), of rs "cw_start ?s" "kl_turns f"] r assms(4) s(4) by (auto simp: cw_start_def)
  have "opens_to E dim m (hi + kl_turns f) (shard_crash k b (cw_shard st))" for k b
    by (rule opens_to_mono [OF st(4)]) (use s(4) in simp_all)
  with st s show ?thesis by (auto simp: cw_main_def)
qed

text \<open>All runs together.\<close>

definition acked_below :: "u64 list \<Rightarrow> nat \<Rightarrow> bool" where
  "acked_below acked n \<longleftrightarrow> distinct acked \<and> (\<forall>i\<in>set acked. unat i < n)"

lemma acked_below_append:
  assumes "acked_below acked n" "n \<le> m" "m \<le> m'" "m' \<le> 2 ^ 32"
  shows "acked_below (acked @ map of_nat [m..<m']) m'"
proof -
  have u: "unat (of_nat j :: u64) = j" if "j < m'" for j using that assms(4) by (intro small_id) simp
  have "distinct (map (of_nat :: nat \<Rightarrow> u64) [m..<m'])"
    by (auto simp: distinct_map inj_on_def) (metis u)
  moreover have "set acked \<inter> set (map of_nat [m..<m']) = {}" using assms(1,2) u by (fastforce simp: acked_below_def)
  ultimately show ?thesis using assms u by (fastforce simp: acked_below_def)
qed

lemma opens_to_bound: "opens_to E dim lo hi disk \<Longrightarrow> lo \<le> 2 ^ 32"
  unfolding opens_to_def recovered_def using shard_invD(2) by (metis le_trans)

lemma cw_runs_ok:
  assumes "bincode_ok E" "dim < 2 ^ 28"
  shows "opens_to E dim lo hi disk \<Longrightarrow> acked_below acked lo \<Longrightarrow> hi + sum_list (map kl_turns fs) \<le> 2 ^ 32 \<Longrightarrow>
    \<exists>acked' disk' lo' hi'. cw_runs E dim fs disk acked = Some (acked', disk') \<and> opens_to E dim lo' hi' disk' \<and> acked_below acked' lo'"
proof (induction fs arbitrary: disk acked lo hi)
  case (Cons f fs)
  from Cons.prems(3) have "hi + kl_turns f \<le> 2 ^ 32" by simp
  from cw_main_ok [OF assms Cons.prems(1) this] obtain st m m' where
    st: "cw_main E dim f disk = Some st" "lo \<le> m" "m \<le> m'" "cw_acked st = map of_nat [m..<m']"
      "\<And>k b. opens_to E dim m' (hi + kl_turns f) (shard_crash k b (cw_shard st))" by blast
  have "acked_below (acked @ cw_acked st) m'"
    unfolding st(4) by (rule acked_below_append [OF Cons.prems(2) st(2,3) opens_to_bound [OF st(5)]])
  from Cons.IH [OF st(5) this] Cons.prems(3) st(1) show ?case by (simp add: add.assoc)
qed auto

section \<open>The contract of the harness\<close>

text \<open>C8. Every id the writer has printed is there.  Start it on a new directory, kill it after any
  number of writes or in the middle of one, by any faults of the disk, restart it on what is left,
  and so on any number of times: no run panics or fails to open the shard, no id is printed twice,
  and opening the shard afterwards finds every id ever printed with the vector written for it.\<close>

theorem crash_writer_acks_survive:
  assumes "bincode_ok E" "0 < dim" "dim < 2 ^ 28" "sum_list (map kl_turns fs) \<le> 2 ^ 32"
  shows "\<exists>acked disk t d. cw_runs E dim fs (fresh_disk [] [] []) [] = Some (acked, disk) \<and> distinct acked \<and>
    shard_open E dim L2 1 0 disk = Some (Inr t, d) \<and> (\<forall>i\<in>set acked. shard_get t i = Some (Some (cw_vector dim i)))"
proof -
  obtain s d where s: "shard_open E dim L2 1 0 (fresh_disk [] [] []) = Some (Inr s, d)" using shard_open_fresh_mb [OF assms(2)] by blast
  have "recovered E dim [] s" using shard_open_fresh [OF assms(2) s] by (simp add: recovered_def written_def)
  then have "opens_to E dim 0 0 (fresh_disk [] [] [])" using s by (auto simp: opens_to_def intro!: exI [of _ "[]"])
  from cw_runs_ok [OF assms(1,3) this, of "[]" fs] assms(4) obtain acked disk lo hi where
    r: "cw_runs E dim fs (fresh_disk [] [] []) [] = Some (acked, disk)" "opens_to E dim lo hi disk" "acked_below acked lo"
    by (auto simp: acked_below_def)
  then obtain rs t d where "shard_open E dim L2 1 0 disk = Some (Inr t, d)" "recovered E dim rs t" "lo \<le> length rs" by (auto simp: opens_to_def)
  with r written_get show ?thesis by (fastforce simp: acked_below_def recovered_def)
qed

text \<open>Without faults the first write is acknowledged.\<close>

definition quiet_kill :: "nat \<Rightarrow> kill" where
  "quiet_kill n = \<lparr>kl_log = [], kl_tmp = [], kl_dir = [], kl_turns = n, kl_bytes = 0, kl_slot = True\<rparr>"

lemma first_write_acked:
  assumes "0 < dim" "dim < 1000"
  shows "\<exists>st. cw_main E dim (quiet_kill 1) (fresh_disk [] [] []) = Some st \<and> cw_acked st = [0]"
proof -
  obtain s d where s: "shard_open E dim L2 1 0 (fresh_disk [] [] []) = Some (Inr s, d)" "faultless (sh_wal s)" "sh_threshold s = saturating_mb 1"
    using shard_open_fresh_mb [OF assms(1)] by blast
  let ?s = "with_faults (quiet_kill 1) s"
  have "recovered E dim [] s" using shard_open_fresh [OF assms(1) s(1)] by (simp add: recovered_def written_def)
  then have r: "recovered E dim [] ?s" by (rule with_faults_recovered)
  then have R: "shard_inv E [] ?s" "sh_dim ?s = dim" by (simp_all add: recovered_def)
  have "shard_len ?s = 0" using written_len [of E "[]" ?s dim] r by (simp add: recovered_def)
  let ?r = "cw_record dim 0 1"
  obtain n w where w: "wal_append (e_crc E) ?r (sh_wal ?s) = (Inr n, w)"
    using wal_append_faultless [of "sh_wal ?s" "e_crc E" ?r] s(2) by (auto simp: with_faults_def quiet_kill_def)
  have "wal_fits ?r" using cw_record_fits [of 0 dim 1] assms(2) by simp
  from wal_append_inv [OF shard_invD(5) [OF R(1)] this w] have "wal_len w = length (wal_log (e_crc E) [?r])" by (simp add: wal_inv_def)
  also have "\<dots> < 1024 * 1024" using assms(2) by (simp add: cw_record_def wal_record_upsert_def cw_vector_def)
  finally have small: "\<not> sh_threshold ?s \<le> wal_len w - k" for k using s(3) by (simp add: with_faults_def saturating_mb_def)
  have "\<not> is_stale ?s 0 (hlc_new 0 1)" using fresh_not_stale [OF R(1), of dim 0] by (simp add: written_def)
  from upsert_image [OF shard_invD(4) [OF R(1)] this, of "cw_vector dim 0"] R(2) obtain ix' where
    ix': "hnsw_insert (e_K E) (e_lv E) 0 (cw_vector dim 0) (sh_index ?s) = Some (Inr (), ix')" by (fastforce simp: cw_vector_def)
  have "\<exists>s'. shard_upsert E (hlc_new 0 1) 0 (cw_vector dim 0) [] ?s = Some (Inr (), s')"
    using w ix' R(2) small by (simp add: shard_upsert_def commit_def maybe_snapshot_def Let_def cw_record_def cw_vector_def)
  then show ?thesis using s(1) \<open>shard_len ?s = 0\<close> by (auto simp: cw_main_def cw_start_def cw_turn_def quiet_kill_def Let_def)
qed

theorem crash_writer_acks_survive_witness:
  "\<exists>acked disk t d. cw_runs demo_env 2 [quiet_kill 1,
      \<lparr>kl_log = [None, Some 3], kl_tmp = [], kl_dir = [], kl_turns = 5, kl_bytes = 60, kl_slot = True\<rparr>] (fresh_disk [] [] []) [] = Some (acked, disk) \<and>
    0 \<in> set acked \<and> shard_open demo_env 2 L2 1 0 disk = Some (Inr t, d) \<and> shard_get t 0 = Some (Some (cw_vector 2 0))"
proof -
  let ?kills = "[quiet_kill 1, \<lparr>kl_log = [None, Some 3], kl_tmp = [], kl_dir = [], kl_turns = 5, kl_bytes = 60, kl_slot = True\<rparr>]"
  have "sum_list (map kl_turns ?kills) \<le> 2 ^ 32" by (simp add: quiet_kill_def)
  from crash_writer_acks_survive [OF bincode_demo _ _ this, of 2] obtain acked disk t d where
    r: "cw_runs demo_env 2 ?kills (fresh_disk [] [] []) [] = Some (acked, disk)" "shard_open demo_env 2 L2 1 0 disk = Some (Inr t, d)"
      "\<forall>i\<in>set acked. shard_get t i = Some (Some (cw_vector 2 i))" by auto
  obtain st where st: "cw_main demo_env 2 (quiet_kill 1) (fresh_disk [] [] []) = Some st" "cw_acked st = [0]" using first_write_acked [of 2] by auto
  have "0 \<in> set acked" using r(1) st by (auto split: option.splits)
  with r show ?thesis by blast
qed

end
