(* ===== verification/Meta_Json.thy ===== *)
theory Meta_Json
  imports Raft_Store Decimal
begin

text \<open>
  The metadata as JSON: what serde derives from the declarations of \<open>qv-cluster/src/meta.rs\<close>, and
  the adapter \<open>shard_states_seq\<close> there.  A document is a tree; its text and the reader of text are
  those of \<open>serde_json\<close>.  Structs are read from objects and unit variants from strings, the forms
  that are written; the positional forms serde would also accept never occur.
\<close>

datatype json_value = JNum int | JStr str | JArr "json_value list" | JObj "(str \<times> json_value) list"

section \<open>Writing\<close>

text \<open>The keys of an object are texts: of a map only with string or integer keys.\<close>

fun key_text :: "json_value \<Rightarrow> str option" where
  "key_text (JStr s) = Some s"
| "key_text (JNum n) = Some (dec_bytes (nat n))"
| "key_text _ = None"

fun map_entries :: "('k \<Rightarrow> json_value) \<Rightarrow> ('v \<Rightarrow> json_value) \<Rightarrow> ('k \<times> 'v) list \<Rightarrow> json_error + (str \<times> json_value) list" where
  "map_entries fk fv [] = Inr []"
| "map_entries fk fv ((k, v) # m) =
     (case key_text (fk k) of None \<Rightarrow> Inl JsonError | Some s \<Rightarrow> map_sum id ((#) (s, fv v)) (map_entries fk fv m))"

definition word_json :: "'w::len word \<Rightarrow> json_value" where
  "word_json x = JNum (uint x)"

fun metric_json :: "meta_metric \<Rightarrow> json_value" where
  "metric_json MetricL2 = JStr (ascii ''L2'')"
| "metric_json MetricCosine = JStr (ascii ''Cosine'')"

fun shard_state_json :: "shard_state \<Rightarrow> json_value" where
  "shard_state_json Active = JStr (ascii ''Active'')"
| "shard_state_json Syncing = JStr (ascii ''Syncing'')"
| "shard_state_json Dead = JStr (ascii ''Dead'')"

definition schema_json :: "collection_schema \<Rightarrow> json_value" where
  "schema_json s = JObj [(ascii ''dim'', word_json (cs_dim s)), (ascii ''metric'', metric_json (cs_metric s)),
     (ascii ''shard_count'', word_json (cs_shard_count s)), (ascii ''replication_n'', word_json (cs_replication_n s))]"

fun state_key_json :: "str \<times> u32 \<times> node_id \<Rightarrow> json_value" where
  "state_key_json (c, i, n) = JArr [JStr c, word_json i, word_json n]"

definition shard_states_serialize :: "((str \<times> u32 \<times> node_id) \<times> shard_state) list \<Rightarrow> json_value" where
  "shard_states_serialize m = JArr (map (\<lambda>(k, st). JArr [state_key_json k, shard_state_json st]) m)"

definition meta_state_json :: "meta_state \<Rightarrow> json_error + json_value" where
  "meta_state_json s =
     (case map_entries word_json JStr (ms_nodes s) of Inl e \<Rightarrow> Inl e | Inr nodes \<Rightarrow>
      case map_entries JStr schema_json (ms_collections s) of Inl e \<Rightarrow> Inl e | Inr colls \<Rightarrow>
      Inr (JObj [(ascii ''nodes'', JObj nodes), (ascii ''collections'', JObj colls),
        (ascii ''shard_states'', shard_states_serialize (ms_shard_states s))]))"

fun request_json :: "meta_request \<Rightarrow> json_value" where
  "request_json (RegisterNode n addr) =
     JObj [(ascii ''RegisterNode'', JObj [(ascii ''node_id'', word_json n), (ascii ''advertise_addr'', JStr addr)])]"
| "request_json (DeregisterNode n) = JObj [(ascii ''DeregisterNode'', JObj [(ascii ''node_id'', word_json n)])]"
| "request_json (CreateCollection name schema) =
     JObj [(ascii ''CreateCollection'', JObj [(ascii ''name'', JStr name), (ascii ''schema'', schema_json schema)])]"
| "request_json (DropCollection name) = JObj [(ascii ''DropCollection'', JObj [(ascii ''name'', JStr name)])]"
| "request_json (SetShardState c i n st) =
     JObj [(ascii ''SetShardState'', JObj [(ascii ''collection'', JStr c), (ascii ''shard_idx'', word_json i),
       (ascii ''node_id'', word_json n), (ascii ''state'', shard_state_json st)])]"
| "request_json Noop = JStr (ascii ''Noop'')"

section \<open>Reading\<close>

text \<open>A field that occurs once.\<close>

definition field :: "string \<Rightarrow> (json_value \<Rightarrow> 'a option) \<Rightarrow> (str \<times> json_value) list \<Rightarrow> 'a option" where
  "field name de es = (case filter (\<lambda>(k, _). k = ascii name) es of [(_, v)] \<Rightarrow> de v | _ \<Rightarrow> None)"

fun json_str :: "json_value \<Rightarrow> str option" where
  "json_str (JStr s) = Some s"
| "json_str _ = None"

fun json_word :: "json_value \<Rightarrow> 'w::len word option" where
  "json_word (JNum n) = (if 0 \<le> n \<and> n < 2 ^ LENGTH('w) then Some (of_int n) else None)"
| "json_word _ = None"

definition json_metric :: "json_value \<Rightarrow> meta_metric option" where
  "json_metric v = (if v = JStr (ascii ''L2'') then Some MetricL2 else if v = JStr (ascii ''Cosine'') then Some MetricCosine else None)"

definition json_shard_state :: "json_value \<Rightarrow> shard_state option" where
  "json_shard_state v = (if v = JStr (ascii ''Active'') then Some Active else if v = JStr (ascii ''Syncing'') then Some Syncing
     else if v = JStr (ascii ''Dead'') then Some Dead else None)"

definition json_schema :: "json_value \<Rightarrow> collection_schema option" where
  "json_schema v = (case v of JObj es \<Rightarrow>
       (case (field ''dim'' json_word es, field ''metric'' json_metric es, field ''shard_count'' json_word es, field ''replication_n'' json_word es) of
          (Some d, Some m, Some sc, Some n) \<Rightarrow> Some \<lparr>cs_dim = d, cs_metric = m, cs_shard_count = sc, cs_replication_n = n\<rparr>
        | _ \<Rightarrow> None)
   | _ \<Rightarrow> None)"

text \<open>An integer key is a JSON number: digits without a leading zero.\<close>

definition key_u64 :: "str \<Rightarrow> u64 option" where
  "key_u64 s = (if s = [] \<or> \<not> is_digit (hd s) \<or> (hd s = 48 \<and> length s \<noteq> 1) then None else parse_u64 s)"

fun json_map :: "(str \<Rightarrow> 'k option) \<Rightarrow> (json_value \<Rightarrow> 'v option) \<Rightarrow> ('k::linorder \<times> 'v) list \<Rightarrow> (str \<times> json_value) list \<Rightarrow> ('k \<times> 'v) list option" where
  "json_map fk fv m [] = Some m"
| "json_map fk fv m ((s, v) # es) = (case (fk s, fv v) of
     (Some k, Some x) \<Rightarrow> json_map fk fv (bt_insert k x m) es
   | _ \<Rightarrow> None)"

fun json_obj :: "(str \<Rightarrow> 'k option) \<Rightarrow> (json_value \<Rightarrow> 'v option) \<Rightarrow> json_value \<Rightarrow> ('k::linorder \<times> 'v) list option" where
  "json_obj fk fv (JObj es) = json_map fk fv [] es"
| "json_obj fk fv _ = None"

fun json_state_entry :: "json_value \<Rightarrow> ((str \<times> u32 \<times> node_id) \<times> shard_state) option" where
  "json_state_entry (JArr [JArr [c, i, n], st]) = (case (json_str c, json_word i, json_word n, json_shard_state st) of
     (Some c, Some i, Some n, Some st) \<Rightarrow> Some ((c, i, n), st)
   | _ \<Rightarrow> None)"
| "json_state_entry _ = None"

fun read_entries :: "('a \<Rightarrow> 'b option) \<Rightarrow> 'a list \<Rightarrow> 'b list option" where
  "read_entries f [] = Some []"
| "read_entries f (x # xs) = (case f x of None \<Rightarrow> None | Some y \<Rightarrow> map_option ((#) y) (read_entries f xs))"

text \<open>\<open>collect\<close> into a map: later entries replace earlier ones.\<close>

fun shard_states_deserialize :: "json_value \<Rightarrow> ((str \<times> u32 \<times> node_id) \<times> shard_state) list option" where
  "shard_states_deserialize (JArr es) = map_option (\<lambda>entries. foldl (\<lambda>m (k, st). bt_insert k st m) [] entries) (read_entries json_state_entry es)"
| "shard_states_deserialize _ = None"

definition json_meta_state :: "json_value \<Rightarrow> meta_state option" where
  "json_meta_state v = (case v of JObj es \<Rightarrow>
       (case (field ''nodes'' (json_obj key_u64 json_str) es, field ''collections'' (json_obj Some json_schema) es,
              field ''shard_states'' shard_states_deserialize es) of
          (Some ns, Some cs, Some sts) \<Rightarrow> Some \<lparr>ms_nodes = ns, ms_collections = cs, ms_shard_states = sts\<rparr>
        | _ \<Rightarrow> None)
   | _ \<Rightarrow> None)"

definition variant :: "string \<Rightarrow> json_value \<Rightarrow> (str \<times> json_value) list option" where
  "variant name v = (case v of JObj [(k, JObj es)] \<Rightarrow> if k = ascii name then Some es else None | _ \<Rightarrow> None)"

definition json_request :: "json_value \<Rightarrow> meta_request option" where
  "json_request v =
     (if v = JStr (ascii ''Noop'') then Some Noop else
      case variant ''RegisterNode'' v of Some es \<Rightarrow>
        (case (field ''node_id'' json_word es, field ''advertise_addr'' json_str es) of
           (Some n, Some a) \<Rightarrow> Some (RegisterNode n a) | _ \<Rightarrow> None)
      | None \<Rightarrow> case variant ''DeregisterNode'' v of Some es \<Rightarrow> map_option DeregisterNode (field ''node_id'' json_word es)
      | None \<Rightarrow> case variant ''CreateCollection'' v of Some es \<Rightarrow>
        (case (field ''name'' json_str es, field ''schema'' json_schema es) of
           (Some n, Some s) \<Rightarrow> Some (CreateCollection n s) | _ \<Rightarrow> None)
      | None \<Rightarrow> case variant ''DropCollection'' v of Some es \<Rightarrow> map_option DropCollection (field ''name'' json_str es)
      | None \<Rightarrow> case variant ''SetShardState'' v of Some es \<Rightarrow>
        (case (field ''collection'' json_str es, field ''shard_idx'' json_word es, field ''node_id'' json_word es, field ''state'' json_shard_state es) of
           (Some c, Some i, Some n, Some st) \<Rightarrow> Some (SetShardState c i n st) | _ \<Rightarrow> None)
      | None \<Rightarrow> None)"

section \<open>Reading what was written\<close>

lemma json_word_json [simp]: "json_word (word_json x) = Some x"
  using uint_lt2p [of x] by (simp add: word_json_def)

lemma json_metric_json [simp]: "json_metric (metric_json m) = Some m"
  by (cases m) (simp_all add: json_metric_def ascii_def)

lemma json_shard_state_json [simp]: "json_shard_state (shard_state_json st) = Some st"
  by (cases st) (simp_all add: json_shard_state_def ascii_def)

lemma json_schema_json [simp]: "json_schema (schema_json s) = Some s"
  by (cases s) (simp add: json_schema_def schema_json_def field_def ascii_def)

lemma json_state_entry_json [simp]: "json_state_entry (JArr [state_key_json k, shard_state_json st]) = Some (k, st)"
  by (cases k) simp

lemma digits_hd: "0 < n \<Longrightarrow> 0 < hd (digits n)"
proof (induction n rule: digits.induct)
  case (1 n)
  then show ?case by (cases "n < 10") (simp_all add: digits.simps [of n])
qed

lemma key_u64_text: "key_u64 (dec_bytes (unat n)) = Some n"
proof -
  have d: "hd (digits (unat n)) < 10" using digits_range [OF hd_in_set [OF digits_neq_Nil]] .
  have hd: "hd (dec_bytes (unat n)) = of_nat (48 + hd (digits (unat n)))" by (simp add: dec_bytes_def hd_map)
  have "hd (digits (unat n)) = 0" if "hd (dec_bytes (unat n)) = 48"
    using digit_byte [OF d] hd that by (auto simp: digit_val_def)
  then have "hd (dec_bytes (unat n)) \<noteq> 48 \<or> unat n = 0" using digits_hd [of "unat n"] by fastforce
  then have "hd (dec_bytes (unat n)) \<noteq> 48 \<or> length (dec_bytes (unat n)) = 1" by (auto simp: dec_bytes_def digits.simps [of 0])
  then show ?thesis using digit_byte [OF d] hd by (auto simp: key_u64_def parse_u64_dec dec_bytes_parts)
qed

lemma json_map_entries:
  assumes "\<And>k. \<exists>s. key_text (gk k) = Some s \<and> fk s = Some k" "\<And>v. fv (gv v) = Some v"
  shows "bt_ok (a @ m) \<Longrightarrow> \<exists>es. map_entries gk gv m = Inr es \<and> json_map fk fv a es = Some (a @ m)"
proof (induction m arbitrary: a)
  case (Cons e m)
  obtain k v where e: "e = (k, v)" by fastforce
  obtain s where s: "key_text (gk k) = Some s" "fk s = Some k" using assms(1) by blast
  have ok: "bt_ok (a @ [(k, v)])" "bt_ok ((a @ [(k, v)]) @ m)" using Cons.prems e by (simp_all add: bt_ok_def bt_keys_def sorted_wrt_append)
  from Cons.IH [OF ok(2)] obtain es where "map_entries gk gv m = Inr es" "json_map fk fv (a @ [(k, v)]) es = Some (a @ e # m)" using e by auto
  with s assms(2) e bt_insert_last [OF ok(1)] show ?case by simp
qed simp

lemma shard_states_read: "bt_ok m \<Longrightarrow> shard_states_deserialize (shard_states_serialize m) = Some m"
proof -
  assume ok: "bt_ok m"
  have "read_entries json_state_entry (map (\<lambda>(k, st). JArr [state_key_json k, shard_state_json st]) m) = Some m" for m
    by (induction m) auto
  then show ?thesis using bt_collect [of "[]" m] ok by (simp add: shard_states_serialize_def)
qed

lemma meta_state_read:
  assumes "meta_inv m"
  shows "\<exists>v. meta_state_json m = Inr v \<and> json_meta_state v = Some m"
proof -
  note I = meta_invD [OF assms]
  obtain ns where ns: "map_entries word_json JStr (ms_nodes m) = Inr ns" "json_map key_u64 json_str [] ns = Some (ms_nodes m)"
    using json_map_entries [of word_json key_u64 json_str JStr "[]" "ms_nodes m"] key_u64_text I(1) by (auto simp: word_json_def)
  obtain cs where cs: "map_entries JStr schema_json (ms_collections m) = Inr cs" "json_map Some json_schema [] cs = Some (ms_collections m)"
    using json_map_entries [of JStr Some json_schema schema_json "[]" "ms_collections m"] I(2) by auto
  show ?thesis
    using ns cs shard_states_read [OF I(3)] by (simp add: meta_state_json_def json_meta_state_def field_def ascii_def)
qed

lemma request_read: "json_request (request_json r) = Some r"
  by (cases r) (simp_all add: json_request_def variant_def field_def ascii_def)

section \<open>Properties\<close>


end
