(* ===== verification/Spec2Isabelle.thy ===== *)
theory Spec2Isabelle
  imports Distance Scatter Rebalance_Props Raft_Network Data_Dir Client Crash_Writer Meta_Json
begin

text \<open>
  quorvec is a replicated vector database.  This development models its Rust crates
  \<open>qv-storage\<close>, \<open>qv-hnsw\<close>, \<open>qv-cluster\<close>, \<open>qv-node\<close> and \<open>qv-client\<close> and proves what each component
  promises to the next one, from bytes on disk up to what a client of a quorum read is told.

  \<^bold>\<open>The program.\<close>  A collection of vectors is cut into shards; a point belongs to the shard its id
  hashes to, a shard to the first nodes clockwise on a hash ring.  Any node coordinates a request:
  it stamps a write with its hybrid logical clock, sends it to the replicas of the shard, counts
  acknowledgements against a quorum and keeps a hint on disk for every replica it did not reach; a
  read asks replicas, picks the newest version and repairs the others; a search asks one replica
  per shard and merges.  A replica stores a shard as a write-ahead log, snapshots and a graph index in
  memory, and lets the newest stamp of a point win.  Nodes, collections and shard states are the
  metadata, replicated by openraft over a log and a state machine that the program stores itself; a
  reconcile loop moves shards when the membership changes.

  \<^bold>\<open>Shared theories.\<close>  \<open>QV_Prelude\<close> has words, floats as bit patterns with IEEE comparison, the byte
  codecs and the result combinator \<open>on_ok\<close>; \<open>Disk\<close> files with a synced prefix, a script of
  I/O faults and \<open>crash\<close>, which keeps the synced prefix and any part of the rest; \<open>BTree_Map\<close>,
  \<open>Binary_Heap\<close> and \<open>Decimal\<close> the parts of the Rust library in use (numbers as text included).

  \<^bold>\<open>Storage\<close> (\<open>src/crates/qv-storage/src\<close>).
  \<^item> \<open>Hlc\<close> (\<open>hlc.rs\<close>): stamps, packing and the clock.  Stamps strictly increase.
  \<^item> \<open>Framing\<close>, \<open>Log_Writer\<close>, \<open>Wal\<close> (\<open>wal.rs\<close>): record codec, frames with checksum, buffered writer,
    recovery.  The codec is exact, recovery returns the longest intact run of any contents, and an
    acknowledged record of fsync mode survives every crash.
  \<^item> \<open>Hints\<close> (\<open>hints.rs\<close>, hint operations of \<open>node_state.rs\<close>): codec, append, read, rewrite.
  \<^item> \<open>Atomic_File\<close>, \<open>Snapshot\<close> (\<open>snapshot.rs\<close>): replacement of a file through a temporary one.
  \<^item> \<open>Shard\<close>, \<open>Shard_Correct\<close>, \<open>Shard_Props\<close> (\<open>shard.rs\<close>): the specification is a
    last-writer-wins register per id (\<open>lww_log\<close>); every operation keeps the image of the log,
    reopening after a crash gives a prefix with everything synced, replicas converge.
  \<^item> \<open>Crash_Writer\<close> (\<open>examples/crash_writer.rs\<close> beside \<open>src\<close>): the program of the crash tests, killed any
    number of times between two writes or inside one, its log torn.  Each restart finds every id
    printed before.

  \<^bold>\<open>Indexes\<close> (\<open>src/crates/qv-hnsw/src\<close>).
  \<^item> \<open>Vector_Index\<close> (\<open>index.rs\<close>): the trait as a locale, the brute-force index as an instance.
  \<^item> \<open>Hnsw\<close>, \<open>Hnsw_Correct\<close>, \<open>Hnsw_Index\<close>, \<open>Hnsw_Props\<close> (\<open>hnsw.rs\<close>): the whole graph algorithm.  No
    history panics, the graph passes its own validation and holds the specified points; the greedy
    descent ends at a local minimum; a search is sound, and exact when its beam covers a connected
    graph.  Both loops are total functions, by measures on the distance and on the unvisited nodes.
  \<^item> \<open>Float32\<close>, \<open>Distance\<close> (\<open>distance.rs\<close>): the scalar kernels in single precision, computed
    exactly and rounded to nearest even.  The Euclidean one never yields NaN on finite vectors and is
    symmetric, so that a search with it is in order; the cosine one stays between 0 and 2 or is NaN.

  \<^bold>\<open>Metadata\<close> (\<open>src/crates/qv-cluster/src\<close>).
  \<^item> \<open>Placement\<close> (\<open>placement.rs\<close>): ring and replica sets, and how little a membership change moves.
  \<^item> \<open>Meta\<close> (\<open>meta.rs\<close>): requests and their application, refining three total functions; the shard map.
  \<^item> \<open>Meta_Json\<close> (derived serde code of \<open>meta.rs\<close> and its adapter \<open>shard_states_seq\<close>): the documents the
    metadata and the requests are written as, and that reading them gives both back.
  \<^item> \<open>Raft_Store\<close>, \<open>Raft_Props\<close> (\<open>raft/store.rs\<close>): log and state machine refine what Raft asks for and
    survive crashes; a snapshot carries the state to another node.
  \<^item> \<open>Manager\<close> (\<open>manager.rs\<close>): start, bootstrap, join, leave, metadata writes and their forwarding form.
  \<^item> \<open>Raft_Network\<close> (\<open>raft/network.rs\<close>, \<open>handle_raft_rpc\<close>, \<open>raft_rpc\<close>): a call over the network
    is the call itself.

  \<^bold>\<open>Node\<close> (\<open>src/crates/qv-node/src\<close>).
  \<^item> \<open>Shard_Store\<close>, \<open>Store_Props\<close> (\<open>shards.rs\<close>): the lazily opened shards.  Over any history
    (\<open>store_reach\<close>) a read returns the last-writer-wins version of the acknowledged writes.
  \<^item> \<open>Node\<close>, \<open>Node_Inv\<close> (\<open>node_state.rs\<close>, \<open>internal_service.rs\<close>, replica half of \<open>router.rs\<close>): the
    handlers of a node and the invariant \<open>node_ok\<close> that survives failed writes.
  \<^item> \<open>Router\<close>, \<open>Replica_Access\<close>, \<open>Router_Props\<close>, \<open>Handoff\<close>, \<open>Scatter\<close>, \<open>Shard_Transfer\<close> (\<open>router.rs\<close>): the
    coordinator.  The quorum argument is made once in a locale over the access to one replica; then
    read-your-writes across quorums, hints for missed replicas and their replay, merging of
    searches, completeness of pulls.  \<open>Demo_Cluster\<close> is the cluster of the concrete runs.
  \<^item> \<open>Service\<close>, \<open>Service_Props\<close> (\<open>service.rs\<close>, \<open>meta_write\<close>): client handlers, outcomes of collection and
    membership calls, well-formed schemas, the language of join targets.
  \<^item> \<open>Rebalance\<close>, \<open>Rebalance_Props\<close> (\<open>rebalance.rs\<close>): a pass of the reconcile loop; an acquisition
    marks a replica active only after a completed pull.
  \<^item> \<open>Socket_Addr\<close>, \<open>Launch\<close>, \<open>Command_Line\<close> (\<open>config.rs\<close>, \<open>lib.rs\<close>, \<open>main.rs\<close>): socket addresses as
    text, configuration and its derived serde code, peer admission, the arguments of the process
    and the document they are pasted into, the start of a node from its command line, which this
    theory shows to recover all acknowledged state.
  \<^item> \<open>Data_Dir\<close> (the paths built in \<open>shards.rs\<close>, \<open>shard.rs\<close>, \<open>manager.rs\<close>, \<open>raft/store.rs\<close>,
    \<open>node_state.rs\<close>): which files are which.  Everywhere else each shard, the hint log and the files
    of Raft have a disk of their own; here this is proved for collection names that are one path
    component, and refuted for others, which the service accepts.

  \<^bold>\<open>Client\<close> (\<open>src/crates/qv-client/src/lib.rs\<close>).
  \<^item> \<open>Client\<close>: every call of the library over the handlers of \<open>Service\<close>, and the quorum guarantee as
    a client sees it.

  \<^bold>\<open>How the code is rendered.\<close>  A \<open>Result\<close> is a sum with the error on the left; a panic is the
  outer \<open>None\<close>, so that a result \<open>Some\<close> says the code does not panic.  A method that mutates takes
  and returns its state.  A map that is iterated is an association list in the order of the
  \<open>BTreeMap\<close>, one that is only looked up is a function.  Text of the program is UTF-8 bytes.  A lock
  held over a whole operation makes it one step.  Between the steps of a coordinator the
  rest of the cluster acts: a world carries a list of events, each with the fate of a
  message (delivered, unreachable, answer lost) and an arbitrary change of the nodes; the theorems
  require only that the change satisfies the rely condition \<open>rely\<close> (it keeps \<open>node_ok\<close>, lowers no
  stamp, stores only issued versions), and the handlers of a node are proved to satisfy it.

  \<^bold>\<open>Bounds and hypotheses.\<close>  The index numbers nodes with 32 bits, so a shard holds at most \<open>2 ^ 32\<close>
  records; invariants carry the room that is left, and a request needs as much as it writes.
  Durability of acknowledged writes is stated for fsync mode (\<open>wal_batch_ms\<close> zero); batch mode has
  its own statement.  No fuel is used anywhere.  Parameters stand for code outside the repository:
  crc32fast, xxh64, bincode and serde_json (assumed to read back what they wrote; that the
  trees it is given for the metadata determine it is proved), TOML (assumed as in \<open>toml_ok\<close>: a
  document of plain assignments is read as those), tonic, the logarithm of the level draw, and openraft, of which is assumed that a write that returns Ok has
  been applied and one that fails has been applied or not.  The metadata is steady while a data
  request runs; it may change during an acquisition.

  \<^bold>\<open>Not modelled.\<close>  The SIMD library behind \<open>distance.rs\<close>: the indexes take any kernel, and only the
  theorems that name the scalar one depend on its values.  The degree statistics of the graph.  Timers
  and background tasks, which only repeat modelled operations.  The start and shutdown of the gRPC server
  and tracing in \<open>main.rs\<close>.  The generated code of \<open>qv-proto\<close>.  Benchmarks, tests and the smoke
  example, which only calls the client.
\<close>

section \<open>Restart of a node\<close>


definition demo_config :: node_config where
  "demo_config = \<lparr>cf_node_id = 1, cf_listen_addr = AddrV4 [127, 0, 0, 1] 7000, cf_advertise_addr = None, cf_data_dir = [100], cf_raft_peers = [],
     cf_wal_batch_ms = 0, cf_snapshot_wal_mb = default_snapshot_wal_mb, cf_vnodes = default_vnodes\<rparr>"

definition demo_table :: "(str \<times> toml) list" where
  "demo_table = [(ascii ''node_id'', TomlInt 1), (ascii ''listen_addr'', TomlStr (ascii ''127.0.0.1:7000'')), (ascii ''data_dir'', TomlStr [100])]"

definition demo_args :: "str list" where
  "demo_args = [ascii ''--config'', ascii ''node.toml'']"

lemma demo_args_read:
  "parse_args Inr (\<lambda>_. Inr demo_table) demo_args = Returns (Inr \<lparr>lo_config = demo_config, lo_bootstrap = False, lo_join_targets = []\<rparr>)"
proof -
  have "parse_addr (ascii ''127.0.0.1:7000'') = Some (AddrV4 [127, 0, 0, 1] 7000)" by code_simp
  then have "config_from_file Inr (\<lambda>_. Inr demo_table) path = Inr demo_config" for path
    by (simp add: config_from_file_def config_from_str_def config_deserialize_def demo_table_def visit_field_def raw_empty_def
        config_validate_def demo_config_def default_snapshot_wal_mb_def default_vnodes_def ascii_def)
  then show ?thesis
    by (simp add: parse_args_def demo_args_def is_help_def take_flag_def with_val_def next_val_def flags_config_def no_flags_def ascii_def)
qed


end
